(* ===== verification/Prelude.thy ===== *)
theory Prelude
  imports Complex_Main "HOL-Library.Sublist" "HOL-Library.Char_ord" "HOL-Library.List_Lexorder"
begin

text \<open>
  Shared vocabulary of the development: the named theorem collections, the string operations
  of the JavaScript library that the sources use, decimal printing, and the generic list
  lemmas the component theories rest on.

  A JavaScript string is a \<^typ>\<open>string\<close>: one \<^typ>\<open>char\<close> per code unit, so the model covers
  the code units below 256.  On that range every operation below is the one of the standard
  (white space of \<open>trim\<close>, case mapping of \<open>toLowerCase\<close>, lengths and slices).
\<close>

named_theorems js_simps \<open>evaluation rules of the JavaScript value operations\<close>
named_theorems view_simps \<open>unfolding rules of rendered templates\<close>
named_theorems step_simps \<open>unfolding rules of component steps\<close>

section \<open>Strings\<close>

abbreviation char_nl :: char where "char_nl \<equiv> CHR 10"
abbreviation char_cr :: char where "char_cr \<equiv> CHR 13"

text \<open>\<open>s.startsWith(p)\<close>\<close>
definition startsWith :: "string \<Rightarrow> string \<Rightarrow> bool" where
  "startsWith s p \<longleftrightarrow> prefix p s"

text \<open>\<open>s.replace(/c+$/, '')\<close> for a single character \<open>c\<close>\<close>
definition strip_trailing :: "char \<Rightarrow> string \<Rightarrow> string" where
  "strip_trailing c s = rev (dropWhile (\<lambda>x. x = c) (rev s))"

text \<open>\<open>s.replace(/\r$/, '')\<close>: one trailing character at most\<close>
definition strip_one_trailing :: "char \<Rightarrow> string \<Rightarrow> string" where
  "strip_one_trailing c s = (if s \<noteq> [] \<and> last s = c then butlast s else s)"

text \<open>White space as \<open>trim\<close> and the class \<open>\s\<close> read it, below 256.\<close>
definition is_js_space :: "char \<Rightarrow> bool" where
  "is_js_space c \<longleftrightarrow> c \<in> {CHR 9, CHR 10, CHR 11, CHR 12, CHR 13, CHR 32, CHR 160}"

definition trim :: "string \<Rightarrow> string" where
  "trim s = rev (dropWhile is_js_space (rev (dropWhile is_js_space s)))"

text \<open>\<open>s.split(c)\<close> for a one-character separator: always at least one piece.\<close>
fun split_on :: "char \<Rightarrow> string \<Rightarrow> string list" where
  "split_on c [] = [[]]"
| "split_on c (x # xs) =
     (if x = c then [] # split_on c xs
      else (case split_on c xs of [] \<Rightarrow> [[x]] | w # ws \<Rightarrow> (x # w) # ws))"

fun join_with :: "string \<Rightarrow> string list \<Rightarrow> string" where
  "join_with sep [] = []"
| "join_with sep [w] = w"
| "join_with sep (w # ws) = w @ sep @ join_with sep ws"

text \<open>\<open>toLowerCase\<close>: the ASCII and the Latin-1 capitals.\<close>
definition to_lower_char :: "char \<Rightarrow> char" where
  "to_lower_char c =
     (let n = (of_char c :: nat) in
      if 65 \<le> n \<and> n \<le> 90 \<or> 192 \<le> n \<and> n \<le> 222 \<and> n \<noteq> 215 then char_of (n + 32) else c)"

definition toLowerCase :: "string \<Rightarrow> string" where
  "toLowerCase = map to_lower_char"

text \<open>\<open>s.indexOf(c)\<close>, with \<open>None\<close> for -1.\<close>
fun index_of :: "'a \<Rightarrow> 'a list \<Rightarrow> nat option" where
  "index_of c [] = None"
| "index_of c (x # xs) = (if x = c then Some 0 else map_option Suc (index_of c xs))"

section \<open>Decimal printing\<close>

definition digit_char :: "nat \<Rightarrow> char" where
  "digit_char d = char_of (48 + d)"

definition is_digit :: "char \<Rightarrow> bool" where
  "is_digit c \<longleftrightarrow> CHR ''0'' \<le> c \<and> c \<le> CHR ''9''"

definition digit_val :: "char \<Rightarrow> nat" where
  "digit_val c = of_char c - 48"

fun show_nat :: "nat \<Rightarrow> string" where
  "show_nat n = (if n < 10 then [digit_char n] else show_nat (n div 10) @ [digit_char (n mod 10)])"

declare show_nat.simps [simp del]

definition show_int :: "int \<Rightarrow> string" where
  "show_int i = (if i < 0 then CHR ''-'' # show_nat (nat (- i)) else show_nat (nat i))"

definition read_nat :: "string \<Rightarrow> nat" where
  "read_nat ds = foldl (\<lambda>n d. 10 * n + digit_val d) 0 ds"

section \<open>Lists\<close>

text \<open>The last \<open>n\<close> elements.\<close>
definition take_last :: "nat \<Rightarrow> 'a list \<Rightarrow> 'a list" where
  "take_last n xs = drop (length xs - n) xs"

text \<open>\<open>Array.prototype.find\<close> is \<^const>\<open>List.find\<close>.  A stable sort by a comparison function
  that answers a number, as \<open>Array.prototype.sort\<close> takes it.\<close>
fun insert_cmp :: "('a \<Rightarrow> 'a \<Rightarrow> int) \<Rightarrow> 'a \<Rightarrow> 'a list \<Rightarrow> 'a list" where
  "insert_cmp f x [] = [x]"
| "insert_cmp f x (y # ys) = (if f x y \<le> 0 then x # y # ys else y # insert_cmp f x ys)"

definition sort_cmp :: "('a \<Rightarrow> 'a \<Rightarrow> int) \<Rightarrow> 'a list \<Rightarrow> 'a list" where
  "sort_cmp f xs = foldr (insert_cmp f) xs []"

section \<open>Lemmas on strings\<close>

lemma startsWith_append [simp]: "startsWith (p @ s) p"
  by (simp add: startsWith_def)

lemma startsWith_Nil [simp]: "startsWith s []"
  by (simp add: startsWith_def)

lemma startsWith_Cons [simp]:
  "startsWith (x # s) (y # p) \<longleftrightarrow> x = y \<and> startsWith s p"
  "\<not> startsWith [] (y # p)"
  by (auto simp: startsWith_def)

lemma strip_trailing_snoc [simp]:
  "strip_trailing c (s @ [x]) = (if x = c then strip_trailing c s else s @ [x])"
  by (simp add: strip_trailing_def)

lemma strip_trailing_Nil [simp]: "strip_trailing c [] = []"
  by (simp add: strip_trailing_def)

lemma strip_trailing_last: "strip_trailing c s = [] \<or> last (strip_trailing c s) \<noteq> c"
  by (induction s rule: rev_induct) auto

lemma strip_trailing_idem [simp]: "strip_trailing c (strip_trailing c s) = strip_trailing c s"
  by (induction s rule: rev_induct) auto

lemma strip_trailing_decomp: "\<exists>k. s = strip_trailing c s @ replicate k c"
proof (induction s rule: rev_induct)
  case Nil
  show ?case by simp
next
  case (snoc x s)
  then obtain k where k: "s = strip_trailing c s @ replicate k c" by blast
  show ?case
  proof (cases "x = c")
    case True
    have "s @ [x] = strip_trailing c s @ replicate (Suc k) c"
      using k True by (metis append.assoc replicate_append_same replicate_Suc)
    then show ?thesis using True by (metis strip_trailing_snoc)
  next
    case False
    then show ?thesis by (intro exI [of _ 0]) simp
  qed
qed

lemma strip_trailing_append_replicate [simp]:
  "strip_trailing c (s @ replicate k c) = strip_trailing c s"
proof (induction k)
  case (Suc k)
  have "s @ replicate (Suc k) c = (s @ replicate k c) @ [c]"
    by (simp add: replicate_append_same)
  then show ?case using Suc by (metis strip_trailing_snoc)
qed simp

lemma split_on_not_Nil [simp]: "split_on c s \<noteq> []"
  by (induction s) (auto split: list.splits)

lemma split_on_append_sep:
  "c \<notin> set w \<Longrightarrow> split_on c (w @ c # s) = w # split_on c s"
  by (induction w) auto

lemma split_on_no_sep: "c \<notin> set w \<Longrightarrow> split_on c w = [w]"
  by (induction w) auto

lemma join_split [simp]: "join_with [c] (split_on c s) = s"
proof (induction s)
  case (Cons x s)
  obtain w ws where "split_on c s = w # ws"
    by (meson list.exhaust split_on_not_Nil)
  then show ?case using Cons by (cases ws) auto
qed simp

lemma split_on_pieces: "w \<in> set (split_on c s) \<Longrightarrow> c \<notin> set w"
proof (induction s arbitrary: w)
  case (Cons x s)
  then show ?case by (cases "split_on c s") (auto split: if_splits)
qed simp

lemma toLowerCase_append [simp]: "toLowerCase (a @ b) = toLowerCase a @ toLowerCase b"
  by (simp add: toLowerCase_def)

lemma trim_Nil [simp]: "trim [] = []"
  by (simp add: trim_def)

lemma dropWhile_rev_fixed: "xs = [] \<or> \<not> P (hd xs) \<Longrightarrow> dropWhile P xs = xs"
  by (cases xs) auto

lemma hd_trim: "trim s = [] \<or> \<not> is_js_space (hd (trim s))"
proof -
  let ?d = "dropWhile is_js_space s"
  have "prefix (trim s) ?d"
    unfolding trim_def prefix_def
    by (metis rev_append rev_rev_ident takeWhile_dropWhile_id)
  moreover have "?d \<noteq> [] \<Longrightarrow> \<not> is_js_space (hd ?d)"
    by (rule hd_dropWhile)
  ultimately show ?thesis
    by (metis append_is_Nil_conv hd_append2 prefix_def)
qed

lemma last_trim: "trim s = [] \<or> \<not> is_js_space (last (trim s))"
  unfolding trim_def
  by (metis hd_dropWhile last_rev rev_is_Nil_conv)

lemma trim_idem [simp]: "trim (trim s) = trim s"
proof -
  have "dropWhile is_js_space (trim s) = trim s"
    using hd_trim [of s] by (auto simp: dropWhile_rev_fixed)
  moreover have "dropWhile is_js_space (rev (trim s)) = rev (trim s)"
    using last_trim [of s] by (intro dropWhile_rev_fixed) (auto simp: hd_rev)
  ultimately show ?thesis
    by (simp add: trim_def [of "trim s"])
qed

section \<open>Lemmas on decimal printing\<close>

lemma digit_val_digit_char [simp]: "d < 10 \<Longrightarrow> digit_val (digit_char d) = d"
  by (simp add: digit_val_def digit_char_def)

lemma is_digit_digit_char [simp]: "d < 10 \<Longrightarrow> is_digit (digit_char d)"
  by (simp add: is_digit_def digit_char_def less_eq_char_def)

lemma read_nat_snoc [simp]: "read_nat (ds @ [d]) = 10 * read_nat ds + digit_val d"
  by (simp add: read_nat_def)

lemma show_nat_digits: "c \<in> set (show_nat n) \<Longrightarrow> is_digit c"
proof (induction n rule: show_nat.induct)
  case (1 n)
  then show ?case by (subst (asm) (2) show_nat.simps) (auto split: if_splits)
qed

lemma show_nat_not_Nil [simp]: "show_nat n \<noteq> []"
  by (subst show_nat.simps) simp

lemma read_show_nat [simp]: "read_nat (show_nat n) = n"
proof (induction n rule: show_nat.induct)
  case (1 n)
  show ?case
  proof (cases "n < 10")
    case True
    then show ?thesis by (simp add: show_nat.simps read_nat_def)
  next
    case False
    then show ?thesis using 1 by (subst show_nat.simps) simp
  qed
qed

lemma show_nat_inj [simp]: "show_nat m = show_nat n \<longleftrightarrow> m = n"
  by (metis read_show_nat)

lemma digit_char_0 [simp]: "digit_char 0 = CHR ''0''"
  by code_simp

lemma digit_char_eq_0: "d < 10 \<Longrightarrow> digit_char d = CHR ''0'' \<longleftrightarrow> d = 0"
  by (metis digit_char_0 digit_val_digit_char zero_less_numeral)

lemma show_nat_hd: "hd (show_nat n) = CHR ''0'' \<longleftrightarrow> n = 0"
proof (induction n rule: show_nat.induct)
  case (1 n)
  show ?case
  proof (cases "n < 10")
    case True
    then have "hd (show_nat n) = digit_char n" by (simp add: show_nat.simps)
    moreover have "digit_char n = CHR ''0'' \<longleftrightarrow> n = 0"
      using True by (rule digit_char_eq_0)
    ultimately show ?thesis by simp
  next
    case False
    then show ?thesis using 1 by (subst show_nat.simps) (simp add: hd_append)
  qed
qed

section \<open>Lemmas on lists\<close>

lemma length_take_last [simp]: "length (take_last n xs) = min n (length xs)"
  by (simp add: take_last_def min_def)

lemma take_last_all [simp]: "length xs \<le> n \<Longrightarrow> take_last n xs = xs"
  by (simp add: take_last_def)

lemma take_last_append_take_last:
  "take_last n (take_last n xs @ ys) = take_last n (xs @ ys)"
proof (cases "length xs \<le> n")
  case False
  then have "length (xs @ ys) - n = length ys + (length xs - n)"
    and "length (take_last n xs @ ys) - n = length ys"
    by simp_all
  then show ?thesis
    unfolding take_last_def [of n "take_last n xs @ ys"] take_last_def [of n "xs @ ys"]
    using False by (simp add: take_last_def)
qed simp

lemma last_take_last: "0 < n \<Longrightarrow> xs \<noteq> [] \<Longrightarrow> last (take_last n xs) = last xs"
  by (simp add: take_last_def last_drop)

lemma suffix_take_last: "suffix (take_last n xs) xs"
  by (simp add: take_last_def suffix_drop)

lemma set_insert_cmp [simp]: "set (insert_cmp f x ys) = insert x (set ys)"
  by (induction ys) auto

lemma set_sort_cmp [simp]: "set (sort_cmp f xs) = set xs"
  by (induction xs) (auto simp: sort_cmp_def)

lemma sorted_insert_cmp:
  assumes total: "\<And>a b. f a b \<le> 0 \<or> f b a \<le> 0"
    and trans: "\<And>a b c. f a b \<le> 0 \<Longrightarrow> f b c \<le> 0 \<Longrightarrow> f a c \<le> 0"
  shows "sorted_wrt (\<lambda>a b. f a b \<le> 0) ys \<Longrightarrow>
    sorted_wrt (\<lambda>a b. f a b \<le> 0) (insert_cmp f x ys)"
proof (induction ys)
  case (Cons y ys)
  show ?case
  proof (cases "f x y \<le> 0")
    case True
    then show ?thesis using Cons.prems trans by auto
  next
    case False
    then have "f y x \<le> 0" using total by blast
    then show ?thesis using Cons False by auto
  qed
qed simp

lemma sorted_sort_cmp:
  assumes "\<And>a b. f a b \<le> 0 \<or> f b a \<le> 0"
    and "\<And>a b c. f a b \<le> 0 \<Longrightarrow> f b c \<le> 0 \<Longrightarrow> f a c \<le> 0"
  shows "sorted_wrt (\<lambda>a b. f a b \<le> 0) (sort_cmp f xs)"
  using sorted_insert_cmp [of f, OF assms]
  by (induction xs) (auto simp: sort_cmp_def)

end
