(* ===== verification/Js_Value.thy ===== *)
theory Js_Value
  imports Prelude "HOL-Library.AList"
begin

text \<open>
  The part of JavaScript's dynamic semantics the web UI relies on: values, property reads
  (which throw on \<open>undefined\<close> and \<open>null\<close>), truthiness, \<open>||\<close>, \<open>??\<close>, \<open>?.\<close>, \<open>===\<close>,
  conversion to strings, and exceptions as the left summand of a result.

  Numbers are exact rationals plus \<open>NaN\<close>: nothing is rounded to 53 bits, and infinities and
  negative zero are left out.  Objects are association lists in insertion order; a read that
  finds no own property falls through to \<open>Object.prototype\<close>, whose members are functions.
  The text of an engine-raised \<open>TypeError\<close> is engine specific; the model uses one fixed text.
\<close>

section \<open>Values and exceptions\<close>

datatype jsval =
    Undef
  | Null
  | Bool bool
  | Num rat
  | NaN
  | Str string
  | Fn string
  | Arr "jsval list"
  | Obj "(string \<times> jsval) list"

datatype js_error = Exn (exn_name: string) (exn_message: string)

type_synonym 'a jsr = "js_error + 'a"

definition type_error :: js_error where
  "type_error = Exn ''TypeError'' ''type error''"

text \<open>\<open>new Error(m)\<close>\<close>
definition mk_Error :: "string \<Rightarrow> js_error" where
  "mk_Error m = Exn ''Error'' m"

fun bindr :: "'a jsr \<Rightarrow> ('a \<Rightarrow> 'b jsr) \<Rightarrow> 'b jsr" where
  "bindr (Inl e) f = Inl e"
| "bindr (Inr a) f = f a"

fun mapr :: "('a \<Rightarrow> 'b) \<Rightarrow> 'a jsr \<Rightarrow> 'b jsr" where
  "mapr f (Inl e) = Inl e"
| "mapr f (Inr a) = Inr (f a)"

text \<open>Evaluation of a function on every element, left to right, stopping at the first throw.\<close>
fun traverse :: "('a \<Rightarrow> 'b jsr) \<Rightarrow> 'a list \<Rightarrow> 'b list jsr" where
  "traverse f [] = Inr []"
| "traverse f (x # xs) = bindr (f x) (\<lambda>y. mapr (\<lambda>ys. y # ys) (traverse f xs))"

text \<open>\<open>String(e)\<close> for an exception, and the idiom \<open>e?.message || String(e)\<close>.\<close>
definition exn_string :: "js_error \<Rightarrow> string" where
  "exn_string e =
     (if exn_message e = [] then exn_name e
      else if exn_name e = [] then exn_message e
      else exn_name e @ '': '' @ exn_message e)"

definition err_text :: "js_error \<Rightarrow> string" where
  "err_text e = (if exn_message e \<noteq> [] then exn_message e else exn_string e)"

section \<open>Operators\<close>

fun truthy :: "jsval \<Rightarrow> bool" where
  "truthy Undef = False"
| "truthy Null = False"
| "truthy (Bool b) = b"
| "truthy (Num x) = (x \<noteq> 0)"
| "truthy NaN = False"
| "truthy (Str s) = (s \<noteq> [])"
| "truthy (Fn _) = True"
| "truthy (Arr _) = True"
| "truthy (Obj _) = True"

text \<open>\<open>a || b\<close> and \<open>a ?? b\<close>\<close>
definition js_or :: "jsval \<Rightarrow> jsval \<Rightarrow> jsval" where
  "js_or a b = (if truthy a then a else b)"

definition nullish :: "jsval \<Rightarrow> bool" where
  "nullish v \<longleftrightarrow> v = Undef \<or> v = Null"

definition coalesce :: "jsval \<Rightarrow> jsval \<Rightarrow> jsval" where
  "coalesce a b = (if nullish a then b else a)"

text \<open>\<open>a === b\<close>.  Arrays, objects and functions compare by identity; the sources only compare
  values that come from separate \<open>JSON.parse\<close> calls, so two of them are never identical.\<close>
fun strict_eq :: "jsval \<Rightarrow> jsval \<Rightarrow> bool" where
  "strict_eq Undef Undef = True"
| "strict_eq Null Null = True"
| "strict_eq (Bool a) (Bool b) = (a = b)"
| "strict_eq (Num a) (Num b) = (a = b)"
| "strict_eq (Str a) (Str b) = (a = b)"
| "strict_eq _ _ = False"

definition object_prototype :: "string list" where
  "object_prototype =
     [''constructor'', ''hasOwnProperty'', ''isPrototypeOf'', ''propertyIsEnumerable'',
      ''toLocaleString'', ''toString'', ''valueOf'', ''__proto__'', ''__defineGetter__'',
      ''__defineSetter__'', ''__lookupGetter__'', ''__lookupSetter__'']"

text \<open>\<open>o[k]\<close> for a plain object\<close>
definition obj_get :: "(string \<times> jsval) list \<Rightarrow> string \<Rightarrow> jsval" where
  "obj_get kvs k =
     (case map_of kvs k of Some v \<Rightarrow> v
      | None \<Rightarrow> if k \<in> set object_prototype then Fn k else Undef)"

text \<open>\<open>v.k\<close>: reading from \<open>undefined\<close> or \<open>null\<close> throws; of the built-in members of strings and
  arrays only \<open>length\<close> is read as a value by the sources.\<close>
fun get :: "jsval \<Rightarrow> string \<Rightarrow> jsval jsr" where
  "get Undef k = Inl type_error"
| "get Null k = Inl type_error"
| "get (Obj kvs) k = Inr (obj_get kvs k)"
| "get (Arr vs) k = Inr (if k = ''length'' then Num (of_nat (length vs)) else Undef)"
| "get (Str s) k = Inr (if k = ''length'' then Num (of_nat (length s)) else Undef)"
| "get _ k = Inr Undef"

text \<open>\<open>v?.k\<close>\<close>
definition get_opt :: "jsval \<Rightarrow> string \<Rightarrow> jsval" where
  "get_opt v k = (case get v k of Inl _ \<Rightarrow> Undef | Inr w \<Rightarrow> w)"

text \<open>\<open>v[0]\<close> on an array; the sources index nothing else.\<close>
fun first_of :: "jsval \<Rightarrow> jsval jsr" where
  "first_of Undef = Inl type_error"
| "first_of Null = Inl type_error"
| "first_of (Arr (v # vs)) = Inr v"
| "first_of (Str (c # cs)) = Inr (Str [c])"
| "first_of _ = Inr Undef"

text \<open>\<open>for (const x of v)\<close>: arrays and strings are iterable, the rest throws.\<close>
fun iterate :: "jsval \<Rightarrow> jsval list jsr" where
  "iterate (Arr vs) = Inr vs"
| "iterate (Str s) = Inr (map (\<lambda>c. Str [c]) s)"
| "iterate _ = Inl type_error"

text \<open>\<open>v.map\<close>, \<open>v.find\<close>: methods of arrays only, so a call on anything else throws.\<close>
fun array_of :: "jsval \<Rightarrow> jsval list jsr" where
  "array_of (Arr vs) = Inr vs"
| "array_of _ = Inl type_error"

section \<open>Conversion to strings\<close>

text \<open>The digits of a fraction, at most \<open>k\<close> of them.\<close>
fun fraction_digits :: "nat \<Rightarrow> rat \<Rightarrow> string" where
  "fraction_digits 0 x = []"
| "fraction_digits (Suc k) x =
     (if x = 0 then []
      else digit_char (nat \<lfloor>10 * x\<rfloor>) # fraction_digits k (10 * x - of_int \<lfloor>10 * x\<rfloor>))"

definition number_to_string :: "rat \<Rightarrow> string" where
  "number_to_string x =
     (let a = \<bar>x\<bar>; i = \<lfloor>a\<rfloor>; f = a - of_int i in
      (if x < 0 then ''-'' else '''') @ show_int i @
      (if f = 0 then '''' else ''.'' @ fraction_digits 21 f))"

fun to_str :: "jsval \<Rightarrow> string" where
  "to_str Undef = ''undefined''"
| "to_str Null = ''null''"
| "to_str (Bool b) = (if b then ''true'' else ''false'')"
| "to_str (Num x) = number_to_string x"
| "to_str NaN = ''NaN''"
| "to_str (Str s) = s"
| "to_str (Fn k) = ''function '' @ k @ ''() { [native code] }''"
| "to_str (Arr vs) = join_with '','' (map (\<lambda>v. if nullish v then [] else to_str v) vs)"
| "to_str (Obj _) = ''[object Object]''"

text \<open>\<open>x.toFixed(d)\<close> below \<open>10 ^ 21\<close>: the integer nearest to \<open>x * 10 ^ d\<close>, the larger one of
  two, printed with \<open>d\<close> decimals.  (From \<open>10 ^ 21\<close> on the standard prints the number itself.)\<close>
definition fixed_digits :: "nat \<Rightarrow> nat \<Rightarrow> string" where
  "fixed_digits d n =
     (let s = show_nat n; p = (if length s \<le> d then replicate (d + 1 - length s) CHR ''0'' @ s else s)
      in if d = 0 then s else take (length p - d) p @ ''.'' @ drop (length p - d) p)"

definition toFixed :: "nat \<Rightarrow> rat \<Rightarrow> string" where
  "toFixed d x =
     (if 10 ^ 21 \<le> \<bar>x\<bar> then number_to_string x
      else (if x < 0 then ''-'' else '''') @ fixed_digits d (nat \<lfloor>\<bar>x\<bar> * 10 ^ d + 1/2\<rfloor>))"

section \<open>Records as objects\<close>

text \<open>\<open>{ ...o, [k]: v }\<close>: a computed key of a literal always defines an own property.\<close>
definition obj_define :: "string \<Rightarrow> jsval \<Rightarrow> (string \<times> jsval) list \<Rightarrow> (string \<times> jsval) list" where
  "obj_define k v kvs = AList.update k v kvs"

text \<open>\<open>o[k] = v\<close>: assigning to \<open>__proto__\<close> defines no own property.\<close>
definition obj_assign :: "string \<Rightarrow> jsval \<Rightarrow> (string \<times> jsval) list \<Rightarrow> (string \<times> jsval) list" where
  "obj_assign k v kvs = (if k = ''__proto__'' then kvs else AList.update k v kvs)"

text \<open>\<open>delete o[k]\<close>\<close>
definition obj_delete :: "string \<Rightarrow> (string \<times> jsval) list \<Rightarrow> (string \<times> jsval) list" where
  "obj_delete k kvs = filter (\<lambda>(k', _). k' \<noteq> k) kvs"

section \<open>Lemmas\<close>

declare js_or_def [js_simps] nullish_def [js_simps] coalesce_def [js_simps] get_opt_def [js_simps]

lemma bindr_Inr_conv: "bindr r f = Inr b \<longleftrightarrow> (\<exists>a. r = Inr a \<and> f a = Inr b)"
  by (cases r) auto

lemma bindr_Inl_conv: "bindr r f = Inl e \<longleftrightarrow> r = Inl e \<or> (\<exists>a. r = Inr a \<and> f a = Inl e)"
  by (cases r) auto

lemma bindr_assoc: "bindr (bindr r f) g = bindr r (\<lambda>x. bindr (f x) g)"
  by (cases r) auto

lemma mapr_Inr_conv: "mapr f r = Inr b \<longleftrightarrow> (\<exists>a. r = Inr a \<and> b = f a)"
  by (cases r) auto

lemma mapr_Inl_conv [simp]: "mapr f r = Inl e \<longleftrightarrow> r = Inl e"
  by (cases r) auto

lemma bindr_cong [fundef_cong]:
  "r = r' \<Longrightarrow> (\<And>a. r' = Inr a \<Longrightarrow> f a = g a) \<Longrightarrow> bindr r f = bindr r' g"
  by (cases r') auto

lemma traverse_Inr_length: "traverse f xs = Inr ys \<Longrightarrow> length ys = length xs"
  by (induction xs arbitrary: ys) (auto simp: bindr_Inr_conv mapr_Inr_conv)

lemma traverse_Inr_nth:
  "traverse f xs = Inr ys \<Longrightarrow> i < length xs \<Longrightarrow> f (xs ! i) = Inr (ys ! i)"
proof (induction xs arbitrary: ys i)
  case (Cons x xs)
  then show ?case by (cases i) (auto simp: bindr_Inr_conv mapr_Inr_conv)
qed simp

lemma traverse_all_Inr: "(\<And>x. x \<in> set xs \<Longrightarrow> f x = Inr (g x)) \<Longrightarrow> traverse f xs = Inr (map g xs)"
  by (induction xs) auto

lemma err_text_not_Nil: "exn_name e \<noteq> [] \<Longrightarrow> err_text e \<noteq> []"
  by (auto simp: err_text_def exn_string_def)

lemma err_text_mk_Error [simp]: "m \<noteq> [] \<Longrightarrow> err_text (mk_Error m) = m"
  by (simp add: err_text_def mk_Error_def)

lemma truthy_js_or [simp]: "truthy (js_or a b) \<longleftrightarrow> truthy a \<or> truthy b"
  by (simp add: js_or_def)

lemma strict_eq_Str [simp]: "strict_eq v (Str s) \<longleftrightarrow> v = Str s"
  by (cases v) auto

lemma strict_eq_Num [simp]: "strict_eq v (Num x) \<longleftrightarrow> v = Num x"
  by (cases v) auto

lemma strict_eq_sym: "strict_eq a b = strict_eq b a"
  by (cases a; cases b) auto

lemma strict_eq_imp_eq: "strict_eq a b \<Longrightarrow> a = b"
  by (cases a; cases b) auto

lemma obj_get_define_same [simp]: "obj_get (obj_define k v kvs) k = v"
  by (simp add: obj_get_def obj_define_def update_conv')

lemma obj_get_define_other [simp]: "k' \<noteq> k \<Longrightarrow> obj_get (obj_define k v kvs) k' = obj_get kvs k'"
  by (simp add: obj_get_def obj_define_def update_conv')

lemma obj_get_assign_same: "k \<noteq> ''__proto__'' \<Longrightarrow> obj_get (obj_assign k v kvs) k = v"
  by (simp add: obj_get_def obj_assign_def update_conv')

lemma obj_get_assign_other: "k' \<noteq> k \<Longrightarrow> obj_get (obj_assign k v kvs) k' = obj_get kvs k'"
  by (simp add: obj_get_def obj_assign_def update_conv')

lemma get_Obj_own: "map_of kvs k = Some v \<Longrightarrow> get (Obj kvs) k = Inr v"
  by (simp add: obj_get_def)

lemma get_Inr_not_nullish: "get v k = Inr w \<Longrightarrow> \<not> nullish v"
  by (cases v) (auto simp: nullish_def)

lemma get_not_nullish: "\<not> nullish v \<Longrightarrow> \<exists>w. get v k = Inr w"
  by (cases v) (auto simp: nullish_def)

end
