(* ===== verification/Component.thy ===== *)
theory Component
  imports Js_Value
begin

text \<open>
  How the components of \<open>js/app.js\<close> are modelled.

  A component is a record of its \<open>useState\<close> and \<open>useRef\<close> cells, a view (the \<open>html\<close> template it
  returns, as a tree), and two functions that change the state: \<open>act\<close> runs the synchronous part of
  an event handler or effect and answers the API calls it starts; \<open>answer\<close> runs the part after the
  \<open>await\<close>, given the call's outcome.  Calls in flight are a list, and any of them may be answered
  next, so a run interleaves user events and replies in every order the browser can.

  An event handler can only run if the view offers it: the element that carries it is in the tree
  and is not disabled.
\<close>

section \<open>Templates\<close>

text \<open>A handler maps what the event carries to the component's action: the value of an input, the
  checked flag of a checkbox, for a click whether the target is the element itself.\<close>
datatype 'a attr = Attr string "jsval jsr" | On string "jsval \<Rightarrow> 'a option"

datatype 'a vnode =
    Elem string "'a attr list" "'a vnode list"
  | Text "jsval jsr"
  | Frag "'a vnode list"
  | Empty

definition lit :: "string \<Rightarrow> 'a vnode" where
  "lit s = Text (Inr (Str s))"

definition dyn :: "jsval jsr \<Rightarrow> 'a vnode" where
  "dyn r = Text r"

definition val :: "jsval \<Rightarrow> 'a vnode" where
  "val v = Text (Inr v)"

definition sattr :: "string \<Rightarrow> string \<Rightarrow> 'a attr" where
  "sattr k s = Attr k (Inr (Str s))"

definition battr :: "string \<Rightarrow> bool \<Rightarrow> 'a attr" where
  "battr k b = Attr k (Inr (Bool b))"

definition cls :: "string \<Rightarrow> 'a attr" where
  "cls s = sattr ''class'' s"

definition onClick :: "'a \<Rightarrow> 'a attr" where
  "onClick a = On ''click'' (\<lambda>_. Some a)"

definition onValue :: "string \<Rightarrow> (jsval \<Rightarrow> 'a) \<Rightarrow> 'a attr" where
  "onValue ev f = On ev (\<lambda>v. Some (f v))"

text \<open>\<open>onClick=${() => f(v.k)}\<close>: the property is read when the event fires.\<close>
definition onClickGet :: "jsval jsr \<Rightarrow> (jsval \<Rightarrow> 'a) \<Rightarrow> 'a attr" where
  "onClickGet r f = On ''click'' (\<lambda>_. case r of Inl _ \<Rightarrow> None | Inr v \<Rightarrow> Some (f v))"

text \<open>\<open>onClick=${(e) => { if (e.target === e.currentTarget) props.onClose(); }}\<close>\<close>
definition onSelfClick :: "'a \<Rightarrow> 'a attr" where
  "onSelfClick a = On ''click'' (\<lambda>v. if v = Bool True then Some a else None)"

text \<open>\<open>${b ? x : null}\<close>, \<open>${r ? x : y}\<close> on a value read from data, and \<open>${r.map(f)}\<close>\<close>
definition show_if :: "bool \<Rightarrow> 'a vnode \<Rightarrow> 'a vnode" where
  "show_if b x = (if b then x else Empty)"

definition if_val :: "jsval jsr \<Rightarrow> 'a vnode \<Rightarrow> 'a vnode \<Rightarrow> 'a vnode" where
  "if_val r x y = (case r of Inl e \<Rightarrow> Text (Inl e) | Inr v \<Rightarrow> if truthy v then x else y)"

definition with_val :: "jsval jsr \<Rightarrow> (jsval \<Rightarrow> 'a vnode) \<Rightarrow> 'a vnode" where
  "with_val r f = (case r of Inl e \<Rightarrow> Text (Inl e) | Inr v \<Rightarrow> f v)"

definition map_nodes :: "jsval jsr \<Rightarrow> (jsval \<Rightarrow> 'a vnode) \<Rightarrow> 'a vnode" where
  "map_nodes r f = (case bindr r array_of of Inl e \<Rightarrow> Text (Inl e) | Inr vs \<Rightarrow> Frag (map f vs))"

text \<open>\<open>'prefix ' + v\<close> in an attribute or text\<close>
definition plus_str :: "string \<Rightarrow> jsval jsr \<Rightarrow> jsval jsr" where
  "plus_str s r = mapr (\<lambda>v. Str (s @ to_str v)) r"

fun disabled :: "'a attr list \<Rightarrow> bool" where
  "disabled [] = False"
| "disabled (Attr k r # as) = (k = ''disabled'' \<and> (case r of Inl _ \<Rightarrow> False | Inr v \<Rightarrow> truthy v) \<or> disabled as)"
| "disabled (On _ _ # as) = disabled as"

fun handles :: "'a attr list \<Rightarrow> 'a \<Rightarrow> bool" where
  "handles [] a = False"
| "handles (Attr _ _ # as) a = handles as a"
| "handles (On _ f # as) a = ((\<exists>v. f v = Some a) \<or> handles as a)"

text \<open>The action \<open>a\<close> can be triggered by the user on the tree.\<close>
fun offers :: "'a vnode \<Rightarrow> 'a \<Rightarrow> bool" where
  "offers (Elem t as cs) a = (\<not> disabled as \<and> handles as a \<or> (\<exists>c \<in> set cs. offers c a))"
| "offers (Text r) a = False"
| "offers (Frag cs) a = (\<exists>c \<in> set cs. offers c a)"
| "offers Empty a = False"

fun attr_ok :: "'a attr \<Rightarrow> bool" where
  "attr_ok (Attr _ (Inl _)) = False"
| "attr_ok _ = True"

text \<open>Evaluating the template throws nothing.\<close>
fun renders :: "'a vnode \<Rightarrow> bool" where
  "renders (Elem t as cs) = (list_all attr_ok as \<and> (\<forall>c \<in> set cs. renders c))"
| "renders (Text r) = (case r of Inl _ \<Rightarrow> False | Inr _ \<Rightarrow> True)"
| "renders (Frag cs) = (\<forall>c \<in> set cs. renders c)"
| "renders Empty = True"

text \<open>The value \<open>v\<close> is a text of the tree.\<close>
fun displays :: "'a vnode \<Rightarrow> jsval \<Rightarrow> bool" where
  "displays (Elem t as cs) v = (\<exists>c \<in> set cs. displays c v)"
| "displays (Text r) v = (r = Inr v)"
| "displays (Frag cs) v = (\<exists>c \<in> set cs. displays c v)"
| "displays Empty v = False"

section \<open>Runs\<close>

inductive component_run ::
  "'s \<times> 'c list \<Rightarrow> ('s \<Rightarrow> 'a \<Rightarrow> bool) \<Rightarrow> ('s \<Rightarrow> 'a \<Rightarrow> 's \<times> 'c list) \<Rightarrow>
   ('s \<Rightarrow> 'c \<Rightarrow> 'r \<Rightarrow> 's \<times> 'c list) \<Rightarrow> 's \<times> 'c list \<Rightarrow> bool"
  for init :: "'s \<times> 'c list" and enabled :: "'s \<Rightarrow> 'a \<Rightarrow> bool"
    and act :: "'s \<Rightarrow> 'a \<Rightarrow> 's \<times> 'c list" and answer :: "'s \<Rightarrow> 'c \<Rightarrow> 'r \<Rightarrow> 's \<times> 'c list"
where
  mounted: "component_run init enabled act answer init"
| acted: "component_run init enabled act answer (s, cs) \<Longrightarrow> enabled s a \<Longrightarrow> act s a = (s', new) \<Longrightarrow>
     component_run init enabled act answer (s', cs @ new)"
| answered: "component_run init enabled act answer (s, cs1 @ c # cs2) \<Longrightarrow> answer s c r = (s', new) \<Longrightarrow>
     component_run init enabled act answer (s', cs1 @ cs2 @ new)"

lemma run_act:
  "component_run init enabled act answer (s, cs) \<Longrightarrow> enabled s a \<Longrightarrow>
   component_run init enabled act answer (fst (act s a), cs @ snd (act s a))"
  by (rule component_run.acted) simp_all

lemma run_answer:
  "component_run init enabled act answer (s, cs1 @ c # cs2) \<Longrightarrow>
   component_run init enabled act answer (fst (answer s c r), cs1 @ cs2 @ snd (answer s c r))"
  by (rule component_run.answered) simp_all

lemma run_answer_first:
  "component_run init enabled act answer (s, c # cs) \<Longrightarrow>
   component_run init enabled act answer (fst (answer s c r), cs @ snd (answer s c r))"
  using run_answer [of init enabled act answer s "[]" c cs r] by simp

text \<open>The contract of an invariant: what a component promises about its state and the calls it has in
  flight, established on mounting and kept by every handler and every reply.\<close>
locale component_invariant =
  fixes init :: "'s \<times> 'c list"
    and enabled :: "'s \<Rightarrow> 'a \<Rightarrow> bool"
    and act :: "'s \<Rightarrow> 'a \<Rightarrow> 's \<times> 'c list"
    and answer :: "'s \<Rightarrow> 'c \<Rightarrow> 'r \<Rightarrow> 's \<times> 'c list"
    and ok :: "'s \<Rightarrow> 'c list \<Rightarrow> bool"
  assumes init_ok: "ok (fst init) (snd init)"
    and act_ok: "ok s cs \<Longrightarrow> enabled s a \<Longrightarrow> ok (fst (act s a)) (cs @ snd (act s a))"
    and answer_ok: "ok s (cs1 @ c # cs2) \<Longrightarrow>
      ok (fst (answer s c r)) (cs1 @ cs2 @ snd (answer s c r))"
begin

lemma run_ok: "component_run init enabled act answer sc \<Longrightarrow> ok (fst sc) (snd sc)"
proof (induction rule: component_run.induct)
  case mounted
  show ?case by (rule init_ok)
next
  case (acted s cs a s' new)
  then show ?case using act_ok [of s cs a] by simp
next
  case (answered s cs1 c cs2 r s' new)
  then show ?case using answer_ok [of s cs1 c cs2 r] by simp
qed

end

text \<open>The common special case: a condition on the state and one on every call by itself.\<close>
locale local_invariant =
  fixes init :: "'s \<times> 'c list"
    and enabled :: "'s \<Rightarrow> 'a \<Rightarrow> bool"
    and act :: "'s \<Rightarrow> 'a \<Rightarrow> 's \<times> 'c list"
    and answer :: "'s \<Rightarrow> 'c \<Rightarrow> 'r \<Rightarrow> 's \<times> 'c list"
    and state_ok :: "'s \<Rightarrow> bool"
    and call_ok :: "'c \<Rightarrow> bool"
  assumes init_state: "state_ok (fst init)"
    and init_calls: "c \<in> set (snd init) \<Longrightarrow> call_ok c"
    and act_state: "state_ok s \<Longrightarrow> enabled s a \<Longrightarrow> state_ok (fst (act s a))"
    and act_calls: "state_ok s \<Longrightarrow> enabled s a \<Longrightarrow> c \<in> set (snd (act s a)) \<Longrightarrow> call_ok c"
    and answer_state: "state_ok s \<Longrightarrow> call_ok c \<Longrightarrow> state_ok (fst (answer s c r))"
    and answer_calls: "state_ok s \<Longrightarrow> call_ok c \<Longrightarrow> c' \<in> set (snd (answer s c r)) \<Longrightarrow> call_ok c'"

sublocale local_invariant \<subseteq>
  whole: component_invariant init enabled act answer "\<lambda>s cs. state_ok s \<and> list_all call_ok cs"
  by unfold_locales
    (auto simp: list_all_iff intro: init_state init_calls act_state act_calls answer_state answer_calls)

context local_invariant
begin

lemma state_invariant: "component_run init enabled act answer (s, cs) \<Longrightarrow> state_ok s"
  using whole.run_ok by fastforce

lemma call_invariant: "component_run init enabled act answer (s, cs) \<Longrightarrow> c \<in> set cs \<Longrightarrow> call_ok c"
  using whole.run_ok by (fastforce simp: list_all_iff)

end

section \<open>Lemmas\<close>

declare lit_def [view_simps] dyn_def [view_simps] val_def [view_simps] sattr_def [view_simps]
  battr_def [view_simps] cls_def [view_simps] onClick_def [view_simps] onValue_def [view_simps]
  onClickGet_def [view_simps] onSelfClick_def [view_simps] show_if_def [view_simps] plus_str_def [view_simps]

lemma offers_lit [simp]: "\<not> offers (lit s) a" and offers_dyn [simp]: "\<not> offers (dyn r) a"
  and offers_val [simp]: "\<not> offers (val v) a"
  by (simp_all add: view_simps)

lemma offers_show_if [simp]: "offers (show_if b x) a \<longleftrightarrow> b \<and> offers x a"
  by (simp add: show_if_def)

lemma offers_if_val [simp]:
  "offers (if_val r x y) a \<longleftrightarrow> (\<exists>v. r = Inr v \<and> (if truthy v then offers x a else offers y a))"
  by (auto simp: if_val_def split: sum.splits)

lemma offers_with_val [simp]: "offers (with_val r f) a \<longleftrightarrow> (\<exists>v. r = Inr v \<and> offers (f v) a)"
  by (auto simp: with_val_def split: sum.splits)

lemma renders_with_val [simp]: "renders (with_val r f) \<longleftrightarrow> (\<exists>v. r = Inr v \<and> renders (f v))"
  by (auto simp: with_val_def split: sum.splits)

lemma offers_map_nodes [simp]:
  "offers (map_nodes r f) a \<longleftrightarrow> (\<exists>vs. r = Inr (Arr vs) \<and> (\<exists>v \<in> set vs. offers (f v) a))"
proof (cases r)
  case (Inr w)
  then show ?thesis by (cases w) (auto simp: map_nodes_def)
qed (simp add: map_nodes_def)

lemma renders_lit [simp]: "renders (lit s)" and renders_val [simp]: "renders (val v)"
  by (simp_all add: view_simps)

lemma renders_dyn [simp]: "renders (dyn r) \<longleftrightarrow> (\<exists>v. r = Inr v)"
  by (cases r) (simp_all add: view_simps)

lemma renders_show_if [simp]: "renders (show_if b x) \<longleftrightarrow> \<not> b \<or> renders x"
  by (simp add: show_if_def)

lemma renders_if_val [simp]:
  "renders (if_val r x y) \<longleftrightarrow> (\<exists>v. r = Inr v \<and> (if truthy v then renders x else renders y))"
  by (auto simp: if_val_def split: sum.splits)

lemma renders_map_nodes [simp]:
  "renders (map_nodes r f) \<longleftrightarrow> (\<exists>vs. r = Inr (Arr vs) \<and> (\<forall>v \<in> set vs. renders (f v)))"
proof (cases r)
  case (Inr w)
  then show ?thesis by (cases w) (auto simp: map_nodes_def)
qed (simp add: map_nodes_def)

lemma attr_ok_simps [simp]: "attr_ok (sattr k s)" "attr_ok (battr k b)" "attr_ok (cls s)"
  "attr_ok (onClick a)" "attr_ok (onClickGet r g)" "attr_ok (onValue ev f)" "attr_ok (onSelfClick a)"
  by (simp_all add: view_simps)

lemma attr_ok_Attr [simp]: "attr_ok (Attr k r) \<longleftrightarrow> (\<exists>v. r = Inr v)"
  by (cases r) auto

lemma plus_str_Inr [simp]: "(\<exists>v. plus_str s r = Inr v) \<longleftrightarrow> (\<exists>v. r = Inr v)"
  by (cases r) (auto simp: plus_str_def)

lemma handles_simps [simp]:
  "handles (sattr k s # as) a = handles as a"
  "handles (battr k b # as) a = handles as a"
  "handles (cls s # as) a = handles as a"
  "handles (onClick x # as) a \<longleftrightarrow> a = x \<or> handles as a"
  "handles (onClickGet r g # as) a \<longleftrightarrow> (\<exists>v. r = Inr v \<and> a = g v) \<or> handles as a"
  "handles (onValue ev f # as) a \<longleftrightarrow> (\<exists>v. a = f v) \<or> handles as a"
  "handles (onSelfClick x # as) a \<longleftrightarrow> a = x \<or> handles as a"
  by (auto simp: view_simps split: sum.splits)

lemma disabled_simps [simp]:
  "disabled (sattr k s # as) \<longleftrightarrow> k = ''disabled'' \<and> s \<noteq> [] \<or> disabled as"
  "disabled (battr k b # as) \<longleftrightarrow> k = ''disabled'' \<and> b \<or> disabled as"
  "disabled (cls s # as) = disabled as"
  "disabled (onClick x # as) = disabled as"
  "disabled (onClickGet r g # as) = disabled as"
  "disabled (onValue ev f # as) = disabled as"
  "disabled (onSelfClick x # as) = disabled as"
  by (auto simp: view_simps)

end
