(* ===== verification/Json.thy ===== *)
theory Json
  imports Js_Value "HOL-Library.Monad_Syntax"
begin

text \<open>
  \<open>JSON.stringify\<close> and \<open>JSON.parse\<close> on the values of \<open>Js_Value\<close>, and the proof that parsing
  inverts printing.  The parser is the recursive descent over the JSON grammar; its fuel bounds
  the number of nested calls, \<open>JSON_parse\<close> supplies two units per character, and
  \<open>parse_fuel_irrelevant\<close> shows that any larger supply gives the same answer.  An escape
  \<open>\uXXXX\<close> beyond \<open>00FF\<close> has no \<^typ>\<open>char\<close> and is refused.
\<close>

section \<open>Printing\<close>

definition hex_digit :: "nat \<Rightarrow> char" where
  "hex_digit n = (if n < 10 then char_of (48 + n) else char_of (87 + n))"

definition escape_char :: "char \<Rightarrow> string" where
  "escape_char c =
     (if c = CHR 34 then [CHR 92, CHR 34]
      else if c = CHR 92 then [CHR 92, CHR 92]
      else if c = CHR 8 then [CHR 92, CHR ''b'']
      else if c = CHR 9 then [CHR 92, CHR ''t'']
      else if c = CHR 10 then [CHR 92, CHR ''n'']
      else if c = CHR 12 then [CHR 92, CHR ''f'']
      else if c = CHR 13 then [CHR 92, CHR ''r'']
      else if of_char c < (32::nat) then
        [CHR 92, CHR ''u'', CHR ''0'', CHR ''0'', hex_digit (of_char c div 16), hex_digit (of_char c mod 16)]
      else [c])"

definition json_quote :: "string \<Rightarrow> string" where
  "json_quote s = CHR 34 # concat (map escape_char s) @ [CHR 34]"

definition is_undef :: "jsval \<Rightarrow> bool" where
  "is_undef v \<longleftrightarrow> (case v of Undef \<Rightarrow> True | Fn _ \<Rightarrow> True | _ \<Rightarrow> False)"

fun json_text :: "jsval \<Rightarrow> string" where
  "json_text Undef = ''null''"
| "json_text Null = ''null''"
| "json_text (Bool b) = (if b then ''true'' else ''false'')"
| "json_text (Num x) = number_to_string x"
| "json_text NaN = ''null''"
| "json_text (Str s) = json_quote s"
| "json_text (Fn _) = ''null''"
| "json_text (Arr vs) = ''['' @ join_with '','' (map json_text vs) @ '']''"
| "json_text (Obj kvs) =
     ''{'' @ join_with '','' (map (\<lambda>(k, v). json_quote k @ '':'' @ json_text v)
        (filter (\<lambda>(k, v). \<not> is_undef v) kvs)) @ ''}''"

text \<open>\<open>JSON.stringify(v)\<close>; \<open>None\<close> is the result \<open>undefined\<close>.\<close>
definition JSON_stringify :: "jsval \<Rightarrow> string option" where
  "JSON_stringify v = (if is_undef v then None else Some (json_text v))"

section \<open>Parsing\<close>

definition is_json_ws :: "char \<Rightarrow> bool" where
  "is_json_ws c \<longleftrightarrow> c = CHR 32 \<or> c = CHR 9 \<or> c = CHR 10 \<or> c = CHR 13"

definition skip_ws :: "string \<Rightarrow> string" where
  "skip_ws = dropWhile is_json_ws"

definition hex_val :: "char \<Rightarrow> nat option" where
  "hex_val c =
     (let n = (of_char c :: nat) in
      if 48 \<le> n \<and> n \<le> 57 then Some (n - 48)
      else if 97 \<le> n \<and> n \<le> 102 then Some (n - 87)
      else if 65 \<le> n \<and> n \<le> 70 then Some (n - 55)
      else None)"

definition hex4 :: "char \<Rightarrow> char \<Rightarrow> char \<Rightarrow> char \<Rightarrow> char option" where
  "hex4 a b c d = do {
     h3 \<leftarrow> hex_val a; h2 \<leftarrow> hex_val b; h1 \<leftarrow> hex_val c; h0 \<leftarrow> hex_val d;
     if h3 = 0 \<and> h2 = 0 then Some (char_of (16 * h1 + h0)) else None }"

definition simple_escape :: "char \<Rightarrow> char option" where
  "simple_escape c =
     (if c = CHR 34 \<or> c = CHR 92 \<or> c = CHR ''/'' then Some c
      else if c = CHR ''b'' then Some (CHR 8)
      else if c = CHR ''t'' then Some (CHR 9)
      else if c = CHR ''n'' then Some (CHR 10)
      else if c = CHR ''f'' then Some (CHR 12)
      else if c = CHR ''r'' then Some (CHR 13)
      else None)"

text \<open>The characters of a string literal after the opening quote.\<close>
fun pstr :: "string \<Rightarrow> (string \<times> string) option" where
  "pstr [] = None"
| "pstr (c # r) =
     (if c = CHR 34 then Some ([], r)
      else if of_char c < (32::nat) then None
      else if c \<noteq> CHR 92 then do { (t, r') \<leftarrow> pstr r; Some (c # t, r') }
      else (case r of
          [] \<Rightarrow> None
        | e # r1 \<Rightarrow>
            if e = CHR ''u'' then
              (case r1 of
                h3 # h2 # h1 # h0 # r2 \<Rightarrow>
                  do { x \<leftarrow> hex4 h3 h2 h1 h0; (t, r') \<leftarrow> pstr r2; Some (x # t, r') }
              | _ \<Rightarrow> None)
            else do { x \<leftarrow> simple_escape e; (t, r') \<leftarrow> pstr r1; Some (x # t, r') }))"

definition pfrac :: "string \<Rightarrow> (rat \<times> string) option" where
  "pfrac s =
     (case s of
       [] \<Rightarrow> Some (0, s)
     | c # r \<Rightarrow>
         if c = CHR ''.'' then
           (let ds = takeWhile is_digit r in
            if ds = [] then None
            else Some (of_nat (read_nat ds) / 10 ^ length ds, dropWhile is_digit r))
         else Some (0, s))"

definition scale10 :: "bool \<Rightarrow> nat \<Rightarrow> rat" where
  "scale10 neg e = (if neg then 1 / 10 ^ e else 10 ^ e)"

definition pexp :: "string \<Rightarrow> (rat \<times> string) option" where
  "pexp s =
     (case s of
       [] \<Rightarrow> Some (1, s)
     | c # r \<Rightarrow>
         if c = CHR ''e'' \<or> c = CHR ''E'' then
           (let neg = (r \<noteq> [] \<and> hd r = CHR ''-'');
                r1 = (if r \<noteq> [] \<and> (hd r = CHR ''-'' \<or> hd r = CHR ''+'') then tl r else r);
                ds = takeWhile is_digit r1 in
            if ds = [] then None
            else Some (scale10 neg (read_nat ds), dropWhile is_digit r1))
         else Some (1, s))"

definition pnum :: "string \<Rightarrow> (jsval \<times> string) option" where
  "pnum s =
     (let neg = (s \<noteq> [] \<and> hd s = CHR ''-''); s1 = (if neg then tl s else s);
          ds = takeWhile is_digit s1 in
      if ds = [] \<or> (hd ds = CHR ''0'' \<and> 1 < length ds) then None
      else do {
        (f, r) \<leftarrow> pfrac (dropWhile is_digit s1);
        (k, r') \<leftarrow> pexp r;
        Some (Num ((if neg then -1 else 1) * (of_nat (read_nat ds) + f) * k), r') })"

definition pword :: "string \<Rightarrow> jsval \<Rightarrow> string \<Rightarrow> (jsval \<times> string) option" where
  "pword w v s = (if prefix w s then Some (v, drop (length w) s) else None)"

definition expect :: "char \<Rightarrow> string \<Rightarrow> string option" where
  "expect c s = (case skip_ws s of [] \<Rightarrow> None | d # r \<Rightarrow> if d = c then Some r else None)"

fun pv :: "nat \<Rightarrow> string \<Rightarrow> (jsval \<times> string) option"
  and pelems :: "nat \<Rightarrow> string \<Rightarrow> (jsval list \<times> string) option"
  and pmembers :: "nat \<Rightarrow> (string \<times> jsval) list \<Rightarrow> string \<Rightarrow> ((string \<times> jsval) list \<times> string) option"
where
  "pv 0 s = None"
| "pv (Suc n) s =
     (case skip_ws s of
       [] \<Rightarrow> None
     | c # r \<Rightarrow>
         if c = CHR 34 then do { (t, r') \<leftarrow> pstr r; Some (Str t, r') }
         else if c = CHR ''['' then
           (case expect (CHR '']'') r of
             Some r' \<Rightarrow> Some (Arr [], r')
           | None \<Rightarrow> do { (vs, r') \<leftarrow> pelems n r; Some (Arr vs, r') })
         else if c = CHR ''{'' then
           (case expect (CHR ''}'') r of
             Some r' \<Rightarrow> Some (Obj [], r')
           | None \<Rightarrow> do { (kvs, r') \<leftarrow> pmembers n [] r; Some (Obj kvs, r') })
         else if c = CHR ''t'' then pword ''true'' (Bool True) (c # r)
         else if c = CHR ''f'' then pword ''false'' (Bool False) (c # r)
         else if c = CHR ''n'' then pword ''null'' Null (c # r)
         else pnum (c # r))"
| "pelems 0 s = None"
| "pelems (Suc n) s = do {
     (v, r) \<leftarrow> pv n s;
     (case expect (CHR '','') r of
       Some r1 \<Rightarrow> do { (vs, r') \<leftarrow> pelems n r1; Some (v # vs, r') }
     | None \<Rightarrow> do { r' \<leftarrow> expect (CHR '']'') r; Some ([v], r') }) }"
| "pmembers 0 acc s = None"
| "pmembers (Suc n) acc s = do {
     r0 \<leftarrow> expect (CHR 34) s;
     (k, r1) \<leftarrow> pstr r0;
     r2 \<leftarrow> expect (CHR '':'') r1;
     (v, r3) \<leftarrow> pv n r2;
     (case expect (CHR '','') r3 of
       Some r4 \<Rightarrow> pmembers n (AList.update k v acc) r4
     | None \<Rightarrow> do { r' \<leftarrow> expect (CHR ''}'') r3; Some (AList.update k v acc, r') }) }"

text \<open>\<open>JSON.parse(s)\<close>; \<open>None\<close> is the \<open>SyntaxError\<close>.\<close>
definition JSON_parse :: "string \<Rightarrow> jsval option" where
  "JSON_parse s =
     (case pv (2 * length s + 2) s of
       None \<Rightarrow> None
     | Some (v, r) \<Rightarrow> if skip_ws r = [] then Some v else None)"

section \<open>The parser consumes its input\<close>

lemma length_skip_ws: "length (skip_ws s) \<le> length s"
  by (simp add: skip_ws_def length_dropWhile_le)

lemma expect_length: "expect c s = Some r \<Longrightarrow> length r < length s"
  using length_skip_ws [of s] by (auto simp: expect_def split: list.splits if_splits)

lemma pstr_length: "pstr s = Some (t, r) \<Longrightarrow> length r < length s"
proof (induction s arbitrary: t r rule: pstr.induct)
  case (2 c s)
  show ?case
    using "2.prems" "2.IH"
    by (auto split: if_splits list.splits Option.bind_splits prod.splits; fastforce)
qed simp

lemma pfrac_length: "pfrac s = Some (f, r) \<Longrightarrow> length r \<le> length s"
  by (auto simp: pfrac_def Let_def length_dropWhile_le le_SucI split: list.splits if_splits)

lemma pexp_length:
  assumes "pexp s = Some (f, r)"
  shows "length r \<le> length s"
proof (cases s)
  case (Cons c t)
  let ?t1 = "if t \<noteq> [] \<and> (hd t = CHR ''-'' \<or> hd t = CHR ''+'') then tl t else t"
  have "length (dropWhile is_digit ?t1) \<le> length ?t1" by (rule length_dropWhile_le)
  also have "\<dots> \<le> length s" using Cons by auto
  finally show ?thesis
    using assms Cons by (auto simp: pexp_def Let_def split: if_splits)
qed (use assms in \<open>simp add: pexp_def\<close>)

lemma pnum_length:
  assumes "pnum s = Some (v, r)"
  shows "length r \<le> length s"
proof -
  let ?s1 = "if s \<noteq> [] \<and> hd s = CHR ''-'' then tl s else s"
  obtain f r1 k where "pfrac (dropWhile is_digit ?s1) = Some (f, r1)" "pexp r1 = Some (k, r)"
    using assms by (auto simp: pnum_def Let_def split: if_splits Option.bind_splits prod.splits)
  then have "length r \<le> length (dropWhile is_digit ?s1)"
    using pfrac_length pexp_length order.trans by metis
  also have "\<dots> \<le> length ?s1" by (rule length_dropWhile_le)
  also have "\<dots> \<le> length s" by simp
  finally show ?thesis .
qed

lemma pword_length: "pword w v s = Some (u, r) \<Longrightarrow> length r \<le> length s"
  by (auto simp: pword_def split: if_splits)

lemmas consume_lengths = expect_length pstr_length pnum_length pword_length

lemmas parser_conv = Option.bind_eq_Some_conv option.case_eq_if

lemma parser_length:
  "pv n s = Some (v, r) \<Longrightarrow> length r \<le> length s"
  "pelems n s = Some (vs, r) \<Longrightarrow> length r \<le> length s"
  "pmembers n acc s = Some (kvs, r) \<Longrightarrow> length r \<le> length s"
proof (induction n s and n s and n acc s arbitrary: v r and vs r and kvs r
    rule: pv_pelems_pmembers.induct)
  case (2 n s)
  obtain c u where u: "skip_ws s = c # u"
    using "2.prems" by (cases "skip_ws s") auto
  then have len: "length u < length s" using length_skip_ws [of s] by simp
  consider "c = CHR 34" | "c = CHR ''[''" | "c = CHR ''{''" | "c = CHR ''t''" | "c = CHR ''f''"
    | "c = CHR ''n''" | "pnum (c # u) = Some (v, r)"
    using "2.prems" u by (auto split: if_splits)
  then show ?case
  proof cases
    case 1
    then show ?thesis using "2.prems" u len
      by (auto simp: parser_conv dest!: pstr_length)
  next
    case case_arr: 2
    show ?thesis
    proof (cases "expect (CHR '']'') u")
      case None
      then show ?thesis using "2.prems" "2.IH"(1) [OF u] case_arr u len
        by (fastforce simp: parser_conv)
    next
      case (Some a)
      then show ?thesis using "2.prems" case_arr u len expect_length [OF Some] by simp
    qed
  next
    case case_obj: 3
    show ?thesis
    proof (cases "expect (CHR ''}'') u")
      case None
      then show ?thesis using "2.prems" "2.IH"(2) [OF u] case_obj u len
        by (fastforce simp: parser_conv)
    next
      case (Some a)
      then show ?thesis using "2.prems" case_obj u len expect_length [OF Some] by simp
    qed
  qed (use "2.prems" u len in \<open>auto dest!: pword_length pnum_length\<close>)
next
  case (4 n s)
  then obtain v0 r0 where v0: "pv n s = Some (v0, r0)" by (auto simp: parser_conv)
  then have "length r0 \<le> length s" using "4.IH"(1) by simp
  show ?case
  proof (cases "expect (CHR '','') r0")
    case None
    then show ?thesis
      using "4.prems" v0 \<open>length r0 \<le> length s\<close>
      by (auto simp: Option.bind_eq_Some_conv dest!: expect_length)
  next
    case (Some r1)
    then obtain vs' where "pelems n r1 = Some (vs', r)"
      using "4.prems" v0 by (auto simp: Option.bind_eq_Some_conv)
    then have "length r \<le> length r1" using "4.IH"(2) v0 Some by blast
    then show ?thesis using expect_length [OF Some] \<open>length r0 \<le> length s\<close> by simp
  qed
next
  case (6 n acc s)
  then obtain r0 k r1 r2 v0 r3 where
    steps: "expect (CHR 34) s = Some r0" "pstr r0 = Some (k, r1)" "expect (CHR '':'') r1 = Some r2"
      "pv n r2 = Some (v0, r3)"
    by (auto simp: Option.bind_eq_Some_conv)
  have "length r3 \<le> length r2" using "6.IH"(1) steps by blast
  then have r3: "length r3 \<le> length s"
    using expect_length [OF steps(1)] pstr_length [OF steps(2)]
      expect_length [OF steps(3)] by linarith
  show ?case
  proof (cases "expect (CHR '','') r3")
    case None
    then obtain r' where "expect (CHR ''}'') r3 = Some r'" "r = r'"
      using "6.prems" steps by (auto simp: Option.bind_eq_Some_conv)
    then show ?thesis using r3 expect_length by fastforce
  next
    case (Some r4)
    then have "pmembers n (AList.update k v0 acc) r4 = Some (kvs, r)"
      using "6.prems" steps by simp
    then have "length r \<le> length r4"
      using "6.IH"(2) steps Some by auto
    then show ?thesis using r3 expect_length [OF Some] by simp
  qed
qed auto

section \<open>Fuel\<close>

lemma parse_fuel_irrelevant:
  "2 * length s + 1 < n \<Longrightarrow> n \<le> m \<Longrightarrow> pv n s = pv m s"
  "2 * length s + 2 < n \<Longrightarrow> n \<le> m \<Longrightarrow> pelems n s = pelems m s"
  "2 * length s + 2 < n \<Longrightarrow> n \<le> m \<Longrightarrow> pmembers n acc s = pmembers m acc s"
proof (induction n s and n s and n acc s arbitrary: m and m and m
    rule: pv_pelems_pmembers.induct)
  case (2 n s)
  obtain m' where m: "m = Suc m'" "n \<le> m'" using "2.prems" by (cases m) auto
  show ?case
  proof (cases "skip_ws s")
    case (Cons c u)
    then have len: "2 * length u + 2 < n" using length_skip_ws [of s] "2.prems" by simp
    consider "c = CHR ''[''" | "c = CHR ''{''" | "c \<noteq> CHR ''[''" "c \<noteq> CHR ''{''" by blast
    then show ?thesis
    proof cases
      case 1
      then have "expect (CHR '']'') u = None \<Longrightarrow> pelems n u = pelems m' u"
        using "2.IH"(1) [OF Cons _ _ _ len m(2)] by simp
      then show ?thesis using 1 m Cons by (simp split: option.split)
    next
      case 2
      then have "expect (CHR ''}'') u = None \<Longrightarrow> pmembers n [] u = pmembers m' [] u"
        using "2.IH"(2) [OF Cons _ _ _ _ len m(2)] by simp
      then show ?thesis using 2 m Cons by (simp split: option.split)
    qed (use m Cons in simp)
  qed (use m in simp)
next
  case (4 n s)
  obtain m' where m: "m = Suc m'" "n \<le> m'" using "4.prems" by (cases m) auto
  have v: "pv n s = pv m' s" using "4.IH"(1) "4.prems" m by simp
  have "pelems n r1 = pelems m' r1"
    if "pv n s = Some (v0, r0)" "expect (CHR '','') r0 = Some r1" for v0 r0 r1
  proof -
    have "length r1 < length s"
      using parser_length(1) [OF that(1)] expect_length [OF that(2)] by simp
    then show ?thesis using "4.IH"(2) [OF that(1) _ that(2)] "4.prems" m by simp
  qed
  then show ?case
    unfolding m pelems.simps v [symmetric]
    by (auto intro!: Option.bind_cong split: option.split)
next
  case (6 n acc s)
  obtain m' where m: "m = Suc m'" "n \<le> m'" using "6.prems" by (cases m) auto
  have short: "length r2 < length s"
    if "expect (CHR 34) s = Some r0" "pstr r0 = Some (k, r1)" "expect (CHR '':'') r1 = Some r2"
    for r0 k r1 r2
    using expect_length [OF that(1)] pstr_length [OF that(2)] expect_length [OF that(3)] by simp
  have v: "pv n r2 = pv m' r2"
    if "expect (CHR 34) s = Some r0" "pstr r0 = Some (k, r1)" "expect (CHR '':'') r1 = Some r2"
    for r0 k r1 r2
    using "6.IH"(1) [OF that(1,2) _ that(3)] short [OF that] "6.prems" m by simp
  have "pmembers n (AList.update k v0 acc) r4 = pmembers m' (AList.update k v0 acc) r4"
    if "expect (CHR 34) s = Some r0" "pstr r0 = Some (k, r1)" "expect (CHR '':'') r1 = Some r2"
      "pv n r2 = Some (v0, r3)" "expect (CHR '','') r3 = Some r4"
    for r0 k r1 r2 v0 r3 r4
  proof -
    have "length r4 < length s"
      using short [OF that(1-3)] parser_length(1) [OF that(4)] expect_length [OF that(5)] by simp
    then show ?thesis
      using "6.IH"(2) [OF that(1,2) _ that(3,4) _ that(5)] "6.prems" m by simp
  qed
  then show ?case
    unfolding m pmembers.simps
    by (auto intro!: Option.bind_cong simp: v [symmetric] split: option.split)
qed auto

section \<open>Parsing inverts printing\<close>

text \<open>The values that survive: no \<open>undefined\<close>, function or \<open>NaN\<close>, whole numbers, objects
  without repeated keys.\<close>
fun jsonable :: "jsval \<Rightarrow> bool" where
  "jsonable Undef = False"
| "jsonable Null = True"
| "jsonable (Bool _) = True"
| "jsonable (Num x) = (x = of_int \<lfloor>x\<rfloor>)"
| "jsonable NaN = False"
| "jsonable (Str _) = True"
| "jsonable (Fn _) = False"
| "jsonable (Arr vs) = (\<forall>v \<in> set vs. jsonable v)"
| "jsonable (Obj kvs) = (distinct (map fst kvs) \<and> (\<forall>(k, v) \<in> set kvs. jsonable v))"

definition num_end :: "string \<Rightarrow> bool" where
  "num_end r \<longleftrightarrow> r = [] \<or> \<not> is_digit (hd r) \<and> hd r \<notin> {CHR ''.'', CHR ''e'', CHR ''E''}"

lemma hex_val_hex_digit [simp]: "n < 16 \<Longrightarrow> hex_val (hex_digit n) = Some n"
  by (auto simp: hex_val_def hex_digit_def Let_def)

lemma pstr_control:
  assumes "of_char c < (32::nat)"
  shows "hex4 (CHR ''0'') (CHR ''0'') (hex_digit (of_char c div 16)) (hex_digit (of_char c mod 16)) = Some c"
proof -
  have "hex_val (CHR ''0'') = Some 0" by code_simp
  moreover have "of_char c div 16 < (16::nat)" using assms by simp
  ultimately show ?thesis by (simp add: hex4_def)
qed

lemma pstr_escape:
  "pstr (escape_char c @ r) = map_option (\<lambda>(t, r'). (c # t, r')) (pstr r)"
proof -
  have bind: "do { (t, r') \<leftarrow> x; Some (d # t, r') } = map_option (\<lambda>(t, r'). (d # t, r')) x" for x d
    by (cases x) auto
  consider "c \<in> {CHR 34, CHR 92, CHR 8, CHR 9, CHR 10, CHR 12, CHR 13}"
    | "c \<notin> {CHR 34, CHR 92, CHR 8, CHR 9, CHR 10, CHR 12, CHR 13}" "of_char c < (32::nat)"
    | "c \<notin> {CHR 34, CHR 92, CHR 8, CHR 9, CHR 10, CHR 12, CHR 13}" "\<not> of_char c < (32::nat)"
    by blast
  then show ?thesis
  proof cases
    case 1
    then consider "c = CHR 34" | "c = CHR 92" | "c = CHR 8" | "c = CHR 9" | "c = CHR 10"
      | "c = CHR 12" | "c = CHR 13" by blast
    then show ?thesis
      by cases (simp_all add: escape_char_def simple_escape_def bind)
  next
    case 2
    then show ?thesis using pstr_control [of c] by (simp add: escape_char_def bind)
  next
    case 3
    then show ?thesis by (simp add: escape_char_def bind)
  qed
qed

lemma pstr_quote: "pstr (concat (map escape_char s) @ CHR 34 # r) = Some (s, r)"
  by (induction s) (simp_all add: pstr_escape)

lemma skip_ws_hd: "s \<noteq> [] \<Longrightarrow> \<not> is_json_ws (hd s) \<Longrightarrow> skip_ws s = s"
  by (cases s) (auto simp: skip_ws_def)

lemma expect_hd [simp]: "\<not> is_json_ws c \<Longrightarrow> expect c (c # r) = Some r"
  by (simp add: expect_def skip_ws_def)

lemma expect_other: "\<not> is_json_ws d \<Longrightarrow> d \<noteq> c \<Longrightarrow> expect c (d # r) = None"
  by (simp add: expect_def skip_ws_def)

lemma digit_not_special:
  assumes "is_digit c"
  shows "\<not> is_json_ws c" "c \<noteq> CHR 34" "c \<noteq> CHR ''[''" "c \<noteq> CHR ''{''" "c \<noteq> CHR ''t''"
    "c \<noteq> CHR ''f''" "c \<noteq> CHR ''n''" "c \<noteq> CHR ''-''" "c \<noteq> CHR '']''" "c \<noteq> CHR ''}''"
  using assms by (auto simp: is_digit_def is_json_ws_def less_eq_char_def)

lemma number_to_string_int:
  "number_to_string (of_int i) = (if i < 0 then ''-'' else '''') @ show_nat (nat \<bar>i\<bar>)"
proof -
  have "\<lfloor>\<bar>of_int i :: rat\<bar>\<rfloor> = \<bar>i\<bar>"
    by (metis floor_of_int of_int_abs)
  then show ?thesis by (simp add: number_to_string_def Let_def show_int_def)
qed

lemma takeWhile_show_nat:
  assumes "num_end r"
  shows "takeWhile is_digit (show_nat n @ r) = show_nat n" "dropWhile is_digit (show_nat n @ r) = r"
  using assms show_nat_digits [of _ n]
  by (cases r; simp add: num_end_def takeWhile_append2 dropWhile_append2)+

lemma show_nat_no_leading_zero: "\<not> (hd (show_nat n) = CHR ''0'' \<and> 1 < length (show_nat n))"
  using show_nat_hd [of n] by (auto simp: show_nat.simps [of 0])

lemma pnum_show:
  assumes "num_end r"
  shows "pnum (number_to_string (of_int i) @ r) = Some (Num (of_int i), r)"
proof -
  let ?n = "nat \<bar>i\<bar>"
  have "hd (show_nat ?n) \<noteq> CHR ''-''"
    using show_nat_digits [of "hd (show_nat ?n)" ?n] digit_not_special(8) by auto
  moreover have "pfrac r = Some (0, r)" "pexp r = Some (1, r)"
    using assms by (auto simp: num_end_def pfrac_def pexp_def split: list.splits)
  moreover have "(of_nat ?n :: rat) = \<bar>of_int i\<bar>" by simp
  ultimately show ?thesis
    using takeWhile_show_nat [OF assms, of ?n] show_nat_no_leading_zero [of ?n]
    by (cases "i < 0") (simp_all add: pnum_def number_to_string_int Let_def)
qed

lemma update_append: "k \<notin> fst ` set kvs \<Longrightarrow> AList.update k v kvs = kvs @ [(k, v)]"
  by (induction kvs) auto

lemma json_text_hd:
  assumes "jsonable v"
  obtains c t where "json_text v = c # t" "\<not> is_json_ws c" "c \<noteq> CHR '']''" "c \<noteq> CHR ''}''"
proof (cases v)
  case (Num x)
  then obtain i where i: "x = of_int i" using assms by auto
  obtain c t where ct: "show_nat (nat \<bar>i\<bar>) = c # t" by (meson list.exhaust show_nat_not_Nil)
  then have "is_digit c" using show_nat_digits [of c "nat \<bar>i\<bar>"] by simp
  then show ?thesis
    using that [of c t] that [of "CHR ''-''" "c # t"] Num i ct digit_not_special [of c]
    by (cases "i < 0") (simp_all add: number_to_string_int is_json_ws_def)
next
  case (Bool b)
  then show ?thesis using that by (cases b) (simp_all add: is_json_ws_def)
qed (use assms that in \<open>auto simp: json_quote_def is_json_ws_def\<close>)

definition parses :: "jsval \<Rightarrow> bool" where
  "parses v \<longleftrightarrow> (\<forall>n r. num_end r \<longrightarrow> 2 * length (json_text v) + 1 < n \<longrightarrow>
     pv n (json_text v @ r) = Some (v, r))"

lemma parsesD:
  "parses v \<Longrightarrow> num_end r \<Longrightarrow> 2 * length (json_text v) + 1 < n \<Longrightarrow>
   pv n (json_text v @ r) = Some (v, r)"
  by (simp add: parses_def)

lemma parsesI: "(\<And>m r. pv (Suc m) (json_text v @ r) = Some (v, r)) \<Longrightarrow> parses v"
  unfolding parses_def by (metis not_less_zero old.nat.exhaust)

lemma num_end_delim [simp]:
  "num_end (CHR '','' # r)" "num_end (CHR '']'' # r)" "num_end (CHR ''}'' # r)" "num_end []"
  by (simp_all add: num_end_def is_digit_def less_eq_char_def)

lemma not_ws_delim [simp]:
  "\<not> is_json_ws CHR '',''" "\<not> is_json_ws CHR '']''" "\<not> is_json_ws CHR ''}''"
  "\<not> is_json_ws CHR '':''" "\<not> is_json_ws CHR 34" "\<not> is_json_ws CHR ''[''" "\<not> is_json_ws CHR ''{''"
  by (simp_all add: is_json_ws_def)

lemma pelems_text:
  assumes "vs \<noteq> []" and "\<And>v. v \<in> set vs \<Longrightarrow> parses v"
    and "2 * length (join_with '','' (map json_text vs)) + 2 < n"
  shows "pelems n (join_with '','' (map json_text vs) @ CHR '']'' # r) = Some (vs, r)"
  using assms
proof (induction vs arbitrary: n)
  case (Cons v vs)
  then obtain m where m: "n = Suc m" by (cases n) auto
  show ?case
  proof (cases "vs = []")
    case True
    then have "pv m (json_text v @ CHR '']'' # r) = Some (v, CHR '']'' # r)"
      using Cons.prems m by (intro parsesD) auto
    then show ?thesis using True m by (simp add: expect_other)
  next
    case False
    let ?rest = "join_with '','' (map json_text vs)"
    have whole: "join_with '','' (map json_text (v # vs)) = json_text v @ '','' @ ?rest"
      using False by (cases vs) auto
    then have "pv m (json_text v @ CHR '','' # ?rest @ CHR '']'' # r)
        = Some (v, CHR '','' # ?rest @ CHR '']'' # r)"
      using Cons.prems m by (intro parsesD) auto
    moreover have "pelems m (?rest @ CHR '']'' # r) = Some (vs, r)"
      using Cons.prems m whole False by (intro Cons.IH) auto
    ultimately show ?thesis using m whole by simp
  qed
qed simp

definition member_text :: "string \<times> jsval \<Rightarrow> string" where
  "member_text = (\<lambda>(k, v). json_quote k @ '':'' @ json_text v)"

lemma pmembers_text:
  assumes "kvs \<noteq> []" and "\<And>k v. (k, v) \<in> set kvs \<Longrightarrow> parses v"
    and "distinct (map fst (acc @ kvs))"
    and "2 * length (join_with '','' (map member_text kvs)) + 2 < n"
  shows "pmembers n acc (join_with '','' (map member_text kvs) @ CHR ''}'' # r) = Some (acc @ kvs, r)"
  using assms
proof (induction kvs arbitrary: n acc)
  case (Cons kv kvs)
  obtain m where m: "n = Suc m" using Cons.prems by (cases n) auto
  obtain k v where kv: "kv = (k, v)" by (cases kv)
  have upd: "AList.update k v acc = acc @ [kv]"
    using Cons.prems(3) kv by (auto intro!: update_append)
  have parse_v: "pv m (json_text v @ u) = Some (v, u)" if "num_end u" for u
    using Cons.prems(2) [of k v] Cons.prems(4) m kv that
    by (cases kvs) (auto intro!: parsesD simp: member_text_def)
  show ?case
  proof (cases "kvs = []")
    case True
    then show ?thesis
      using m kv upd parse_v [of "CHR ''}'' # r"]
      by (simp add: member_text_def json_quote_def pstr_quote expect_other)
  next
    case False
    let ?rest = "join_with '','' (map member_text kvs)"
    have whole: "join_with '','' (map member_text (kv # kvs)) = member_text kv @ '','' @ ?rest"
      using False by (cases kvs) auto
    have "pmembers m (acc @ [kv]) (?rest @ CHR ''}'' # r) = Some ((acc @ [kv]) @ kvs, r)"
      using Cons.prems m whole False by (intro Cons.IH) auto
    then show ?thesis
      unfolding whole
      using m kv upd parse_v [of "CHR '','' # ?rest @ CHR ''}'' # r"]
      by (simp add: member_text_def json_quote_def pstr_quote)
  qed
qed simp

lemma parses_Arr:
  assumes "\<And>v. v \<in> set vs \<Longrightarrow> parses v" and "\<forall>v \<in> set vs. jsonable v"
  shows "parses (Arr vs)"
  unfolding parses_def
proof (intro allI impI)
  fix n r
  assume fuel: "2 * length (json_text (Arr vs)) + 1 < n"
  then obtain m where m: "n = Suc m" by (cases n) auto
  show "pv n (json_text (Arr vs) @ r) = Some (Arr vs, r)"
  proof (cases "vs = []")
    case True
    then show ?thesis using m by (simp add: skip_ws_hd)
  next
    case False
    then obtain v vs' where vs: "vs = v # vs'" by (cases vs) auto
    let ?t = "join_with '','' (map json_text vs)"
    obtain c t where ct: "json_text v = c # t" "\<not> is_json_ws c" "c \<noteq> CHR '']''"
      using json_text_hd assms(2) vs by (metis list.set_intros(1))
    then obtain t' where "?t = c # t'" using vs by (cases vs') auto
    then have "expect (CHR '']'') (?t @ CHR '']'' # r) = None"
      using ct by (simp add: expect_other)
    moreover have "pelems m (?t @ CHR '']'' # r) = Some (vs, r)"
      using assms(1) False fuel m by (intro pelems_text) auto
    ultimately show ?thesis using m by (simp add: skip_ws_hd)
  qed
qed

lemma jsonable_not_undef: "jsonable v \<Longrightarrow> \<not> is_undef v"
  by (cases v) (auto simp: is_undef_def)

lemma json_text_Obj:
  assumes "\<forall>(k, v) \<in> set kvs. jsonable v"
  shows "json_text (Obj kvs) = ''{'' @ join_with '','' (map member_text kvs) @ ''}''"
proof -
  have "filter (\<lambda>(k, v). \<not> is_undef v) kvs = kvs"
    using assms jsonable_not_undef by (auto simp: filter_id_conv)
  then show ?thesis by (simp add: member_text_def)
qed

lemma parses_Obj:
  assumes "\<And>k v. (k, v) \<in> set kvs \<Longrightarrow> parses v"
    and "\<forall>(k, v) \<in> set kvs. jsonable v" and "distinct (map fst kvs)"
  shows "parses (Obj kvs)"
  unfolding parses_def
proof (intro allI impI)
  fix n r
  assume fuel: "2 * length (json_text (Obj kvs)) + 1 < n"
  then obtain m where m: "n = Suc m" by (cases n) auto
  let ?t = "join_with '','' (map member_text kvs)"
  show "pv n (json_text (Obj kvs) @ r) = Some (Obj kvs, r)"
  proof (cases "kvs = []")
    case True
    then show ?thesis using m by (simp add: skip_ws_hd)
  next
    case False
    then obtain t' where "?t = CHR 34 # t'"
      by (cases kvs; cases "tl kvs") (auto simp: member_text_def json_quote_def)
    then have "expect (CHR ''}'') (?t @ CHR ''}'' # r) = None"
      by (simp add: expect_other)
    moreover have "pmembers m [] (?t @ CHR ''}'' # r) = Some ([] @ kvs, r)"
      using assms False fuel [unfolded json_text_Obj [OF assms(2)]] m
      by (intro pmembers_text) auto
    ultimately show ?thesis using m assms(2)
      unfolding json_text_Obj [OF assms(2)] by (simp add: skip_ws_hd)
  qed
qed

lemma jsonable_parses: "jsonable v \<Longrightarrow> parses v"
proof (induction v)
  case (Num x)
  then obtain i where i: "x = of_int i" by auto
  show ?case
    unfolding parses_def
  proof (intro allI impI)
    fix n r
    assume r: "num_end r" and "2 * length (json_text (Num x)) + 1 < n"
    then obtain m where m: "n = Suc m" by (cases n) auto
    obtain c t where ct: "json_text (Num x) = c # t" "\<not> is_json_ws c"
      using json_text_hd Num by metis
    have "c = CHR ''-'' \<or> is_digit c"
      using ct(1) i show_nat_digits [of c "nat \<bar>i\<bar>"]
      by (auto simp: number_to_string_int split: if_splits)
    then have "c \<notin> {CHR 34, CHR ''['', CHR ''{'', CHR ''t'', CHR ''f'', CHR ''n''}"
      using digit_not_special [of c] by auto
    then show "pv n (json_text (Num x) @ r) = Some (Num x, r)"
      using ct pnum_show [OF r, of i] i m by (simp add: skip_ws_hd)
  qed
next
  case (Arr vs)
  then show ?case by (intro parses_Arr) auto
next
  case (Obj kvs)
  then show ?case by (intro parses_Obj) fastforce+
next
  case (Str s)
  show ?case by (rule parsesI) (simp add: json_quote_def skip_ws_hd pstr_quote)
next
  case (Bool b)
  show ?case
    by (rule parsesI, cases b) (simp_all add: skip_ws_def is_json_ws_def pword_def)
next
  case Null
  show ?case
    by (rule parsesI) (simp add: skip_ws_def is_json_ws_def pword_def)
qed auto

lemma JSON_roundtrip: "jsonable v \<Longrightarrow> JSON_parse (json_text v) = Some v"
  using parsesD [OF jsonable_parses, of v "[]" "2 * length (json_text v) + 2"]
  by (simp add: JSON_parse_def skip_ws_def)

corollary JSON_stringify_roundtrip:
  "jsonable v \<Longrightarrow> Option.bind (JSON_stringify v) JSON_parse = Some v"
  by (simp add: JSON_stringify_def jsonable_not_undef JSON_roundtrip)

end
