(* ===== verification/Codec.thy ===== *)
theory Codec
  imports Json
begin

text \<open>
  The interface of an encoding with a decoder, and its two instances: JSON text and Base64
  (\<open>btoa\<close>, with \<open>atob\<close> as the receiver's inverse).  Both are relied on by the API client (request
  bodies, the \<open>Authorization\<close> header) and by the stored connection.
\<close>

section \<open>Base64\<close>

definition b64_alphabet :: string where
  "b64_alphabet = ''ABCDEFGHIJKLMNOPQRSTUVWXYZabcdefghijklmnopqrstuvwxyz0123456789+/''"

definition b64_char :: "nat \<Rightarrow> char" where
  "b64_char i = b64_alphabet ! i"

fun b64_encode :: "nat list \<Rightarrow> string" where
  "b64_encode [] = []"
| "b64_encode [a] = [b64_char (a div 4), b64_char (a mod 4 * 16), CHR ''='', CHR ''='']"
| "b64_encode [a, b] =
     [b64_char (a div 4), b64_char (a mod 4 * 16 + b div 16), b64_char (b mod 16 * 4), CHR ''='']"
| "b64_encode (a # b # c # r) =
     [b64_char (a div 4), b64_char (a mod 4 * 16 + b div 16),
      b64_char (b mod 16 * 4 + c div 64), b64_char (c mod 64)] @ b64_encode r"

text \<open>\<open>btoa(s)\<close>: every code unit of the model is below 256, so the call does not throw.\<close>
definition btoa :: "string \<Rightarrow> string" where
  "btoa s = b64_encode (map of_char s)"

definition b64_val :: "char \<Rightarrow> nat option" where
  "b64_val c = index_of c b64_alphabet"

fun b64_decode :: "string \<Rightarrow> nat list option" where
  "b64_decode [] = Some []"
| "b64_decode (p # q # r # s # t) = do {
     w \<leftarrow> b64_val p; x \<leftarrow> b64_val q;
     (if r = CHR ''='' then (if s = CHR ''='' \<and> t = [] then Some [w * 4 + x div 16] else None)
      else do {
        y \<leftarrow> b64_val r;
        (if s = CHR ''='' then
           (if t = [] then Some [w * 4 + x div 16, x mod 16 * 16 + y div 4] else None)
         else do {
           z \<leftarrow> b64_val s; u \<leftarrow> b64_decode t;
           Some ((w * 4 + x div 16) # (x mod 16 * 16 + y div 4) # (y mod 4 * 64 + z) # u) }) }) }"
| "b64_decode _ = None"

definition atob :: "string \<Rightarrow> string option" where
  "atob s = map_option (map char_of) (b64_decode s)"

section \<open>The interface of an encoding\<close>

locale codec =
  fixes enc :: "'a \<Rightarrow> 'b"
    and dec :: "'b \<Rightarrow> 'a option"
    and valid :: "'a \<Rightarrow> bool"
  assumes dec_enc: "valid x \<Longrightarrow> dec (enc x) = Some x"
begin

lemma enc_inject: "valid x \<Longrightarrow> valid y \<Longrightarrow> enc x = enc y \<longleftrightarrow> x = y"
  by (metis dec_enc option.inject)

text \<open>What a receiver reads after the sender stored a value is what the sender had, whatever the
  receiver would fall back to.\<close>
lemma read_back: "valid x \<Longrightarrow> (case dec (enc x) of Some y \<Rightarrow> f y | None \<Rightarrow> d) = f x"
  by (simp add: dec_enc)

end

section \<open>JSON and Base64 are encodings\<close>

lemma b64_alphabet_props: "length b64_alphabet = 64" "distinct b64_alphabet" "CHR ''='' \<notin> set b64_alphabet"
  by (simp_all add: b64_alphabet_def)

lemma index_of_nth: "distinct xs \<Longrightarrow> i < length xs \<Longrightarrow> index_of (xs ! i) xs = Some i"
proof (induction xs arbitrary: i)
  case (Cons x xs)
  then show ?case by (cases i) (auto simp: in_set_conv_nth)
qed simp

lemma b64_val_char [simp]: "i < 64 \<Longrightarrow> b64_val (b64_char i) = Some i"
  by (simp add: b64_val_def b64_char_def index_of_nth b64_alphabet_props)

lemma b64_char_not_pad [simp]: "i < 64 \<Longrightarrow> b64_char i \<noteq> CHR ''=''"
  by (metis b64_alphabet_props(1,3) b64_char_def nth_mem)

lemma b64_split:
  fixes a b c :: nat
  assumes "a < 256" "b < 256" "c < 256"
  shows "a div 4 < 64" "a mod 4 * 16 + b div 16 < 64" "b mod 16 * 4 + c div 64 < 64"
    "a div 4 * 4 + (a mod 4 * 16 + b div 16) div 16 = a"
    "(a mod 4 * 16 + b div 16) mod 16 * 16 + (b mod 16 * 4 + c div 64) div 4 = b"
    "(b mod 16 * 4 + c div 64) mod 4 * 64 + c mod 64 = c"
proof -
  have d: "b div 16 < 16" "c div 64 < 4" "a mod 4 < 4" "b mod 16 < 16" using assms by simp_all
  then have eqs: "(a mod 4 * 16 + b div 16) div 16 = a mod 4"
    "(a mod 4 * 16 + b div 16) mod 16 = b div 16"
    "(b mod 16 * 4 + c div 64) div 4 = b mod 16" "(b mod 16 * 4 + c div 64) mod 4 = c div 64"
    by simp_all
  show "a div 4 < 64" using assms by simp
  show "a mod 4 * 16 + b div 16 < 64" "b mod 16 * 4 + c div 64 < 64" using d by linarith+
  show "a div 4 * 4 + (a mod 4 * 16 + b div 16) div 16 = a"
    "(a mod 4 * 16 + b div 16) mod 16 * 16 + (b mod 16 * 4 + c div 64) div 4 = b"
    "(b mod 16 * 4 + c div 64) mod 4 * 64 + c mod 64 = c"
    unfolding eqs by (rule div_mult_mod_eq)+
qed

lemma b64_decode_encode: "\<forall>x \<in> set xs. x < 256 \<Longrightarrow> b64_decode (b64_encode xs) = Some xs"
proof (induction xs rule: b64_encode.induct)
  case (2 a)
  then show ?case using b64_split [of a 0 0] by (simp del: div_mult_self3)
next
  case (3 a b)
  then show ?case using b64_split [of a b 0] by (simp del: div_mult_self3 mod_mult_self3)
next
  case (4 a b c r)
  show ?case
    using 4 b64_split [of a b c]
    by (simp del: div_mult_self3 mod_mult_self3 div_mult_self4 mod_mult_self4 div_mult_self1
        mod_mult_self1 div_mult_self2 mod_mult_self2)
qed simp

lemma atob_btoa [simp]: "atob (btoa s) = Some s"
proof -
  have "b64_decode (btoa s) = Some (map of_char s)"
    unfolding btoa_def by (rule b64_decode_encode) auto
  then show ?thesis by (simp add: atob_def map_idI comp_def)
qed

interpretation json: codec json_text JSON_parse jsonable
  by unfold_locales (rule JSON_roundtrip)

interpretation b64: codec btoa atob "\<lambda>s. True"
  by unfold_locales simp

end
