(* ===== verification/Api.thy ===== *)
theory Api
  imports Codec
begin

text \<open>
  The API client, \<open>webstatic/ui/js/api.js\<close> (compiled from \<open>src/api.ts\<close>), without the event
  streams (theory \<open>Sse_Stream\<close>).

  The network is a parameter: \<open>fetch\<close> maps a request to a failure or to a status with the
  outcome of \<open>res.text()\<close>.  An \<open>async\<close> function is the function from that parameter to its
  settled promise: \<open>Inr\<close> the value, \<open>Inl\<close> the exception it rejects with.
\<close>

section \<open>Requests and replies\<close>

record connection =
  baseUrl :: string
  username :: jsval
  password :: jsval

record request =
  req_url :: string
  req_method :: string
  req_headers :: "(string \<times> string) list"
  req_body :: "string option"

datatype fetch_result =
    NetFail js_error
  | Reply nat "string jsr"

type_synonym fetch = "request \<Rightarrow> fetch_result"

record page =
  items :: jsval
  "next" :: jsval

definition res_ok :: "nat \<Rightarrow> bool" where
  "res_ok status \<longleftrightarrow> 200 \<le> status \<and> status \<le> 299"

definition authHeader :: "connection \<Rightarrow> (string \<times> string) list" where
  "authHeader c =
     (if \<not> truthy (username c) \<and> \<not> truthy (password c) then []
      else [(''Authorization'', ''Basic '' @ btoa (to_str (username c) @ '':'' @ to_str (password c)))])"

definition url :: "connection \<Rightarrow> string \<Rightarrow> string" where
  "url c path = (let base = strip_trailing (CHR ''/'') (baseUrl c) in base @ ''/api/v1'' @ path)"

definition json_request :: "connection \<Rightarrow> string \<Rightarrow> string \<Rightarrow> jsval \<Rightarrow> request" where
  "json_request c path method body =
     \<lparr>req_url = url c path, req_method = method,
      req_headers = (''Content-Type'', ''application/json'') # authHeader c,
      req_body = (if body \<noteq> Undef then JSON_stringify body else None)\<rparr>"

definition parse_reply :: "nat \<Rightarrow> string \<Rightarrow> jsval jsr" where
  "parse_reply status text =
     (if text = [] then Inr (Obj [])
      else case JSON_parse text of
        Some v \<Rightarrow> Inr v
      | None \<Rightarrow> Inl (mk_Error (''Invalid JSON (HTTP '' @ show_nat status @ ''): '' @ take 200 text)))"

definition reply_failed :: "nat \<Rightarrow> jsval \<Rightarrow> bool" where
  "reply_failed status json \<longleftrightarrow>
     \<not> res_ok status \<or> (truthy json \<and> strict_eq (get_opt json ''code'') (Str ''error''))"

definition failure_text :: "nat \<Rightarrow> jsval \<Rightarrow> string" where
  "failure_text status json =
     (let m = get_opt json ''message'' in if truthy m then to_str m else ''HTTP '' @ show_nat status)"

definition jsonRequest :: "fetch \<Rightarrow> connection \<Rightarrow> string \<Rightarrow> string \<Rightarrow> jsval \<Rightarrow> jsval jsr" where
  "jsonRequest fetch c path method body =
     (case fetch (json_request c path method body) of
       NetFail e \<Rightarrow> Inl e
     | Reply status body_text \<Rightarrow>
         bindr body_text (\<lambda>text.
         bindr (parse_reply status text) (\<lambda>json.
           if reply_failed status json then Inl (mk_Error (failure_text status json)) else Inr json)))"

section \<open>Endpoints\<close>

text \<open>\<open>if (!r.result) throw new Error('Server returned no result'); return r.result;\<close>\<close>
definition require_result :: "jsval \<Rightarrow> jsval jsr" where
  "require_result r =
     bindr (get r ''result'') (\<lambda>v.
       if truthy v then Inr v else Inl (mk_Error ''Server returned no result''))"

text \<open>\<open>return { items: r.result ?? [], next: r.next ?? '' };\<close>\<close>
definition page_of :: "jsval \<Rightarrow> page jsr" where
  "page_of r =
     bindr (get r ''result'') (\<lambda>v. bindr (get r ''next'') (\<lambda>n.
       Inr \<lparr>items = coalesce v (Arr []), next = coalesce n (Str [])\<rparr>))"

text \<open>\<open>const body = { ... }; if (x) body.k = x;\<close>\<close>
definition add_if :: "string \<Rightarrow> jsval \<Rightarrow> (string \<times> jsval) list \<Rightarrow> (string \<times> jsval) list" where
  "add_if k x kvs = (if truthy x then kvs @ [(k, x)] else kvs)"

definition listBackups :: "fetch \<Rightarrow> connection \<Rightarrow> jsval jsr" where
  "listBackups fetch c =
     bindr (jsonRequest fetch c ''/backup/list'' ''GET'' Undef) (\<lambda>r.
     bindr (get r ''result'') (\<lambda>v. Inr (coalesce v (Arr []))))"

definition startBackup :: "fetch \<Rightarrow> connection \<Rightarrow> jsval \<Rightarrow> jsval jsr" where
  "startBackup fetch c name =
     bindr (jsonRequest fetch c ''/backup/start'' ''POST'' (Obj [(''name'', name)])) require_result"

definition stopBackup :: "fetch \<Rightarrow> connection \<Rightarrow> jsval \<Rightarrow> jsval \<Rightarrow> unit jsr" where
  "stopBackup fetch c name jobId =
     bindr (jsonRequest fetch c ''/backup/stop'' ''POST'' (Obj (add_if ''job_id'' jobId [(''name'', name)])))
       (\<lambda>_. Inr ())"

definition listReports :: "fetch \<Rightarrow> connection \<Rightarrow> jsval \<Rightarrow> jsval \<Rightarrow> page jsr" where
  "listReports fetch c name nxt =
     bindr (jsonRequest fetch c ''/report/backup/list'' ''POST'' (Obj (add_if ''next'' nxt [(''name'', name)])))
       page_of"

definition showReport :: "fetch \<Rightarrow> connection \<Rightarrow> jsval \<Rightarrow> jsval \<Rightarrow> jsval jsr" where
  "showReport fetch c name jobId =
     bindr (jsonRequest fetch c ''/report/backup/show'' ''POST'' (Obj [(''name'', name), (''job_id'', jobId)]))
       require_result"

definition getVersion :: "fetch \<Rightarrow> connection \<Rightarrow> jsval jsr" where
  "getVersion fetch c =
     bindr (jsonRequest fetch c ''/report/version'' ''GET'' Undef) (\<lambda>r.
     bindr (get r ''result'') (\<lambda>v. Inr (coalesce v Null)))"

definition listRestores :: "fetch \<Rightarrow> connection \<Rightarrow> jsval jsr" where
  "listRestores fetch c =
     bindr (jsonRequest fetch c ''/restore/list'' ''GET'' Undef) (\<lambda>r.
     bindr (get r ''result'') (\<lambda>v. Inr (coalesce v (Arr []))))"

definition startRestore :: "fetch \<Rightarrow> connection \<Rightarrow> jsval \<Rightarrow> jsval jsr" where
  "startRestore fetch c input =
     bindr (jsonRequest fetch c ''/restore/start'' ''POST'' input) require_result"

definition stopRestore :: "fetch \<Rightarrow> connection \<Rightarrow> jsval \<Rightarrow> jsval \<Rightarrow> unit jsr" where
  "stopRestore fetch c name restoreJobId =
     bindr (jsonRequest fetch c ''/restore/stop'' ''POST''
         (Obj (add_if ''restore_job_id'' restoreJobId [(''name'', name)])))
       (\<lambda>_. Inr ())"

definition resumeRestore :: "fetch \<Rightarrow> connection \<Rightarrow> jsval \<Rightarrow> jsval \<Rightarrow> jsval \<Rightarrow> jsval jsr" where
  "resumeRestore fetch c name targetName restoreJobId =
     bindr (jsonRequest fetch c ''/restore/resume'' ''POST''
         (Obj [(''name'', name), (''target_name'', targetName), (''restore_job_id'', restoreJobId)]))
       require_result"

definition listRestoreReports :: "fetch \<Rightarrow> connection \<Rightarrow> jsval \<Rightarrow> jsval \<Rightarrow> page jsr" where
  "listRestoreReports fetch c name nxt =
     bindr (jsonRequest fetch c ''/report/restore/list'' ''POST'' (Obj (add_if ''next'' nxt [(''name'', name)])))
       page_of"

definition showRestoreReport :: "fetch \<Rightarrow> connection \<Rightarrow> jsval \<Rightarrow> jsval \<Rightarrow> jsval jsr" where
  "showRestoreReport fetch c name jobId =
     bindr (jsonRequest fetch c ''/report/restore/show'' ''POST'' (Obj [(''name'', name), (''job_id'', jobId)]))
       require_result"

definition listBackupFiles ::
  "fetch \<Rightarrow> connection \<Rightarrow> jsval \<Rightarrow> jsval \<Rightarrow> jsval \<Rightarrow> bool \<Rightarrow> jsval \<Rightarrow> page jsr" where
  "listBackupFiles fetch c name jobId path descend nxt =
     bindr (jsonRequest fetch c ''/report/backup/file/list'' ''POST''
         (Obj (add_if ''next'' nxt
            [(''name'', name), (''job_id'', jobId), (''path'', path), (''descend'', Bool descend)])))
       page_of"

definition getConfig :: "fetch \<Rightarrow> connection \<Rightarrow> jsval jsr" where
  "getConfig fetch c =
     bindr (jsonRequest fetch c ''/config'' ''GET'' Undef) (\<lambda>r.
     bindr (get r ''result'') (\<lambda>v. Inr (coalesce v Null)))"

section \<open>The stored connection\<close>

text \<open>\<open>js/app.js\<close>.  \<open>localStorage\<close> is a map from keys to strings; \<open>None\<close> for a store whose access
  throws (storage disabled).  \<open>location\<close> is the pair of its protocol and host.\<close>

definition STORAGE_KEY :: string where
  "STORAGE_KEY = ''cloudbackup.connection''"

definition defaultConnection :: "string \<Rightarrow> string \<Rightarrow> connection" where
  "defaultConnection protocol host =
     (let base = (if protocol = ''file:'' then ''http://127.0.0.1:8080'' else protocol @ ''//'' @ host)
      in \<lparr>baseUrl = base, username = Str [], password = Str []\<rparr>)"

text \<open>The stored object, read as a connection: a truthy value whose \<open>baseUrl\<close> is a string.\<close>
definition as_connection :: "jsval \<Rightarrow> connection option" where
  "as_connection parsed =
     (if truthy parsed then
        (case get_opt parsed ''baseUrl'' of
          Str b \<Rightarrow> Some \<lparr>baseUrl = b, username = get_opt parsed ''username'',
                         password = get_opt parsed ''password''\<rparr>
        | _ \<Rightarrow> None)
      else None)"

type_synonym storage = "(string \<rightharpoonup> string) option"

definition loadConnection :: "storage \<Rightarrow> string \<Rightarrow> string \<Rightarrow> connection" where
  "loadConnection store protocol host =
     (case store of
       None \<Rightarrow> defaultConnection protocol host
     | Some m \<Rightarrow>
         (case m STORAGE_KEY of
           None \<Rightarrow> defaultConnection protocol host
         | Some raw \<Rightarrow>
             if raw = [] then defaultConnection protocol host
             else (case JSON_parse raw of
                 None \<Rightarrow> defaultConnection protocol host
               | Some parsed \<Rightarrow>
                   (case as_connection parsed of
                     Some c \<Rightarrow> c
                   | None \<Rightarrow> defaultConnection protocol host))))"

definition connection_object :: "connection \<Rightarrow> jsval" where
  "connection_object c = Obj [(''baseUrl'', Str (baseUrl c)), (''username'', username c), (''password'', password c)]"

text \<open>\<open>setItem\<close> on a store that throws changes nothing, and the exception is dropped.\<close>
definition saveConnection :: "connection \<Rightarrow> storage \<Rightarrow> storage" where
  "saveConnection c store =
     map_option (\<lambda>m. m(STORAGE_KEY \<mapsto> json_text (connection_object c))) store"

text \<open>A connection the examples use.\<close>
definition sample_conn :: connection where
  "sample_conn = \<lparr>baseUrl = ''http://127.0.0.1:8080'', username = Str [], password = Str []\<rparr>"

section \<open>Lemmas\<close>

lemma res_ok_200 [simp]: "res_ok 200"
  by (simp add: res_ok_def)

lemma get_opt_Obj [simp]: "get_opt (Obj kvs) k = obj_get kvs k"
  by (simp add: get_opt_def)

lemma jsonRequest_only_request:
  "fetch (json_request c path m b) = fetch' (json_request c path m b) \<Longrightarrow>
   jsonRequest fetch c path m b = jsonRequest fetch' c path m b"
  by (simp add: jsonRequest_def)

lemma json_request_body:
  "jsonable body \<Longrightarrow> req_body (json_request c path m body) = Some (json_text body)"
  by (cases body) (auto simp: json_request_def JSON_stringify_def jsonable_not_undef is_undef_def)

lemma jsonRequest_Reply:
  "fetch (json_request c path m b) = Reply st (Inr text) \<Longrightarrow>
   jsonRequest fetch c path m b =
     bindr (parse_reply st text) (\<lambda>json.
       if reply_failed st json then Inl (mk_Error (failure_text st json)) else Inr json)"
  by (simp add: jsonRequest_def)

lemma parse_reply_Inr:
  "parse_reply st text = Inr json \<longleftrightarrow>
     text = [] \<and> json = Obj [] \<or> text \<noteq> [] \<and> JSON_parse text = Some json"
  by (auto simp: parse_reply_def split: option.splits)

lemma parse_reply_Inl:
  "parse_reply st text = Inl e \<longleftrightarrow> text \<noteq> [] \<and> JSON_parse text = None \<and>
     e = mk_Error (''Invalid JSON (HTTP '' @ show_nat st @ ''): '' @ take 200 text)"
  by (auto simp: parse_reply_def split: option.splits)

lemma add_if_jsonable:
  "jsonable (Obj kvs) \<Longrightarrow> jsonable x \<Longrightarrow> k \<notin> fst ` set kvs \<Longrightarrow> jsonable (Obj (add_if k x kvs))"
  by (auto simp: add_if_def)

lemma split_at_first:
  "c \<notin> set a \<Longrightarrow> c \<notin> set a' \<Longrightarrow> a @ c # b = a' @ c # b' \<longleftrightarrow> a = a' \<and> b = b'"
proof (induction a arbitrary: a')
  case Nil
  then show ?case by (cases a') auto
next
  case (Cons x a)
  then show ?case by (cases a') auto
qed

lemma load_saved:
  assumes "jsonable (username c)" "jsonable (password c)"
  shows "loadConnection (saveConnection c (Some m)) protocol host = c"
proof -
  have "jsonable (connection_object c)"
    using assms by (simp add: connection_object_def)
  then have "JSON_parse (json_text (connection_object c)) = Some (connection_object c)"
    by (rule json.dec_enc)
  moreover have "json_text (connection_object c) \<noteq> []"
    by (simp add: connection_object_def)
  moreover have "as_connection (connection_object c) = Some c"
    by (simp add: as_connection_def connection_object_def obj_get_def)
  ultimately show ?thesis
    by (simp add: loadConnection_def saveConnection_def)
qed

section \<open>Properties\<close>

text \<open>The \<open>Authorization\<close> header identifies the credentials: for user names without a colon, two
  connections send the same authentication headers exactly when user name and password agree
  (no header at all standing for two empty strings).\<close>
theorem authHeader_determines_credentials:
  assumes "username c = Str u" "password c = Str p" "username c' = Str u'" "password c' = Str p'"
    and "CHR '':'' \<notin> set u" "CHR '':'' \<notin> set u'"
  shows "authHeader c = authHeader c' \<longleftrightarrow> u = u' \<and> p = p'"
proof -
  have "btoa (u @ '':'' @ p) = btoa (u' @ '':'' @ p') \<longleftrightarrow> u @ '':'' @ p = u' @ '':'' @ p'"
    by (rule b64.enc_inject) simp_all
  also have "\<dots> \<longleftrightarrow> u = u' \<and> p = p'"
    using assms(5,6) by (simp add: split_at_first)
  finally show ?thesis
    using assms(1-4) by (auto simp: authHeader_def)
qed

theorem authHeader_determines_credentials_witness:
  "authHeader \<lparr>baseUrl = [], username = Str ''u'', password = Str ''p''\<rparr> \<noteq>
   authHeader \<lparr>baseUrl = [], username = Str ''u'', password = Str ''q''\<rparr>"
  using authHeader_determines_credentials
    [of "\<lparr>baseUrl = [], username = Str ''u'', password = Str ''p''\<rparr>" "''u''" "''p''"
        "\<lparr>baseUrl = [], username = Str ''u'', password = Str ''q''\<rparr>" "''u''" "''q''"]
  by simp

text \<open>Every endpoint address is the base address without its trailing slashes, the version prefix
  and the path: however many slashes the configured base address ends in, the request goes to
  the same address, and no doubled slash appears before \<open>api\<close>.\<close>
theorem url_normalises_base:
  "\<exists>base k. baseUrl c = base @ replicate k (CHR ''/'') \<and> (base = [] \<or> last base \<noteq> CHR ''/'') \<and>
     url c path = base @ ''/api/v1'' @ path \<and>
     (\<forall>n. url (c\<lparr>baseUrl := base @ replicate n (CHR ''/'')\<rparr>) path = url c path)"
proof -
  let ?base = "strip_trailing (CHR ''/'') (baseUrl c)"
  obtain k where "baseUrl c = ?base @ replicate k (CHR ''/'')"
    using strip_trailing_decomp [of "baseUrl c" "CHR ''/''"] by blast
  moreover have "?base = [] \<or> last ?base \<noteq> CHR ''/''" by (rule strip_trailing_last)
  ultimately show ?thesis
    by (intro exI [of _ ?base] exI [of _ k]) (simp add: url_def)
qed

text \<open>C15. A request succeeds exactly when the server answered with a 2xx status and an empty body or a
  body that parses, and the parsed value is not an object whose \<open>code\<close> is \<open>error\<close>; the result
  is then that value (the empty object for an empty body).\<close>
theorem jsonRequest_success_iff:
  "jsonRequest fetch c path method body = Inr json \<longleftrightarrow>
     (\<exists>status text. fetch (json_request c path method body) = Reply status (Inr text) \<and>
        200 \<le> status \<and> status \<le> 299 \<and>
        (text = [] \<and> json = Obj [] \<or> text \<noteq> [] \<and> JSON_parse text = Some json) \<and>
        get_opt json ''code'' \<noteq> Str ''error'')"
proof -
  have "truthy json \<or> get_opt json ''code'' = Undef"
    by (cases json) (auto simp: get_opt_def)
  then show ?thesis
    by (auto simp: jsonRequest_def reply_failed_def res_ok_def bindr_Inr_conv parse_reply_Inr
        split: fetch_result.splits if_splits)
qed



text \<open>What the resume request carries: it is one \<open>POST\<close> to \<open>/restore/resume\<close> whose body parses to
  the object with the backup name, the target name and the restore job id, and the outcome
  depends on nothing but the reply to that request.\<close>
theorem resumeRestore_request:
  "let body = Obj [(''name'', Str n), (''target_name'', Str t), (''restore_job_id'', Str j)];
       req = json_request c ''/restore/resume'' ''POST'' body
   in req_method req = ''POST'' \<and> req_url req = url c ''/restore/resume'' \<and>
      (\<exists>b. req_body req = Some b \<and> JSON_parse b = Some body) \<and>
      resumeRestore fetch c (Str n) (Str t) (Str j) =
        resumeRestore (\<lambda>_. fetch req) c (Str n) (Str t) (Str j)"
proof -
  let ?body = "Obj [(''name'', Str n), (''target_name'', Str t), (''restore_job_id'', Str j)]"
  let ?req = "json_request c ''/restore/resume'' ''POST'' ?body"
  have "jsonable ?body" by simp
  then have "req_body ?req = Some (json_text ?body)" "JSON_parse (json_text ?body) = Some ?body"
    by (rule json_request_body, rule json.dec_enc)
  then show ?thesis
    by (simp add: Let_def resumeRestore_def jsonRequest_def) (simp add: json_request_def)
qed

text \<open>Saving a connection and loading it again gives it back, whatever the page's own address is,
  and saving touches no other key of the store.\<close>
theorem load_save_connection:
  assumes "jsonable (username c)" "jsonable (password c)"
  shows "loadConnection (saveConnection c (Some m)) protocol host = c \<and>
    (\<forall>k. k \<noteq> STORAGE_KEY \<longrightarrow> the (saveConnection c (Some m)) k = m k)"
  using load_saved [OF assms] by (simp add: saveConnection_def)

theorem load_save_connection_witness:
  "loadConnection (saveConnection \<lparr>baseUrl = ''http://h'', username = Str ''u'', password = Str ''p''\<rparr> (Some Map.empty))
     ''https:'' ''host'' = \<lparr>baseUrl = ''http://h'', username = Str ''u'', password = Str ''p''\<rparr>"
  using load_save_connection
    [of "\<lparr>baseUrl = ''http://h'', username = Str ''u'', password = Str ''p''\<rparr>" Map.empty "''https:''" "''host''"]
  by simp

end
