(* ===== verification/Pager.thy ===== *)
theory Pager
  imports Component Api
begin

text \<open>
  The contract the two report dialogs of \<open>js/app.js\<close> share: a list that grows page by page.  A page
  request is started on mounting and by \<open>Load more\<close>, which is offered only while a continuation
  token is known and no page is being loaded; a reply appends its page, a failure keeps the list.

  The server is any function from continuation tokens to pages; every single request may also
  fail.  Inside the locale it is proved once that the list is always an initial part of the listing.
\<close>

text \<open>\<open>token ? prev.concat(r.items) : r.items\<close>.  \<open>concat\<close> spreads an array and appends anything else;
  strings have a \<open>concat\<close> of their own.\<close>
fun js_concat :: "jsval \<Rightarrow> jsval \<Rightarrow> jsval jsr" where
  "js_concat (Arr xs) (Arr ys) = Inr (Arr (xs @ ys))"
| "js_concat (Arr xs) v = Inr (Arr (xs @ [v]))"
| "js_concat (Str s) v = Inr (Str (s @ to_str v))"
| "js_concat _ _ = Inl type_error"

definition add_page :: "jsval \<Rightarrow> jsval \<Rightarrow> jsval \<Rightarrow> jsval jsr" where
  "add_page token prev new = (if truthy token then js_concat prev new else Inr new)"

type_synonym server_pages = "jsval \<Rightarrow> jsval list \<times> jsval"

definition page_from :: "server_pages \<Rightarrow> jsval \<Rightarrow> page" where
  "page_from srv t = \<lparr>items = Arr (fst (srv t)), next = snd (srv t)\<rparr>"

text \<open>The first \<open>n\<close> pages of the listing, and the token that continues it.\<close>
fun listing :: "server_pages \<Rightarrow> nat \<Rightarrow> jsval list \<times> jsval" where
  "listing srv 0 = ([], Undef)"
| "listing srv (Suc n) = (let (xs, t) = listing srv n in (xs @ fst (srv t), snd (srv t)))"

text \<open>A request to the server that may fail on the way.\<close>
definition flaky :: "fetch \<Rightarrow> js_error option \<Rightarrow> fetch" where
  "flaky server r = (case r of None \<Rightarrow> server | Some e \<Rightarrow> (\<lambda>_. NetFail e))"

lemma flaky_simps [simp]: "flaky server None = server" "flaky server (Some e) = (\<lambda>_. NetFail e)"
  by (simp_all add: flaky_def)

lemma jsonRequest_NetFail [simp]: "jsonRequest (\<lambda>_. NetFail e) c p m b = Inl e"
  by (simp add: jsonRequest_def)

definition page_requests :: "('c \<Rightarrow> jsval option) \<Rightarrow> 'c list \<Rightarrow> jsval list" where
  "page_requests req cs = concat (map (\<lambda>c. case req c of None \<Rightarrow> [] | Some t \<Rightarrow> [t]) cs)"

lemma page_requests_simps [simp]:
  "page_requests req [] = []"
  "page_requests req (c # cs) = (case req c of None \<Rightarrow> [] | Some t \<Rightarrow> [t]) @ page_requests req cs"
  "page_requests req (cs @ ds) = page_requests req cs @ page_requests req ds"
  by (simp_all add: page_requests_def)

locale pager =
  fixes init :: "'s \<times> 'c list"
    and enabled :: "'s \<Rightarrow> 'a \<Rightarrow> bool"
    and act :: "'s \<Rightarrow> 'a \<Rightarrow> 's \<times> 'c list"
    and answer :: "'s \<Rightarrow> 'c \<Rightarrow> 'r \<Rightarrow> 's \<times> 'c list"
    and req :: "'c \<Rightarrow> jsval option"
    and shown :: "'s \<Rightarrow> jsval"
    and more :: "'s \<Rightarrow> jsval"
    and loading :: "'s \<Rightarrow> bool"
    and srv :: server_pages
  assumes init: "shown (fst init) = Arr []" "more (fst init) = Str []" "loading (fst init)"
      "page_requests req (snd init) = [Undef]"
    and act: "enabled s a \<Longrightarrow>
      shown (fst (act s a)) = shown s \<and> more (fst (act s a)) = more s \<and>
      (loading (fst (act s a)) = loading s \<and> page_requests req (snd (act s a)) = [] \<or>
       \<not> loading s \<and> truthy (more s) \<and> loading (fst (act s a)) \<and>
       page_requests req (snd (act s a)) = [more s])"
    and other_answer: "req c = None \<Longrightarrow>
      shown (fst (answer s c r)) = shown s \<and> more (fst (answer s c r)) = more s \<and>
      loading (fst (answer s c r)) = loading s \<and> page_requests req (snd (answer s c r)) = []"
    and page_answer: "req c = Some t \<Longrightarrow>
      \<not> loading (fst (answer s c r)) \<and> page_requests req (snd (answer s c r)) = [] \<and>
      (shown (fst (answer s c r)) = shown s \<and> more (fst (answer s c r)) = more s \<or>
       add_page t (shown s) (Arr (fst (srv t))) = Inr (shown (fst (answer s c r))) \<and>
       more (fst (answer s c r)) = snd (srv t))"
begin

text \<open>The list is the first \<open>n\<close> pages; the known token and the one request in flight, if any, continue it.\<close>
definition paged :: "'s \<Rightarrow> 'c list \<Rightarrow> bool" where
  "paged s cs \<longleftrightarrow> (\<exists>n.
     shown s = Arr (fst (listing srv n)) \<and>
     more s = (if n = 0 then Str [] else snd (listing srv n)) \<and>
     page_requests req cs = (if loading s then [snd (listing srv n)] else []) \<and>
     (loading s \<longrightarrow> n = 0 \<or> truthy (snd (listing srv n))))"

lemma act_paged:
  assumes "paged s cs" "enabled s a"
  shows "paged (fst (act s a)) (cs @ snd (act s a))"
proof -
  obtain n where n: "shown s = Arr (fst (listing srv n))"
      "more s = (if n = 0 then Str [] else snd (listing srv n))"
      "page_requests req cs = (if loading s then [snd (listing srv n)] else [])"
      "loading s \<longrightarrow> n = 0 \<or> truthy (snd (listing srv n))"
    using assms(1) unfolding paged_def by blast
  show ?thesis
  proof (cases "n = 0")
    case True
    then show ?thesis
      unfolding paged_def using n act [OF assms(2)] by (intro exI [of _ n]) simp
  next
    case False
    then show ?thesis
      unfolding paged_def using n act [OF assms(2)]
      by (intro exI [of _ n]) (elim conjE disjE; simp)
  qed
qed

lemma answer_paged:
  assumes "paged s (cs1 @ c # cs2)"
  shows "paged (fst (answer s c r)) (cs1 @ cs2 @ snd (answer s c r))"
proof -
  obtain n where n: "shown s = Arr (fst (listing srv n))"
      "more s = (if n = 0 then Str [] else snd (listing srv n))"
      "page_requests req (cs1 @ c # cs2) = (if loading s then [snd (listing srv n)] else [])"
      "loading s \<longrightarrow> n = 0 \<or> truthy (snd (listing srv n))"
    using assms(1) unfolding paged_def by blast
  show ?thesis
  proof (cases "req c")
    case None
    then show ?thesis
      unfolding paged_def using n other_answer [OF None, of s r] by (intro exI [of _ n]) simp
  next
    case (Some t)
    then have ld: "loading s" "t = snd (listing srv n)"
        "page_requests req cs1 = []" "page_requests req cs2 = []"
      using n(3) by (auto split: if_splits simp: append_eq_Cons_conv)
    have "shown (fst (answer s c r)) = shown s \<and> more (fst (answer s c r)) = more s \<or>
       add_page t (shown s) (Arr (fst (srv t))) = Inr (shown (fst (answer s c r))) \<and>
       more (fst (answer s c r)) = snd (srv t)"
      using page_answer [OF Some, of s r] by simp
    then show ?thesis
    proof
      assume "shown (fst (answer s c r)) = shown s \<and> more (fst (answer s c r)) = more s"
      then show ?thesis
        unfolding paged_def using n ld page_answer [OF Some, of s r] by (intro exI [of _ n]) simp
    next
      assume new: "add_page t (shown s) (Arr (fst (srv t))) = Inr (shown (fst (answer s c r))) \<and>
        more (fst (answer s c r)) = snd (srv t)"
      then have "shown (fst (answer s c r)) = Arr (fst (listing srv (Suc n)))"
        using n(1,4) ld(1,2) by (cases "n = 0") (auto simp: add_page_def case_prod_unfold Let_def)
      then show ?thesis
        unfolding paged_def using new ld page_answer [OF Some, of s r]
        by (intro exI [of _ "Suc n"]) (simp add: case_prod_unfold Let_def)
    qed
  qed
qed

end

sublocale pager \<subseteq> component_invariant init enabled act answer paged
proof unfold_locales
  show "paged (fst init) (snd init)"
    unfolding paged_def using init by (intro exI [of _ 0]) simp
qed (rule act_paged answer_paged; assumption)+

context pager
begin

lemma shown_is_listing:
  "component_run init enabled act answer (s, cs) \<Longrightarrow>
     \<exists>n. shown s = Arr (fst (listing srv n)) \<and> more s = (if n = 0 then Str [] else snd (listing srv n))"
  using run_ok [of "(s, cs)"] unfolding paged_def fst_conv snd_conv by blast

lemma one_page_in_flight:
  "component_run init enabled act answer (s, cs) \<Longrightarrow> length (page_requests req cs) = (if loading s then 1 else 0)"
  by (drule run_ok) (auto simp: paged_def simp del: listing.simps)

end

end
