(* ===== verification/Format.thy ===== *)
theory Format
  imports Js_Value
begin

text \<open>
  The display helpers of \<open>js/app.js\<close>: byte counts, times, durations, and the two predicates on job
  states.  \<open>Date\<close> is a parameter: \<open>date_ms\<close> is \<open>new Date(s).getTime()\<close> with \<open>None\<close> for \<open>NaN\<close>,
  \<open>date_text\<close> is \<open>toLocaleString()\<close>; both depend on the engine, its locale and its time zone.
\<close>

record dates =
  date_ms :: "string \<Rightarrow> int option"
  date_text :: "int \<Rightarrow> string"

section \<open>Byte counts\<close>

definition units :: "string list" where
  "units = [''B'', ''KB'', ''MB'', ''GB'', ''TB'']"

text \<open>The loop \<open>while (v >= 1024 && u < units.length - 1) { v /= 1024; u++; }\<close>\<close>
function scale_loop :: "rat \<Rightarrow> nat \<Rightarrow> rat \<times> nat" where
  "scale_loop v u = (if 1024 \<le> v \<and> u < length units - 1 then scale_loop (v / 1024) (u + 1) else (v, u))"
  by pat_completeness auto
termination
  by (relation "measure (\<lambda>(v, u). length units - u)") auto

declare scale_loop.simps [simp del]

text \<open>The parameter is declared as an optional number.  An object is \<open>NaN\<close> to \<open>isNaN\<close>; a truth value is
  a number to \<open>isNaN\<close> but has no \<open>toFixed\<close>; numeric strings and arrays are not converted here.\<close>
fun fmtBytes :: "jsval \<Rightarrow> jsval jsr" where
  "fmtBytes (Num n) =
     (case scale_loop n 0 of (v, u) \<Rightarrow>
        Inr (Str ((if u = 0 then toFixed 0 v else toFixed 1 v) @ '' '' @ units ! u)))"
| "fmtBytes Undef = Inr (Str ''-'')"
| "fmtBytes Null = Inr (Str ''-'')"
| "fmtBytes NaN = Inr (Str ''-'')"
| "fmtBytes (Obj _) = Inr (Str ''-'')"
| "fmtBytes (Fn _) = Inr (Str ''-'')"
| "fmtBytes _ = Inl type_error"

section \<open>Times and durations\<close>

definition zero_date :: string where
  "zero_date = ''0001-01-01''"

text \<open>\<open>s.startsWith('0001-01-01')\<close> on a truthy value: only strings have the method.\<close>
fun starts_zero_date :: "jsval \<Rightarrow> bool jsr" where
  "starts_zero_date (Str s) = Inr (startsWith s zero_date)"
| "starts_zero_date _ = Inl type_error"

definition fmtTime :: "dates \<Rightarrow> jsval \<Rightarrow> jsval jsr" where
  "fmtTime D s =
     (if \<not> truthy s then Inr (Str ''-'')
      else bindr (starts_zero_date s) (\<lambda>z.
        if z then Inr (Str ''-'')
        else case date_ms D (to_str s) of
            None \<Rightarrow> Inr s
          | Some ms \<Rightarrow> Inr (Str (date_text D ms))))"

definition duration_text :: "int \<Rightarrow> string" where
  "duration_text s0 =
     (let h = s0 div 3600; s1 = s0 - h * 3600; m = s1 div 60; s2 = s1 - m * 60 in
      if h \<noteq> 0 then show_int h @ ''h'' @ show_int m @ ''m'' @ show_int s2 @ ''s''
      else if m \<noteq> 0 then show_int m @ ''m'' @ show_int s2 @ ''s''
      else show_int s2 @ ''s'')"

definition fmtDuration :: "dates \<Rightarrow> jsval \<Rightarrow> jsval \<Rightarrow> jsval jsr" where
  "fmtDuration D start end =
     (if \<not> truthy start then Inr (Str ''-'')
      else bindr (starts_zero_date start) (\<lambda>z.
        if z then Inr (Str ''-'')
        else bindr (if truthy end then mapr Not (starts_zero_date end) else Inr False) (\<lambda>has_end.
          let startMs = date_ms D (to_str start);
              endMs = (if has_end then date_ms D (to_str end) else None) in
          case (startMs, endMs) of
            (Some a, Some b) \<Rightarrow> Inr (Str (duration_text (max 0 ((b - a) div 1000))))
          | _ \<Rightarrow> Inr (Str ''-''))))"

section \<open>Job states\<close>

definition isRunning :: "jsval \<Rightarrow> bool" where
  "isRunning state \<longleftrightarrow>
     strict_eq state (Str ''running'') \<or> strict_eq state (Str ''started'') \<or> strict_eq state (Str ''stopping'')"

definition isResumable :: "jsval \<Rightarrow> bool" where
  "isResumable state \<longleftrightarrow>
     strict_eq state (Str ''cancelled'') \<or> strict_eq state (Str ''failed'') \<or>
     strict_eq state (Str ''stopped'') \<or> strict_eq state (Str ''crashed'')"

text \<open>The server's list, \<open>restore/restore.go\<close>.\<close>
definition ResumableStates :: "string list" where
  "ResumableStates = [''cancelled'', ''failed'', ''crashed'', ''stopped'']"

section \<open>Lemmas\<close>

lemma scale_loop_invariant:
  "scale_loop v u = (v', u') \<Longrightarrow> u \<le> length units - 1 \<Longrightarrow>
     u \<le> u' \<and> u' \<le> length units - 1 \<and> v = v' * 1024 ^ (u' - u) \<and> (u' = u \<or> 1 \<le> v') \<and>
     (u' = length units - 1 \<or> v' < 1024)"
proof (induction v u rule: scale_loop.induct)
  case (1 v u)
  show ?case
  proof (cases "1024 \<le> v \<and> u < length units - 1")
    case True
    then have "scale_loop (v / 1024) (u + 1) = (v', u')"
      using "1.prems" by (simp add: scale_loop.simps [of v u])
    then have IH: "u + 1 \<le> u'" "u' \<le> length units - 1" "v / 1024 = v' * 1024 ^ (u' - (u + 1))"
        "u' = u + 1 \<or> 1 \<le> v'" "u' = length units - 1 \<or> v' < 1024"
      using "1.IH" True by auto
    then have "u' - u = Suc (u' - (u + 1))" by simp
    then have "v = v' * 1024 ^ (u' - u)" using IH(3) by (simp add: field_simps)
    moreover have "u' = u + 1 \<Longrightarrow> 1 \<le> v'" using IH(3) True by simp
    ultimately show ?thesis using IH by auto
  next
    case False
    then have "v' = v" "u' = u" using "1.prems" by (auto simp: scale_loop.simps [of v u])
    then show ?thesis using False "1.prems" by auto
  qed
qed

lemma fixed_digits_read:
  "0 < d \<Longrightarrow> \<exists>a b. fixed_digits d n = a @ ''.'' @ b \<and> length b = d \<and> read_nat (a @ b) = n"
proof -
  assume d: "0 < d"
  let ?s = "show_nat n"
  let ?p = "if length ?s \<le> d then replicate (d + 1 - length ?s) CHR ''0'' @ ?s else ?s"
  have len: "d < length ?p" by auto
  have zeros: "read_nat (replicate k CHR ''0'' @ s) = read_nat s" for k s
  proof -
    have "foldl (\<lambda>n d. 10 * n + digit_val d) 0 (replicate k CHR ''0'') = 0"
      by (induction k) (simp_all add: digit_val_def)
    then show ?thesis by (simp add: read_nat_def)
  qed
  have "read_nat ?p = n" by (simp add: zeros)
  moreover have "fixed_digits d n = take (length ?p - d) ?p @ ''.'' @ drop (length ?p - d) ?p"
    using d by (simp add: fixed_digits_def Let_def)
  moreover have "length (drop (length ?p - d) ?p) = d"
    using len by (simp only: length_drop)
  ultimately show ?thesis
    by (intro exI [of _ "take (length ?p - d) ?p"] exI [of _ "drop (length ?p - d) ?p"]) (simp only: append_take_drop_id)
qed

text \<open>Printing with one decimal: a whole number of tenths, at most half a tenth off.\<close>
lemma toFixed_rounds:
  assumes "0 \<le> x" "x < 10 ^ 21"
  shows "\<exists>a b. toFixed 1 x = a @ ''.'' @ b \<and> length b = 1 \<and>
    \<bar>of_nat (read_nat (a @ b)) / 10 - x\<bar> \<le> 1 / 20"
proof -
  let ?n = "\<lfloor>\<bar>x\<bar> * 10 ^ 1 + 1 / 2\<rfloor>"
  obtain a b where ab: "fixed_digits 1 (nat ?n) = a @ ''.'' @ b" "length b = 1" "read_nat (a @ b) = nat ?n"
    using fixed_digits_read [of 1 "nat ?n"] by auto
  have n: "0 \<le> ?n" "of_int ?n \<le> x * 10 + 1 / 2" "x * 10 + 1 / 2 < of_int ?n + 1"
    using assms by (simp_all, linarith+)
  have "(of_nat (nat ?n) :: rat) = of_int ?n" using n(1) by simp
  moreover have "\<bar>of_int ?n / 10 - x\<bar> \<le> 1 / 20" using n(2,3) by linarith
  ultimately have "\<bar>of_nat (read_nat (a @ b)) / 10 - x\<bar> \<le> 1 / 20"
    by (simp only: ab(3))
  moreover have "toFixed 1 x = a @ ''.'' @ b"
    using ab(1) assms by (simp add: toFixed_def)
  ultimately show ?thesis using ab(2) by blast
qed

lemma duration_text_parts:
  fixes t :: int
  assumes "0 \<le> t"
  shows "\<exists>h m s. 0 \<le> h \<and> 0 \<le> m \<and> m < 60 \<and> 0 \<le> s \<and> s < 60 \<and> h * 3600 + m * 60 + s = t \<and>
    duration_text t =
      (if h \<noteq> 0 then show_int h @ ''h'' @ show_int m @ ''m'' @ show_int s @ ''s''
       else if m \<noteq> 0 then show_int m @ ''m'' @ show_int s @ ''s''
       else show_int s @ ''s'')"
proof -
  define h where "h = t div 3600"
  define r where "r = t - h * 3600"
  define m where "m = r div 60"
  have h: "0 \<le> h" using assms by (simp add: h_def pos_imp_zdiv_nonneg_iff)
  have r: "r = t mod 3600" unfolding r_def h_def by (simp add: minus_div_mult_eq_mod)
  then have "0 \<le> r" "r < 3600" by simp_all
  then have m: "0 \<le> m" "m < 60" by (simp_all add: m_def pos_imp_zdiv_nonneg_iff)
  have s: "r - m * 60 = r mod 60" unfolding m_def by (simp add: minus_div_mult_eq_mod)
  have "h * 3600 + m * 60 + (r - m * 60) = t" by (simp add: r_def)
  moreover have "duration_text t =
      (if h \<noteq> 0 then show_int h @ ''h'' @ show_int m @ ''m'' @ show_int (r - m * 60) @ ''s''
       else if m \<noteq> 0 then show_int m @ ''m'' @ show_int (r - m * 60) @ ''s''
       else show_int (r - m * 60) @ ''s'')"
    unfolding duration_text_def Let_def h_def [symmetric] r_def [symmetric] m_def [symmetric] by (rule refl)
  ultimately show ?thesis
    using h m by (intro exI [of _ h] exI [of _ m] exI [of _ "r - m * 60"]) (simp add: s)
qed

section \<open>Properties\<close>

text \<open>A byte count is shown in the largest unit that leaves at least one: the printed number times
  the power of 1024 of the printed unit is the count, it is below 1024 unless the unit is the
  largest, and at least 1 unless the unit is bytes.  The loop always ends.\<close>
theorem fmtBytes_scales:
  "\<exists>v u. n = v * 1024 ^ u \<and> u < length units \<and> (u = 0 \<or> 1 \<le> v) \<and> (u = 4 \<or> v < 1024) \<and>
     fmtBytes (Num n) = Inr (Str ((if u = 0 then toFixed 0 v else toFixed 1 v) @ '' '' @ units ! u))"
proof -
  obtain v u where vu: "scale_loop n 0 = (v, u)" by fastforce
  then show ?thesis
    using scale_loop_invariant [OF vu]
    by (intro exI [of _ v] exI [of _ u]) (auto simp: units_def)
qed

text \<open>C18. The printed size is accurate: any count from 1 KiB up to the server's 64 bits is shown with one
  decimal in a unit \<open>1024 ^ u\<close>, and the printed number is off by at most a twentieth of the unit.\<close>
theorem fmtBytes_accuracy:
  assumes "1024 \<le> n" "n < 2 ^ 64"
  shows "\<exists>a b u. fmtBytes (Num n) = Inr (Str (a @ ''.'' @ b @ '' '' @ units ! u)) \<and> length b = 1 \<and>
    1 \<le> u \<and> u < length units \<and> \<bar>of_nat (read_nat (a @ b)) / 10 * 1024 ^ u - n\<bar> \<le> 1024 ^ u / 20"
proof -
  obtain v u where vu: "scale_loop n 0 = (v, u)" by fastforce
  have inv: "u < length units" "n = v * 1024 ^ u" "u = 0 \<or> 1 \<le> v" "u = 4 \<or> v < 1024"
    using scale_loop_invariant [OF vu] by (auto simp: units_def)
  then have "u \<noteq> 0" using assms(1) by (cases u) auto
  then have u: "1 \<le> u" "1 \<le> v" using inv(3) by auto
  have "v * 1 \<le> v * 1024 ^ u" using u(2) by (intro mult_left_mono) auto
  then have "v < 10 ^ 21" using inv(2) assms(2) by simp
  then obtain a b where ab: "toFixed 1 v = a @ ''.'' @ b" "length b = 1"
      "\<bar>of_nat (read_nat (a @ b)) / 10 - v\<bar> \<le> 1 / 20"
    using toFixed_rounds [of v] u(2) by auto
  have "of_nat (read_nat (a @ b)) / 10 * 1024 ^ u - n = (of_nat (read_nat (a @ b)) / 10 - v) * 1024 ^ u"
    using inv(2) by (simp add: algebra_simps)
  then have "\<bar>of_nat (read_nat (a @ b)) / 10 * 1024 ^ u - n\<bar> \<le> 1 / 20 * 1024 ^ u"
    using ab(3) by (simp only: abs_mult) (intro mult_mono, simp_all)
  moreover have "fmtBytes (Num n) = Inr (Str (a @ ''.'' @ b @ '' '' @ units ! u))"
    using vu u(1) ab(1) by simp
  ultimately show ?thesis using ab(2) u(1) inv(1) by (intro exI [of _ a] exI [of _ b] exI [of _ u]) simp
qed

theorem fmtBytes_accuracy_witness:
  "\<exists>a b u. fmtBytes (Num 1536) = Inr (Str (a @ ''.'' @ b @ '' '' @ units ! u)) \<and> length b = 1 \<and>
    1 \<le> u \<and> u < length units \<and> \<bar>of_nat (read_nat (a @ b)) / 10 * 1024 ^ u - (1536 :: rat)\<bar> \<le> 1024 ^ u / 20"
  by (rule fmtBytes_accuracy) simp_all

text \<open>A duration is shown as hours, minutes and seconds that add up to the whole seconds between
  the two dates (none when the end lies before the start), with minutes and seconds below 60 and
  leading zero parts left out.\<close>
theorem fmtDuration_parts:
  assumes "date_ms D start = Some a" "date_ms D end = Some b"
    and "start \<noteq> []" "\<not> startsWith start zero_date" "end \<noteq> []" "\<not> startsWith end zero_date"
  shows "\<exists>h m s. 0 \<le> h \<and> 0 \<le> m \<and> m < 60 \<and> 0 \<le> s \<and> s < 60 \<and>
    h * 3600 + m * 60 + s = max 0 ((b - a) div 1000) \<and>
    fmtDuration D (Str start) (Str end) = Inr (Str (
      if h \<noteq> 0 then show_int h @ ''h'' @ show_int m @ ''m'' @ show_int s @ ''s''
      else if m \<noteq> 0 then show_int m @ ''m'' @ show_int s @ ''s''
      else show_int s @ ''s''))"
proof -
  have "fmtDuration D (Str start) (Str end) = Inr (Str (duration_text (max 0 ((b - a) div 1000))))"
    using assms by (simp add: fmtDuration_def Let_def)
  then show ?thesis
    using duration_text_parts [of "max 0 ((b - a) div 1000)"] by auto
qed

theorem fmtDuration_parts_witness:
  "fmtDuration \<lparr>date_ms = (\<lambda>s. if s = ''a'' then Some 0 else Some 61000), date_text = (\<lambda>_. [])\<rparr> (Str ''a'') (Str ''b'')
     = Inr (Str ''1m1s'') \<and>
   (\<exists>h m s. 0 \<le> h \<and> 0 \<le> m \<and> m < 60 \<and> 0 \<le> s \<and> s < (60::int) \<and> h * 3600 + m * 60 + s = max 0 ((61000 - 0) div 1000))"
proof -
  let ?D = "\<lparr>date_ms = (\<lambda>s. if s = ''a'' then Some 0 else Some 61000), date_text = (\<lambda>_. [])\<rparr>"
  have "fmtDuration ?D (Str ''a'') (Str ''b'') = Inr (Str ''1m1s'')" by code_simp
  then show ?thesis
    using fmtDuration_parts [of ?D "''a''" 0 "''b''" 61000]
    by (auto simp: zero_date_def)
qed

text \<open>C20. The UI offers to resume exactly the states from which the server resumes, and never a state it
  shows as running.\<close>
theorem isResumable_matches_server:
  "isResumable v \<longleftrightarrow> (\<exists>s \<in> set ResumableStates. v = Str s \<and> \<not> isRunning v)"
  by (auto simp: isResumable_def ResumableStates_def isRunning_def)

end
