(* ===== verification/Reports.thy ===== *)
theory Reports
  imports Pager Format
begin

text \<open>
  The backup report dialog of \<open>js/app.js\<close>: \<open>ReportsModal\<close> with its list \<open>ReportList\<close>, and the
  report page \<open>ReportDetail\<close> the restore report dialog uses too.
\<close>

section \<open>ReportList\<close>

definition len_zero :: "jsval \<Rightarrow> bool" where
  "len_zero l = strict_eq l (Num 0)"

text \<open>\<open>l > k\<close>, false unless \<open>l\<close> is a number\<close>
definition len_gt :: "rat \<Rightarrow> jsval \<Rightarrow> bool" where
  "len_gt k l = (case l of Num x \<Rightarrow> k < x | _ \<Rightarrow> False)"

definition state_span :: "jsval jsr \<Rightarrow> 'a vnode" where
  "state_span st = Elem ''span'' [Attr ''class'' (plus_str ''state '' st)] [dyn st]"

definition loading_note :: "'a vnode" where
  "loading_note = Elem ''span'' [cls ''muted''] [Elem ''span'' [cls ''spinner''] [], lit '' Loading...'']"

definition report_cells :: "dates \<Rightarrow> jsval \<Rightarrow> 'a vnode list" where
  "report_cells D it =
     [Elem ''td'' [] [Elem ''code'' [] [dyn (get it ''job_id'')]],
      Elem ''td'' [] [state_span (get it ''state'')],
      Elem ''td'' [] [dyn (bindr (get it ''start_time'') (\<lambda>a. bindr (get it ''end_time'') (fmtDuration D a)))],
      Elem ''td'' [] [dyn (bindr (get it ''start_time'') (fmtTime D))],
      Elem ''td'' [] [dyn (bindr (get it ''end_time'') (fmtTime D))]]"

definition header_cells :: "string list \<Rightarrow> 'a vnode" where
  "header_cells hs = Elem ''thead'' [] [Elem ''tr'' [] (map (\<lambda>h. Elem ''th'' [] [lit h]) hs)]"

definition load_more :: "bool \<Rightarrow> jsval \<Rightarrow> 'a \<Rightarrow> 'a vnode" where
  "load_more loading nextToken onLoadMore =
     Elem ''div'' [cls ''report-actions'']
       [show_if loading loading_note,
        show_if (truthy nextToken \<and> \<not> loading) (Elem ''button'' [onClick onLoadMore] [lit ''Load more''])]"

definition ReportList ::
  "dates \<Rightarrow> jsval \<Rightarrow> bool \<Rightarrow> jsval \<Rightarrow> (jsval \<Rightarrow> 'a) \<Rightarrow> 'a \<Rightarrow> 'a vnode" where
  "ReportList D its loading nextToken onOpen onLoadMore =
     Frag
      [with_val (get its ''length'') (\<lambda>l. show_if (len_zero l \<and> \<not> loading)
         (Elem ''div'' [cls ''empty'', sattr ''style'' ''padding:24px'']
            [lit ''No reports found for this backup job.''])),
       with_val (get its ''length'') (\<lambda>l. show_if (len_gt 0 l)
         (Elem ''table'' [cls ''report-table'']
           [header_cells [''Job Id'', ''State'', ''Duration'', ''Start time'', ''End time''],
            Elem ''tbody'' []
             [map_nodes (Inr its) (\<lambda>it.
                Elem ''tr'' [cls ''clickable'', onClickGet (get it ''job_id'') onOpen] (report_cells D it))]])),
       load_more loading nextToken onLoadMore]"

section \<open>ReportDetail\<close>

text \<open>\<open>const g = (k) => { const v = s[k]; return typeof v === 'number' ? v : 0; }\<close> with
  \<open>s = d.stats_counters || {}\<close>\<close>
definition counters :: "jsval \<Rightarrow> jsval jsr" where
  "counters d = mapr (\<lambda>s. js_or s (Obj [])) (get d ''stats_counters'')"

definition counter :: "jsval \<Rightarrow> string \<Rightarrow> jsval jsr" where
  "counter d k =
     bindr (counters d) (\<lambda>s. bindr (get s k) (\<lambda>v.
       Inr (case v of Num x \<Rightarrow> Num x | NaN \<Rightarrow> NaN | _ \<Rightarrow> Num 0)))"

definition or_dash :: "jsval jsr \<Rightarrow> jsval jsr" where
  "or_dash r = mapr (\<lambda>v. js_or v (Str ''-'')) r"

definition rate_text :: "jsval \<Rightarrow> string \<Rightarrow> jsval jsr" where
  "rate_text d k = mapr (\<lambda>v. Str (to_str v @ ''/s'')) (bindr (get d k) fmtBytes)"

definition overview_rows :: "dates \<Rightarrow> jsval \<Rightarrow> (string \<times> 'a vnode) list" where
  "overview_rows D d =
     [(''Name'', dyn (get d ''name'')),
      (''State'', state_span (get d ''state'')),
      (''Job id'', Elem ''code'' [] [dyn (or_dash (get d ''job_id''))]),
      (''Platform'', dyn (or_dash (get d ''platform''))),
      (''Start time'', dyn (bindr (get d ''start_time'') (fmtTime D))),
      (''End time'', dyn (bindr (get d ''end_time'') (fmtTime D))),
      (''Duration'', dyn (bindr (get d ''start_time'') (\<lambda>a. bindr (get d ''end_time'') (fmtDuration D a)))),
      (''Next run'', dyn (bindr (get d ''next_run'') (fmtTime D)))]"

definition transfer_rows :: "jsval \<Rightarrow> (string \<times> 'a vnode) list" where
  "transfer_rows d =
     [(''File content read'', dyn (bindr (get d ''file_content_bytes_read'') fmtBytes)),
      (''Rate (1 min)'', dyn (rate_text d ''rate_1min'')),
      (''Rate (5 min)'', dyn (rate_text d ''rate_5min'')),
      (''Rate (15 min)'', dyn (rate_text d ''rate_15min''))]"

text \<open>The sections of counters: their titles, and per row the label and the counter it shows.\<close>
definition counter_sections :: "(string \<times> (string \<times> string) list) list" where
  "counter_sections =
     [(''Examination'',
       [(''Directories examined'', ''examined_directories''),
        (''Files examined'', ''examined_files''),
        (''Symlinks examined'', ''examined_symlinks''),
        (''Unordinary files examined'', ''examined_unknown''),
        (''Excluded by rule'', ''excluded''),
        (''Failed to examine'', ''failed_to_examine''),
        (''Failed to enumerate directory'', ''failed_to_enumerate'')]),
      (''Uploads'',
       [(''Files uploaded'', ''uploaded_files''),
        (''Directories uploaded'', ''uploaded_directories''),
        (''Symlinks uploaded'', ''uploaded_symlinks''),
        (''Files up to date'', ''up_to_date_files''),
        (''Directories up to date'', ''up_to_date_directories''),
        (''Symlinks up to date'', ''up_to_date_symlinks''),
        (''Files failed to upload'', ''failed_to_upload_files''),
        (''Directories failed to upload'', ''failed_to_upload_directories''),
        (''Symlinks failed to upload'', ''failed_to_upload_symlinks''),
        (''Unordinary files failed to upload'', ''failed_to_upload_unknown'')]),
      (''Metadata-only updates'',
       [(''Files updated'', ''updated_metadata_for_files''),
        (''Directories updated'', ''updated_metadata_for_directories''),
        (''Symlinks updated'', ''updated_metadata_for_symlinks''),
        (''Files failed'', ''failed_to_update_metadata_for_files''),
        (''Directories failed'', ''failed_to_update_metadata_for_directories''),
        (''Symlinks failed'', ''failed_to_update_metadata_for_symlinks'')]),
      (''Deletion tracking'',
       [(''Files marked deleted'', ''marked_deleted_files''),
        (''Directories marked deleted'', ''marked_deleted_directories''),
        (''Symlinks marked deleted'', ''marked_deleted_symlinks''),
        (''Failed to mark files deleted'', ''failed_to_mark_deleted_files''),
        (''Failed to mark dirs deleted'', ''failed_to_mark_deleted_directories''),
        (''Failed to mark symlinks deleted'', ''failed_to_mark_deleted_symlinks''),
        (''Failed to build deleted list'', ''failed_to_find_deleted'')]),
      (''Scripts & database'',
       [(''Scripts defined'', ''scripts_num''),
        (''Scripts ran'', ''scripts_ran''),
        (''Scripts failed'', ''scripts_failed''),
        (''Database copy errors'', ''database_copy_errors'')]),
      (''Client-side encryption'',
       [(''Files skipped (path collides with .cbcrypt/)'', ''skipped_reserved_path''),
        (''Files skipped (encrypted size > target limit)'', ''skipped_too_large_for_target''),
        (''Keystore inconsistency events'', ''keystore_inconsistent''),
        (''Decrypt failures (keystore UUID mismatch)'', ''decrypt_keystore_mismatch'')])]"

definition sections :: "dates \<Rightarrow> jsval \<Rightarrow> (string \<times> (string \<times> 'a vnode) list) list" where
  "sections D d =
     [(''Overview'', overview_rows D d), (''Transfer'', transfer_rows d)] @
     map (\<lambda>(title, rows). (title, map (\<lambda>(label, k). (label, dyn (counter d k))) rows)) counter_sections"

text \<open>\<open>d.stats_text?.k || ''\<close>\<close>
definition stats_text :: "jsval \<Rightarrow> string \<Rightarrow> jsval jsr" where
  "stats_text d k = mapr (\<lambda>t. js_or (get_opt t k) (Str [])) (get d ''stats_text'')"

definition current_item :: "string \<Rightarrow> string \<Rightarrow> jsval jsr \<Rightarrow> jsval \<Rightarrow> 'a vnode" where
  "current_item run_label last_label st v =
     show_if (truthy v)
       (Elem ''div'' []
         [Elem ''strong'' []
            [dyn (mapr (\<lambda>x. Str (if isRunning x then run_label else last_label)) st), lit '':''],
          lit '' '', Elem ''code'' [] [val v]])"

definition kv_row :: "string \<times> 'a vnode \<Rightarrow> 'a vnode" where
  "kv_row kv = Elem ''div'' [cls ''kv-row'']
     [Elem ''span'' [cls ''kv-key''] [lit (fst kv)], Elem ''span'' [cls ''kv-val''] [snd kv]]"

definition section_node :: "string \<times> (string \<times> 'a vnode) list \<Rightarrow> 'a vnode" where
  "section_node sec =
     Elem ''div'' [cls ''report-section'']
       [Elem ''h3'' [] [lit (fst sec)], Elem ''div'' [cls ''kv''] (map kv_row (snd sec))]"

definition ReportDetail :: "dates \<Rightarrow> jsval \<Rightarrow> bool \<Rightarrow> 'a vnode" where
  "ReportDetail D d loading =
     Frag
      [show_if loading (Elem ''div'' [cls ''muted''] [Elem ''span'' [cls ''spinner''] [], lit '' Loading...'']),
       with_val (stats_text d ''current_directory'') (\<lambda>currentDir.
       with_val (stats_text d ''current_file'') (\<lambda>currentFile.
         show_if (truthy currentDir \<or> truthy currentFile)
           (Elem ''div'' [cls ''server-version'', sattr ''style'' ''margin-bottom:14px'']
             [current_item ''Current directory'' ''Last processed directory'' (get d ''state'') currentDir,
              current_item ''Current file'' ''Last processed file'' (get d ''state'') currentFile]))),
       Elem ''div'' [cls ''report-detail'']
         (map section_node (sections D d))]"

section \<open>ReportsModal\<close>

record rp_state =
  rp_items :: jsval
  rp_nextToken :: jsval
  rp_loading :: bool
  rp_error :: jsval
  rp_detail :: jsval
  rp_detailLoading :: bool

datatype rp_action = LoadMore | OpenDetail jsval | BackToList | CloseReports

datatype rp_call = ListReports jsval | ShowReport jsval | ReportsClosed

definition rp_mounted :: rp_state where
  "rp_mounted =
     \<lparr>rp_items = Arr [], rp_nextToken = Str [], rp_loading = False, rp_error = Null,
      rp_detail = Null, rp_detailLoading = False\<rparr>"

text \<open>\<open>loadPage\<close> up to its \<open>await\<close>, and after it\<close>
definition rp_loadPage :: "jsval \<Rightarrow> rp_state \<Rightarrow> rp_state \<times> rp_call list" where
  "rp_loadPage token s = (s\<lparr>rp_loading := True\<rparr>, [ListReports token])"

definition rp_loadPage_done :: "jsval \<Rightarrow> page jsr \<Rightarrow> rp_state \<Rightarrow> rp_state" where
  "rp_loadPage_done token reply s =
     (let s1 = (case reply of
         Inl e \<Rightarrow> s\<lparr>rp_error := Str (err_text e)\<rparr>
       | Inr r \<Rightarrow>
           (case add_page token (rp_items s) (items r) of
             Inl e \<Rightarrow> s\<lparr>rp_error := Str (err_text e)\<rparr>
           | Inr xs \<Rightarrow> s\<lparr>rp_items := xs, rp_nextToken := next r, rp_error := Null\<rparr>))
      in s1\<lparr>rp_loading := False\<rparr>)"

definition rp_openDetail :: "jsval \<Rightarrow> rp_state \<Rightarrow> rp_state \<times> rp_call list" where
  "rp_openDetail jobId s = (s\<lparr>rp_detailLoading := True, rp_error := Null\<rparr>, [ShowReport jobId])"

definition rp_openDetail_done :: "jsval jsr \<Rightarrow> rp_state \<Rightarrow> rp_state" where
  "rp_openDetail_done reply s =
     (let s1 = (case reply of
         Inl e \<Rightarrow> s\<lparr>rp_error := Str (err_text e)\<rparr>
       | Inr d \<Rightarrow> s\<lparr>rp_detail := d\<rparr>)
      in s1\<lparr>rp_detailLoading := False\<rparr>)"

definition rp_backToList :: "rp_state \<Rightarrow> rp_state" where
  "rp_backToList s = s\<lparr>rp_detail := Null\<rparr>"

fun rp_act :: "rp_state \<Rightarrow> rp_action \<Rightarrow> rp_state \<times> rp_call list" where
  "rp_act s LoadMore = rp_loadPage (rp_nextToken s) s"
| "rp_act s (OpenDetail jobId) = rp_openDetail jobId s"
| "rp_act s BackToList = (rp_backToList s, [])"
| "rp_act s CloseReports = (s, [ReportsClosed])"

fun rp_answer :: "connection \<Rightarrow> jsval \<Rightarrow> rp_state \<Rightarrow> rp_call \<Rightarrow> fetch \<Rightarrow> rp_state \<times> rp_call list" where
  "rp_answer conn name s (ListReports token) fetch =
     (rp_loadPage_done token (listReports fetch conn name token) s, [])"
| "rp_answer conn name s (ShowReport jobId) fetch =
     (rp_openDetail_done (showReport fetch conn name jobId) s, [])"
| "rp_answer conn name s ReportsClosed fetch = (s, [])"

text \<open>Mounting runs the effect that loads the first page.\<close>
definition rp_init :: "rp_state \<times> rp_call list" where
  "rp_init = rp_loadPage Undef rp_mounted"

definition ReportsModal :: "dates \<Rightarrow> jsval \<Rightarrow> rp_state \<Rightarrow> rp_action vnode" where
  "ReportsModal D name s =
     Elem ''div'' [cls ''modal-backdrop'', onSelfClick CloseReports]
      [Elem ''div'' [cls ''modal modal-wide'', sattr ''role'' ''dialog'', sattr ''aria-modal'' ''true'']
        [Elem ''header'' []
          [Elem ''h2'' []
             [if truthy (rp_detail s) then Frag [lit ''Report: '', val name]
              else Frag [lit ''Reports: '', val name]],
           Elem ''div'' [sattr ''style'' ''display:flex;gap:8px'']
             [show_if (truthy (rp_detail s)) (Elem ''button'' [onClick BackToList] [lit ''<- Back to list'']),
              Elem ''button'' [onClick CloseReports] [lit ''Close'']]],
         Elem ''div'' [cls ''body'']
          [show_if (truthy (rp_error s)) (Elem ''div'' [cls ''error''] [val (rp_error s)]),
           if truthy (rp_detail s) then ReportDetail D (rp_detail s) (rp_detailLoading s)
           else ReportList D (rp_items s) (rp_loading s) (rp_nextToken s) OpenDetail LoadMore]]]"

definition rp_enabled :: "dates \<Rightarrow> jsval \<Rightarrow> rp_state \<Rightarrow> rp_action \<Rightarrow> bool" where
  "rp_enabled D name s a = offers (ReportsModal D name s) a"

section \<open>Lemmas\<close>

lemma len_gt_iff: "len_gt k l \<longleftrightarrow> (\<exists>x. l = Num x \<and> k < x)"
  by (cases l) (simp_all add: len_gt_def)

lemma offers_state_span [simp]: "\<not> offers (state_span r) a"
  by (simp add: state_span_def)

lemma offers_ReportDetail [simp]: "\<not> offers (ReportDetail D d l) a"
  by (auto simp: ReportDetail_def sections_def overview_rows_def transfer_rows_def current_item_def
      section_node_def kv_row_def)

lemma offers_header_cells [simp]: "\<not> offers (header_cells hs) a"
  by (auto simp: header_cells_def)

lemma offers_report_cells [simp]: "c \<in> set (report_cells D it) \<Longrightarrow> \<not> offers c a"
  by (auto simp: report_cells_def)

lemma offers_load_more [simp]:
  "offers (load_more l t m) a \<longleftrightarrow> truthy t \<and> \<not> l \<and> a = m"
  by (auto simp: load_more_def loading_note_def)

lemma offers_ReportList:
  "offers (ReportList D xs l t onOpen m) a \<longleftrightarrow>
     truthy t \<and> \<not> l \<and> a = m \<or>
     (\<exists>vs it jid. xs = Arr vs \<and> it \<in> set vs \<and> get it ''job_id'' = Inr jid \<and> a = onOpen jid)"
  by (cases xs)
    (auto simp: ReportList_def len_gt_def len_zero_def of_nat_0_less_iff length_pos_if_in_set)

lemma offers_ReportsModal:
  "offers (ReportsModal D name s) a \<longleftrightarrow>
     a = CloseReports \<or> (if truthy (rp_detail s) then a = BackToList
       else offers (ReportList D (rp_items s) (rp_loading s) (rp_nextToken s) OpenDetail LoadMore) a)"
  by (auto simp: ReportsModal_def)

section \<open>The counters the server keeps\<close>

text \<open>\<open>shared/structs_scheduler.go\<close>: the counters of a backup job (\<open>MarkRunning\<close>) and of a restore job
  (\<open>MarkRestoreRunning\<close>).\<close>
definition backup_counters :: "string list" where
  "backup_counters =
     [''examined_files'', ''examined_directories'', ''examined_symlinks'', ''examined_unknown'',
      ''failed_to_examine'', ''failed_to_enumerate'', ''excluded'',
      ''up_to_date_files'', ''up_to_date_directories'', ''up_to_date_symlinks'',
      ''uploaded_files'', ''uploaded_directories'', ''uploaded_symlinks'',
      ''failed_to_upload_files'', ''failed_to_upload_directories'', ''failed_to_upload_symlinks'',
      ''failed_to_upload_unknown'',
      ''updated_metadata_for_files'', ''updated_metadata_for_directories'', ''updated_metadata_for_symlinks'',
      ''marked_deleted_files'', ''marked_deleted_directories'', ''marked_deleted_symlinks'',
      ''failed_to_mark_deleted_files'', ''failed_to_mark_deleted_directories'',
      ''failed_to_mark_deleted_symlinks'', ''failed_to_find_deleted'',
      ''failed_to_update_metadata_for_files'', ''failed_to_update_metadata_for_directories'',
      ''failed_to_update_metadata_for_symlinks'', ''database_copy_errors'',
      ''scripts_failed'', ''scripts_ran'', ''scripts_num'',
      ''skipped_reserved_path'', ''skipped_too_large_for_target'', ''keystore_inconsistent'']"

definition restore_counters :: "string list" where
  "restore_counters =
     [''restored_files'', ''restored_directories'', ''restored_symlinks'', ''failed_to_restore_files'',
      ''skipped_delete_markers'', ''decrypt_keystore_mismatch'']"

definition shown_counters :: "string list" where
  "shown_counters = map snd (concat (map snd counter_sections))"

lemma row_displayed:
  assumes "(title, rows) \<in> set (sections D d)" "(label, n :: 'a vnode) \<in> set rows" "displays n v"
  shows "displays (ReportDetail D d l :: 'a vnode) v"
proof -
  have "displays (kv_row (label, n)) v" using assms(3) by (simp add: kv_row_def)
  then have "displays (section_node (title, rows)) v"
    using assms(2) by (auto simp: section_node_def)
  then show ?thesis using assms(1) by (simp add: ReportDetail_def) blast
qed

lemma counter_displayed:
  assumes "k \<in> set shown_counters" "counter d k = Inr v"
  shows "displays (ReportDetail D d l :: 'a vnode) v"
proof -
  obtain sec label where sec: "sec \<in> set counter_sections" "(label, k) \<in> set (snd sec)"
    using assms(1) by (auto simp: shown_counters_def)
  show ?thesis
  proof (rule row_displayed)
    show "(fst sec, map (\<lambda>(label, k). (label, dyn (counter d k))) (snd sec)) \<in> set (sections D d :: (string \<times> (string \<times> 'a vnode) list) list)"
      using sec(1) by (force simp: sections_def case_prod_unfold)
    show "(label, dyn (counter d k)) \<in> set (map (\<lambda>(label, k). (label, dyn (counter d k))) (snd sec))"
      using sec(2) by force
  qed (simp add: dyn_def assms(2))
qed

lemma sections_eq_counters:
  assumes "\<And>k. k \<noteq> ''stats_counters'' \<Longrightarrow> get d k = get d' k"
    and "\<And>k. k \<in> set shown_counters \<Longrightarrow> counter d k = counter d' k"
  shows "sections D d = sections D d'"
proof -
  have "counter d (snd row) = counter d' (snd row)" if "row \<in> set (snd sec)" "sec \<in> set counter_sections" for row sec
    using that assms(2) by (force simp: shown_counters_def)
  then show ?thesis
    using assms(1)
    by (auto simp: sections_def overview_rows_def transfer_rows_def rate_text_def case_prod_unfold
        intro!: map_cong)
qed

section \<open>Rendering\<close>

text \<open>What \<open>fmtTime\<close> and \<open>fmtBytes\<close> accept.\<close>
definition time_ok :: "jsval \<Rightarrow> bool" where
  "time_ok v \<longleftrightarrow> \<not> truthy v \<or> (\<exists>s. v = Str s)"

definition bytes_ok :: "jsval \<Rightarrow> bool" where
  "bytes_ok v \<longleftrightarrow> (case v of Bool _ \<Rightarrow> False | Str _ \<Rightarrow> False | Arr _ \<Rightarrow> False | _ \<Rightarrow> True)"

lemma fmtTime_ok: "(\<exists>w. fmtTime D v = Inr w) \<longleftrightarrow> time_ok v"
  by (cases v) (auto simp: fmtTime_def time_ok_def split: option.splits)

lemma fmtBytes_ok: "(\<exists>w. fmtBytes v = Inr w) \<longleftrightarrow> bytes_ok v"
  by (cases v) (auto simp: bytes_ok_def split: prod.splits)

lemma fmtDuration_ok: "time_ok a \<Longrightarrow> time_ok b \<Longrightarrow> \<exists>w. fmtDuration D a b = Inr w"
  by (auto simp: fmtDuration_def time_ok_def Let_def split: option.splits)

lemma state_span_renders [simp]: "renders (state_span r) \<longleftrightarrow> (\<exists>v. r = Inr v)"
  by (auto simp: state_span_def)

lemma rate_text_ok: "(\<exists>w. rate_text (Obj kvs) k = Inr w) \<longleftrightarrow> bytes_ok (obj_get kvs k)"
  using fmtBytes_ok [of "obj_get kvs k"] by (auto simp: rate_text_def mapr_Inr_conv)

lemma counter_Obj_ok: "\<exists>w. counter (Obj kvs) k = Inr w"
proof -
  have "\<exists>w. get (js_or v (Obj [])) k = Inr w" for v
    by (rule get_not_nullish) (cases v; simp add: js_or_def nullish_def)
  then show ?thesis by (auto simp: counter_def counters_def bindr_Inr_conv)
qed

definition detail_ok :: "(string \<times> jsval) list \<Rightarrow> bool" where
  "detail_ok kvs \<longleftrightarrow>
     (\<forall>k \<in> {''start_time'', ''end_time'', ''next_run''}. time_ok (obj_get kvs k)) \<and>
     (\<forall>k \<in> {''file_content_bytes_read'', ''rate_1min'', ''rate_5min'', ''rate_15min''}.
        bytes_ok (obj_get kvs k))"

lemma overview_renders:
  "(\<forall>row \<in> set (overview_rows D (Obj kvs)). renders (snd row)) \<longleftrightarrow>
     (\<forall>k \<in> {''start_time'', ''end_time'', ''next_run''}. time_ok (obj_get kvs k))"
  using fmtDuration_ok [of "obj_get kvs ''start_time''" "obj_get kvs ''end_time''" D]
  by (auto simp: overview_rows_def fmtTime_ok or_dash_def)

lemma transfer_renders:
  "(\<forall>row \<in> set (transfer_rows (Obj kvs)). renders (snd row)) \<longleftrightarrow>
     (\<forall>k \<in> {''file_content_bytes_read'', ''rate_1min'', ''rate_5min'', ''rate_15min''}. bytes_ok (obj_get kvs k))"
  by (auto simp: transfer_rows_def fmtBytes_ok rate_text_ok)

lemma sections_render:
  "(\<forall>sec \<in> set (sections D (Obj kvs)). \<forall>row \<in> set (snd sec). renders (snd row)) \<longleftrightarrow> detail_ok kvs"
  by (auto simp: sections_def detail_ok_def overview_renders [simplified] transfer_renders [simplified]
      counter_Obj_ok)

lemma current_item_renders [simp]: "renders (current_item a b (Inr st) v)"
  by (simp add: current_item_def)

lemma section_renders:
  "renders (section_node sec) \<longleftrightarrow> (\<forall>row \<in> set (snd sec). renders (snd row))"
  by (auto simp: section_node_def kv_row_def)

section \<open>The dialog is a pager\<close>

text \<open>The dialog against a server given by its pages and its reports, where every request may fail.\<close>
fun rp_serve :: "server_pages \<Rightarrow> (jsval \<Rightarrow> jsval jsr) \<Rightarrow> rp_state \<Rightarrow> rp_call \<Rightarrow> js_error option \<Rightarrow>
    rp_state \<times> rp_call list" where
  "rp_serve srv report s (ListReports t) r =
     (rp_loadPage_done t (case r of None \<Rightarrow> Inr (page_from srv t) | Some e \<Rightarrow> Inl e) s, [])"
| "rp_serve srv report s (ShowReport jid) r =
     (rp_openDetail_done (case r of None \<Rightarrow> report jid | Some e \<Rightarrow> Inl e) s, [])"
| "rp_serve srv report s ReportsClosed r = (s, [])"

fun rp_req :: "rp_call \<Rightarrow> jsval option" where
  "rp_req (ListReports t) = Some t"
| "rp_req _ = None"

lemma rp_loadPage_done_simps [simp]:
  "\<not> rp_loading (rp_loadPage_done t r s)"
  "rp_items (rp_loadPage_done t (Inl e) s) = rp_items s"
  "rp_nextToken (rp_loadPage_done t (Inl e) s) = rp_nextToken s"
  by (simp_all add: rp_loadPage_done_def Let_def)

lemma rp_openDetail_done_simps [simp]:
  "rp_items (rp_openDetail_done r s) = rp_items s"
  "rp_nextToken (rp_openDetail_done r s) = rp_nextToken s"
  "rp_loading (rp_openDetail_done r s) = rp_loading s"
  by (simp_all add: rp_openDetail_done_def Let_def split: sum.splits)

interpretation rp: pager rp_init "rp_enabled D name" rp_act "rp_serve srv report" rp_req
  rp_items rp_nextToken rp_loading srv
proof unfold_locales
  fix s a
  assume "rp_enabled D name s a"
  then have "a = LoadMore \<Longrightarrow> truthy (rp_nextToken s) \<and> \<not> rp_loading s"
    by (auto simp: rp_enabled_def offers_ReportsModal offers_ReportList split: if_splits)
  then show "rp_items (fst (rp_act s a)) = rp_items s \<and> rp_nextToken (fst (rp_act s a)) = rp_nextToken s \<and>
      (rp_loading (fst (rp_act s a)) = rp_loading s \<and> page_requests rp_req (snd (rp_act s a)) = [] \<or>
       \<not> rp_loading s \<and> truthy (rp_nextToken s) \<and> rp_loading (fst (rp_act s a)) \<and>
       page_requests rp_req (snd (rp_act s a)) = [rp_nextToken s])"
    by (cases a) (simp_all add: rp_loadPage_def rp_openDetail_def rp_backToList_def)
next
  fix c s r
  assume "rp_req c = None"
  then show "rp_items (fst (rp_serve srv report s c r)) = rp_items s \<and>
      rp_nextToken (fst (rp_serve srv report s c r)) = rp_nextToken s \<and>
      rp_loading (fst (rp_serve srv report s c r)) = rp_loading s \<and>
      page_requests rp_req (snd (rp_serve srv report s c r)) = []"
    by (cases c) simp_all
next
  fix c t s r
  assume "rp_req c = Some t"
  then have "c = ListReports t" by (cases c) simp_all
  then show "\<not> rp_loading (fst (rp_serve srv report s c r)) \<and>
      page_requests rp_req (snd (rp_serve srv report s c r)) = [] \<and>
      (rp_items (fst (rp_serve srv report s c r)) = rp_items s \<and>
       rp_nextToken (fst (rp_serve srv report s c r)) = rp_nextToken s \<or>
       add_page t (rp_items s) (Arr (fst (srv t))) = Inr (rp_items (fst (rp_serve srv report s c r))) \<and>
       rp_nextToken (fst (rp_serve srv report s c r)) = snd (srv t))"
    by (cases r) (auto simp: rp_loadPage_done_def page_from_def Let_def split: sum.splits)
qed (simp_all add: rp_init_def rp_loadPage_def rp_mounted_def)

lemma rp_answer_serve:
  assumes "\<And>t. listReports server conn name t = Inr (page_from srv t)"
  shows "(\<lambda>s c r. rp_answer conn name s c (flaky server r)) = rp_serve srv (showReport server conn name)"
proof (intro ext)
  fix s c r
  show "rp_answer conn name s c (flaky server r) = rp_serve srv (showReport server conn name) s c r"
    by (cases c; cases r) (simp_all add: assms, simp_all add: listReports_def showReport_def)
qed

section \<open>Properties\<close>

text \<open>C9. Paging through the reports loses and repeats nothing.  Against a server that answers every
  continuation token with a page, with any request failing at any time and any interleaving of
  clicks and replies, the list shown is exactly the first pages of the listing, in order, the token
  held is the one that continues it, and at most one page request is in flight.\<close>
theorem reports_list_is_listing:
  assumes "\<And>t. listReports server conn name t = Inr (page_from srv t)"
    and "component_run rp_init (rp_enabled D name) rp_act
      (\<lambda>s c r. rp_answer conn name s c (flaky server r)) (s, cs)"
  shows "(\<exists>n. rp_items s = Arr (fst (listing srv n)) \<and>
      rp_nextToken s = (if n = 0 then Str [] else snd (listing srv n))) \<and>
    length (filter (\<lambda>c. rp_req c \<noteq> None) cs) = (if rp_loading s then 1 else 0)"
proof -
  note run = assms(2) [unfolded rp_answer_serve [of server conn name srv, OF assms(1)]]
  have "length (page_requests rp_req cs) = length (filter (\<lambda>c. rp_req c \<noteq> None) cs)" for cs
    by (induction cs) (auto split: option.splits)
  then show ?thesis
    using rp.shown_is_listing [OF run] rp.one_page_in_flight [OF run] by simp
qed

text \<open>C21. A report page shows every counter the server keeps for a backup job: whatever value the
  report carries for it is displayed, and a counter that is missing or is no number is displayed
  as 0.\<close>
theorem detail_shows_backup_counters:
  assumes "k \<in> set backup_counters"
    and "d = Obj kvs" "map_of kvs ''stats_counters'' = Some (Obj cs)"
  shows "displays (ReportDetail D d l) (case map_of cs k of Some (Num x) \<Rightarrow> Num x | Some NaN \<Rightarrow> NaN | _ \<Rightarrow> Num 0)"
proof (rule counter_displayed)
  show "k \<in> set shown_counters"
    using assms(1) by (auto simp: backup_counters_def shown_counters_def counter_sections_def)
  have "k \<notin> set object_prototype" using assms(1) by (auto simp: backup_counters_def object_prototype_def)
  then show "counter d k = Inr (case map_of cs k of Some (Num x) \<Rightarrow> Num x | Some NaN \<Rightarrow> NaN | _ \<Rightarrow> Num 0)"
    using assms(2,3)
    by (auto simp: counter_def counters_def js_or_def obj_get_def split: option.splits jsval.splits)
qed

definition no_dates :: dates where
  "no_dates = \<lparr>date_ms = (\<lambda>_. None), date_text = (\<lambda>_. [])\<rparr>"

theorem detail_shows_backup_counters_witness:
  "displays (ReportDetail no_dates (Obj [(''stats_counters'', Obj [(''uploaded_files'', Num 7)])]) False
     :: rp_action vnode) (Num 7)"
  using detail_shows_backup_counters [of "''uploaded_files''"
      "Obj [(''stats_counters'', Obj [(''uploaded_files'', Num 7)])]"
      "[(''stats_counters'', Obj [(''uploaded_files'', Num 7)])]" "[(''uploaded_files'', Num 7)]"
      no_dates False]
  by (simp add: backup_counters_def)




text \<open>A server whose listing is one page.\<close>
definition one_page_server :: fetch where
  "one_page_server req = Reply 200 (Inr (json_text (Obj [(''result'', Arr [Str ''r1'']), (''next'', Str [])])))"

lemma one_page_server_replies [simp]:
  "jsonRequest one_page_server c p m b = Inr (Obj [(''result'', Arr [Str ''r1'']), (''next'', Str [])])"
proof -
  have "JSON_parse (json_text (Obj [(''result'', Arr [Str ''r1'']), (''next'', Str [])])) =
      Some (Obj [(''result'', Arr [Str ''r1'']), (''next'', Str [])])"
    by (rule JSON_roundtrip) simp
  then show ?thesis
    by (simp add: jsonRequest_def one_page_server_def parse_reply_def reply_failed_def obj_get_def object_prototype_def)
qed

lemma one_page_listing:
  "page_of (Obj [(''result'', Arr [Str ''r1'']), (''next'', Str [])]) =
     Inr (page_from (\<lambda>_. ([Str ''r1''], Str [])) t)"
  by (simp add: page_of_def page_from_def obj_get_def coalesce_def nullish_def)

lemma one_page_run:
  "component_run rp_init (rp_enabled D name) rp_act
     (\<lambda>s c r. rp_answer conn name s c (flaky one_page_server r))
     (rp_mounted\<lparr>rp_items := Arr [Str ''r1'']\<rparr>, [])"
proof -
  have run: "component_run rp_init (rp_enabled D name) rp_act
      (\<lambda>s c r. rp_answer conn name s c (flaky one_page_server r))
      (rp_mounted\<lparr>rp_loading := True\<rparr>, [] @ ListReports Undef # [])"
    using component_run.mounted [of rp_init] by (simp add: rp_init_def rp_loadPage_def)
  show ?thesis
    using component_run.answered [OF run, of None _ "[]"]
    by (simp add: listReports_def one_page_listing [of Undef] rp_loadPage_done_def add_page_def page_from_def
        rp_mounted_def)
qed

theorem reports_list_is_listing_witness:
  "\<exists>n. rp_items (rp_mounted\<lparr>rp_items := Arr [Str ''r1'']\<rparr>) =
     Arr (fst (listing (\<lambda>_. ([Str ''r1''], Str [])) n))"
  using reports_list_is_listing [where srv = "\<lambda>_. ([Str ''r1''], Str [])", OF _ one_page_run]
  by (simp add: listReports_def one_page_listing) blast

end
