(* ===== verification/Restore_Reports.thy ===== *)
theory Restore_Reports
  imports Reports
begin

text \<open>
  The restore report dialog of \<open>js/app.js\<close>: \<open>RestoreReportsModal\<close> with its list, and resuming a
  restore that ended early.
\<close>

section \<open>RestoreReportList\<close>

definition RestoreReportList ::
  "dates \<Rightarrow> jsval \<Rightarrow> bool \<Rightarrow> jsval \<Rightarrow> (jsval \<Rightarrow> bool) \<Rightarrow> (jsval \<Rightarrow> jsval \<Rightarrow> 'a) \<Rightarrow> 'a \<Rightarrow> 'a vnode" where
  "RestoreReportList D its loading nextToken resumable onOpen onLoadMore =
     Frag
      [with_val (get its ''length'') (\<lambda>l. show_if (len_zero l \<and> \<not> loading)
         (Elem ''div'' [cls ''empty'', sattr ''style'' ''padding:24px'']
            [lit ''No restore reports found for this backup job.''])),
       with_val (get its ''length'') (\<lambda>l. show_if (len_gt 0 l)
         (Elem ''table'' [cls ''report-table'']
           [header_cells [''Restore Job Id'', ''State'', ''Duration'', ''Start time'', ''End time'', ''''],
            Elem ''tbody'' []
             [map_nodes (Inr its) (\<lambda>it.
                Elem ''tr''
                  [cls ''clickable'',
                   onClickGet (get it ''job_id'') (\<lambda>jid. onOpen jid (get_opt it ''state''))]
                  (report_cells D it @
                   [Elem ''td'' []
                     [with_val (get it ''state'') (\<lambda>st. show_if (resumable st)
                        (Elem ''span'' [cls ''resumable-tag''] [lit ''resumable'']))]]))]])),
       load_more loading nextToken onLoadMore]"

section \<open>RestoreReportsModal\<close>

record rr_state =
  rr_items :: jsval
  rr_nextToken :: jsval
  rr_loading :: bool
  rr_error :: jsval
  rr_detail :: jsval
  rr_detailJobId :: jsval
  rr_detailState :: jsval
  rr_detailLoading :: bool
  rr_resuming :: bool
  rr_targets :: jsval
  rr_pickedTarget :: jsval

datatype rr_action =
    RLoadMore
  | ROpenDetail jsval jsval
  | RBackToList
  | RPickTarget jsval
  | RResume jsval
  | RClose

datatype rr_call =
    RListReports jsval
  | RGetConfig
  | RShowReport jsval
  | RResumeRestore jsval jsval
  | RResumed
  | RClosed

definition rr_mounted :: rr_state where
  "rr_mounted =
     \<lparr>rr_items = Arr [], rr_nextToken = Str [], rr_loading = False, rr_error = Null,
      rr_detail = Null, rr_detailJobId = Str [], rr_detailState = Str [], rr_detailLoading = False,
      rr_resuming = False, rr_targets = Arr [], rr_pickedTarget = Str []\<rparr>"

definition rr_loadPage :: "jsval \<Rightarrow> rr_state \<Rightarrow> rr_state \<times> rr_call list" where
  "rr_loadPage token s = (s\<lparr>rr_loading := True\<rparr>, [RListReports token])"

definition rr_loadPage_done :: "jsval \<Rightarrow> page jsr \<Rightarrow> rr_state \<Rightarrow> rr_state" where
  "rr_loadPage_done token reply s =
     (let s1 = (case reply of
         Inl e \<Rightarrow> s\<lparr>rr_error := Str (err_text e)\<rparr>
       | Inr r \<Rightarrow>
           (case add_page token (rr_items s) (items r) of
             Inl e \<Rightarrow> s\<lparr>rr_error := Str (err_text e)\<rparr>
           | Inr xs \<Rightarrow> s\<lparr>rr_items := xs, rr_nextToken := next r, rr_error := Null\<rparr>))
      in s1\<lparr>rr_loading := False\<rparr>)"

text \<open>\<open>(cfg?.backup ?? []).find(x => x.name === job.name)\<close>, then \<open>b?.target ?? []\<close>\<close>
fun find_by :: "(jsval \<Rightarrow> bool jsr) \<Rightarrow> jsval list \<Rightarrow> jsval jsr" where
  "find_by p [] = Inr Undef"
| "find_by p (x # xs) = bindr (p x) (\<lambda>b. if b then Inr x else find_by p xs)"

definition targets_of :: "jsval \<Rightarrow> jsval \<Rightarrow> jsval jsr" where
  "targets_of name cfg =
     bindr (array_of (coalesce (get_opt cfg ''backup'') (Arr []))) (\<lambda>bs.
     bindr (find_by (\<lambda>x. mapr (\<lambda>n. strict_eq n name) (get x ''name'')) bs) (\<lambda>b.
       Inr (coalesce (get_opt b ''target'') (Arr []))))"

text \<open>The effect that reads the targets, after its \<open>await\<close>; failures leave the state alone.\<close>
definition rr_config_done :: "jsval \<Rightarrow> jsval jsr \<Rightarrow> rr_state \<Rightarrow> rr_state" where
  "rr_config_done name reply s =
     (case bindr reply (targets_of name) of
       Inl _ \<Rightarrow> s
     | Inr t \<Rightarrow>
         let s1 = s\<lparr>rr_targets := t\<rparr> in
         (case get t ''length'' of
           Inl _ \<Rightarrow> s1
         | Inr l \<Rightarrow>
             if strict_eq l (Num 1) then
               (case bindr (first_of t) (\<lambda>x. get x ''name'') of
                 Inl _ \<Rightarrow> s1
               | Inr n \<Rightarrow> s1\<lparr>rr_pickedTarget := n\<rparr>)
             else s1))"

definition rr_openDetail :: "jsval \<Rightarrow> jsval \<Rightarrow> rr_state \<Rightarrow> rr_state \<times> rr_call list" where
  "rr_openDetail jobId st s =
     (s\<lparr>rr_detailLoading := True, rr_detailJobId := jobId, rr_detailState := st, rr_error := Null\<rparr>,
      [RShowReport jobId])"

definition rr_openDetail_done :: "jsval jsr \<Rightarrow> rr_state \<Rightarrow> rr_state" where
  "rr_openDetail_done reply s =
     (let s1 = (case reply of
         Inl e \<Rightarrow> s\<lparr>rr_detail := Null, rr_error := Str (err_text e)\<rparr>
       | Inr d \<Rightarrow> s\<lparr>rr_detail := d\<rparr>)
      in s1\<lparr>rr_detailLoading := False\<rparr>)"

definition rr_backToList :: "rr_state \<Rightarrow> rr_state" where
  "rr_backToList s = s\<lparr>rr_detail := Null, rr_detailJobId := Str [], rr_detailState := Str [], rr_error := Null\<rparr>"

definition rr_onResume :: "jsval \<Rightarrow> rr_state \<Rightarrow> rr_state \<times> rr_call list" where
  "rr_onResume jobId s =
     (if \<not> truthy (rr_pickedTarget s) then
        (s\<lparr>rr_error := Str ''Please pick a target to resume from''\<rparr>, [])
      else (s\<lparr>rr_resuming := True, rr_error := Null\<rparr>, [RResumeRestore (rr_pickedTarget s) jobId]))"

definition rr_onResume_done :: "jsval jsr \<Rightarrow> rr_state \<Rightarrow> rr_state \<times> rr_call list" where
  "rr_onResume_done reply s =
     (case reply of
       Inl e \<Rightarrow> (s\<lparr>rr_error := Str (err_text e), rr_resuming := False\<rparr>, [])
     | Inr _ \<Rightarrow> (s\<lparr>rr_resuming := False\<rparr>, [RResumed]))"

fun rr_act :: "rr_state \<Rightarrow> rr_action \<Rightarrow> rr_state \<times> rr_call list" where
  "rr_act s RLoadMore = rr_loadPage (rr_nextToken s) s"
| "rr_act s (ROpenDetail jobId st) = rr_openDetail jobId st s"
| "rr_act s RBackToList = (rr_backToList s, [])"
| "rr_act s (RPickTarget v) = (s\<lparr>rr_pickedTarget := v\<rparr>, [])"
| "rr_act s (RResume jobId) = rr_onResume jobId s"
| "rr_act s RClose = (s, [RClosed])"

fun rr_answer :: "connection \<Rightarrow> jsval \<Rightarrow> rr_state \<Rightarrow> rr_call \<Rightarrow> fetch \<Rightarrow> rr_state \<times> rr_call list" where
  "rr_answer conn name s (RListReports token) fetch =
     (rr_loadPage_done token (listRestoreReports fetch conn name token) s, [])"
| "rr_answer conn name s RGetConfig fetch = (rr_config_done name (getConfig fetch conn) s, [])"
| "rr_answer conn name s (RShowReport jobId) fetch =
     (rr_openDetail_done (showRestoreReport fetch conn name jobId) s, [])"
| "rr_answer conn name s (RResumeRestore target jobId) fetch =
     rr_onResume_done (resumeRestore fetch conn name target jobId) s"
| "rr_answer conn name s RResumed fetch = (s, [])"
| "rr_answer conn name s RClosed fetch = (s, [])"

text \<open>Mounting runs both effects.\<close>
definition rr_init :: "rr_state \<times> rr_call list" where
  "rr_init = (let (s, cs) = rr_loadPage Undef rr_mounted in (s, cs @ [RGetConfig]))"

definition showingDetail :: "rr_state \<Rightarrow> bool" where
  "showingDetail s \<longleftrightarrow> truthy (rr_detail s) \<or> truthy (rr_detailJobId s)"

definition canResumeCurrent :: "rr_state \<Rightarrow> bool" where
  "canResumeCurrent s \<longleftrightarrow> showingDetail s \<and> isResumable (rr_detailState s)"

text \<open>\<open>html`<option value=${t.name}>${t.name}${t.type ? ' - ' + t.type : ''}</option>`\<close>\<close>
definition target_option :: "jsval \<Rightarrow> 'a vnode" where
  "target_option t =
     Elem ''option'' [Attr ''value'' (get t ''name'')]
       [dyn (get t ''name''),
        with_val (get t ''type'') (\<lambda>ty. if truthy ty then lit ('' - '' @ to_str ty) else lit '''')]"

definition resume_bar :: "bool \<Rightarrow> rr_state \<Rightarrow> rr_action vnode" where
  "resume_bar restoreInProgress s =
     Elem ''div'' [cls ''resume-bar'']
       [Elem ''span'' [cls ''muted'']
          [lit ''This restore is in '', Elem ''strong'' [] [val (rr_detailState s)],
           lit '' state and can be resumed.''],
        with_val (get (rr_targets s) ''length'') (\<lambda>l. show_if (len_gt 1 l)
          (Elem ''label'' [cls ''muted'', sattr ''style'' ''text-transform:none;letter-spacing:0'']
            [lit ''Target:'',
             Elem ''select'' [Attr ''value'' (Inr (rr_pickedTarget s)), onValue ''change'' RPickTarget]
               [Elem ''option'' [sattr ''value'' ''''] [lit ''(pick one)''],
                map_nodes (Inr (rr_targets s)) target_option]])),
        Elem ''button''
          [cls ''primary'',
           battr ''disabled'' (rr_resuming s \<or> restoreInProgress \<or> \<not> truthy (rr_pickedTarget s)),
           onClick (RResume (rr_detailJobId s))]
          [lit (if rr_resuming s then ''Resuming...'' else ''Resume restore'')],
        show_if restoreInProgress
          (Elem ''span'' [cls ''muted''] [lit ''A restore for this job is already running.''])]"

definition RestoreReportsModal :: "dates \<Rightarrow> jsval \<Rightarrow> bool \<Rightarrow> rr_state \<Rightarrow> rr_action vnode" where
  "RestoreReportsModal D name restoreInProgress s =
     Elem ''div'' [cls ''modal-backdrop'', onSelfClick RClose]
      [Elem ''div'' [cls ''modal modal-wide'', sattr ''role'' ''dialog'', sattr ''aria-modal'' ''true'']
        [Elem ''header'' []
          [Elem ''h2'' []
             [if showingDetail s then Frag [lit ''Restore report: '', val name]
              else Frag [lit ''Restore reports: '', val name]],
           Elem ''div'' [sattr ''style'' ''display:flex;gap:8px'']
             [show_if (showingDetail s) (Elem ''button'' [onClick RBackToList] [lit ''<- Back to list'']),
              Elem ''button'' [onClick RClose] [lit ''Close'']]],
         Elem ''div'' [cls ''body'']
          [show_if (truthy (rr_error s)) (Elem ''div'' [cls ''error''] [val (rr_error s)]),
           show_if (canResumeCurrent s) (resume_bar restoreInProgress s),
           if showingDetail s then
             (if truthy (rr_detail s) then ReportDetail D (rr_detail s) (rr_detailLoading s)
              else Elem ''div'' [cls ''muted'']
                [if rr_detailLoading s then Frag [Elem ''span'' [cls ''spinner''] [], lit '' Loading...'']
                 else lit ''No report payload available.''])
           else RestoreReportList D (rr_items s) (rr_loading s) (rr_nextToken s) isResumable
             ROpenDetail RLoadMore]]]"

text \<open>The parent passes whether a restore of the job is running; it may change at any time.\<close>
definition rr_enabled :: "dates \<Rightarrow> jsval \<Rightarrow> rr_state \<Rightarrow> rr_action \<Rightarrow> bool" where
  "rr_enabled D name s a = (\<exists>restoreInProgress. offers (RestoreReportsModal D name restoreInProgress s) a)"

section \<open>Lemmas\<close>

lemma offers_target_option [simp]: "\<not> offers (target_option t) a"
  by (simp add: target_option_def split: if_splits)

lemma offers_RestoreReportList:
  "offers (RestoreReportList D xs l t p onOpen m) a \<longleftrightarrow>
     truthy t \<and> \<not> l \<and> a = m \<or>
     (\<exists>vs it jid. xs = Arr vs \<and> it \<in> set vs \<and> get it ''job_id'' = Inr jid \<and> a = onOpen jid (get_opt it ''state''))"
  by (cases xs)
    (auto simp: RestoreReportList_def len_gt_def len_zero_def of_nat_0_less_iff length_pos_if_in_set)

lemma offers_resume_bar:
  "offers (resume_bar p s) a \<longleftrightarrow>
     (\<exists>v n. a = RPickTarget v \<and> get (rr_targets s) ''length'' = Inr (Num n) \<and> 1 < n) \<or>
     \<not> rr_resuming s \<and> \<not> p \<and> truthy (rr_pickedTarget s) \<and> a = RResume (rr_detailJobId s)"
  by (auto simp: resume_bar_def len_gt_iff)

lemma offers_RestoreReportsModal:
  "offers (RestoreReportsModal D name p s) a \<longleftrightarrow>
     a = RClose \<or> canResumeCurrent s \<and> offers (resume_bar p s) a \<or>
     (if showingDetail s then a = RBackToList
      else offers (RestoreReportList D (rr_items s) (rr_loading s) (rr_nextToken s) isResumable
        ROpenDetail RLoadMore) a)"
  by (auto simp: RestoreReportsModal_def)

section \<open>The dialog is a pager\<close>

fun or_fail :: "js_error option \<Rightarrow> 'a jsr \<Rightarrow> 'a jsr" where
  "or_fail None r = r"
| "or_fail (Some e) r = Inl e"

text \<open>The dialog against a server given by its pages and its other replies, where every request may fail.\<close>
fun rr_serve :: "jsval \<Rightarrow> server_pages \<Rightarrow> jsval jsr \<Rightarrow> (jsval \<Rightarrow> jsval jsr) \<Rightarrow> (jsval \<Rightarrow> jsval \<Rightarrow> jsval jsr) \<Rightarrow>
    rr_state \<Rightarrow> rr_call \<Rightarrow> js_error option \<Rightarrow> rr_state \<times> rr_call list" where
  "rr_serve name srv cfg report resume s (RListReports t) r =
     (rr_loadPage_done t (or_fail r (Inr (page_from srv t))) s, [])"
| "rr_serve name srv cfg report resume s RGetConfig r = (rr_config_done name (or_fail r cfg) s, [])"
| "rr_serve name srv cfg report resume s (RShowReport jid) r = (rr_openDetail_done (or_fail r (report jid)) s, [])"
| "rr_serve name srv cfg report resume s (RResumeRestore tgt jid) r =
     rr_onResume_done (or_fail r (resume tgt jid)) s"
| "rr_serve name srv cfg report resume s RResumed r = (s, [])"
| "rr_serve name srv cfg report resume s RClosed r = (s, [])"

fun rr_req :: "rr_call \<Rightarrow> jsval option" where
  "rr_req (RListReports t) = Some t"
| "rr_req _ = None"

fun rr_resume_of :: "rr_call \<Rightarrow> (jsval \<times> jsval) option" where
  "rr_resume_of (RResumeRestore tgt jid) = Some (tgt, jid)"
| "rr_resume_of _ = None"

lemma rr_loadPage_done_simps [simp]:
  "\<not> rr_loading (rr_loadPage_done t r s)"
  "rr_items (rr_loadPage_done t (Inl e) s) = rr_items s"
  "rr_nextToken (rr_loadPage_done t (Inl e) s) = rr_nextToken s"
  "rr_detailJobId (rr_loadPage_done t r s) = rr_detailJobId s"
  "rr_detailState (rr_loadPage_done t r s) = rr_detailState s"
  "rr_resuming (rr_loadPage_done t r s) = rr_resuming s"
  by (simp_all add: rr_loadPage_done_def Let_def split: sum.splits)

lemma rr_openDetail_done_simps [simp]:
  "rr_items (rr_openDetail_done r s) = rr_items s"
  "rr_nextToken (rr_openDetail_done r s) = rr_nextToken s"
  "rr_loading (rr_openDetail_done r s) = rr_loading s"
  "rr_detailJobId (rr_openDetail_done r s) = rr_detailJobId s"
  "rr_detailState (rr_openDetail_done r s) = rr_detailState s"
  "rr_resuming (rr_openDetail_done r s) = rr_resuming s"
  by (simp_all add: rr_openDetail_done_def Let_def split: sum.splits)

lemma rr_config_done_simps [simp]:
  "rr_items (rr_config_done n r s) = rr_items s"
  "rr_nextToken (rr_config_done n r s) = rr_nextToken s"
  "rr_loading (rr_config_done n r s) = rr_loading s"
  "rr_detailJobId (rr_config_done n r s) = rr_detailJobId s"
  "rr_detailState (rr_config_done n r s) = rr_detailState s"
  "rr_resuming (rr_config_done n r s) = rr_resuming s"
  by (simp_all add: rr_config_done_def Let_def split: sum.splits)

lemma rr_onResume_done_simps [simp]:
  "rr_items (fst (rr_onResume_done r s)) = rr_items s"
  "rr_nextToken (fst (rr_onResume_done r s)) = rr_nextToken s"
  "rr_loading (fst (rr_onResume_done r s)) = rr_loading s"
  "rr_detailJobId (fst (rr_onResume_done r s)) = rr_detailJobId s"
  "rr_detailState (fst (rr_onResume_done r s)) = rr_detailState s"
  "\<not> rr_resuming (fst (rr_onResume_done r s))"
  "page_requests rr_req (snd (rr_onResume_done r s)) = []"
  "filter (\<lambda>c. rr_resume_of c \<noteq> None) (snd (rr_onResume_done r s)) = []"
  by (simp_all add: rr_onResume_done_def split: sum.splits)

lemmas rr_handlers = rr_loadPage_def rr_openDetail_def rr_backToList_def rr_onResume_def

interpretation rr: pager rr_init "rr_enabled D name" rr_act "rr_serve name srv cfg report resume" rr_req
  rr_items rr_nextToken rr_loading srv
proof unfold_locales
  fix s a
  assume "rr_enabled D name s a"
  then have "a = RLoadMore \<Longrightarrow> truthy (rr_nextToken s) \<and> \<not> rr_loading s"
    by (auto simp: rr_enabled_def offers_RestoreReportsModal offers_RestoreReportList offers_resume_bar
        split: if_splits)
  then show "rr_items (fst (rr_act s a)) = rr_items s \<and> rr_nextToken (fst (rr_act s a)) = rr_nextToken s \<and>
      (rr_loading (fst (rr_act s a)) = rr_loading s \<and> page_requests rr_req (snd (rr_act s a)) = [] \<or>
       \<not> rr_loading s \<and> truthy (rr_nextToken s) \<and> rr_loading (fst (rr_act s a)) \<and>
       page_requests rr_req (snd (rr_act s a)) = [rr_nextToken s])"
    by (cases a) (simp_all add: rr_handlers)
next
  fix c s r
  let ?s = "fst (rr_serve name srv cfg report resume s c r)"
  assume "rr_req c = None"
  then show "rr_items ?s = rr_items s \<and> rr_nextToken ?s = rr_nextToken s \<and> rr_loading ?s = rr_loading s \<and>
      page_requests rr_req (snd (rr_serve name srv cfg report resume s c r)) = []"
    by (cases c) simp_all
next
  fix c t s r
  let ?s = "fst (rr_serve name srv cfg report resume s c r)"
  assume "rr_req c = Some t"
  then have "c = RListReports t" by (cases c) simp_all
  then show "\<not> rr_loading ?s \<and> page_requests rr_req (snd (rr_serve name srv cfg report resume s c r)) = [] \<and>
      (rr_items ?s = rr_items s \<and> rr_nextToken ?s = rr_nextToken s \<or>
       add_page t (rr_items s) (Arr (fst (srv t))) = Inr (rr_items ?s) \<and> rr_nextToken ?s = snd (srv t))"
    by (cases r) (auto simp: rr_loadPage_done_def page_from_def Let_def split: sum.splits)
qed (simp_all add: rr_init_def rr_loadPage_def rr_mounted_def)

lemma rr_answer_serve:
  assumes "\<And>t. listRestoreReports server conn name t = Inr (page_from srv t)"
  shows "(\<lambda>s c r. rr_answer conn name s c (flaky server r)) =
    rr_serve name srv (getConfig server conn) (showRestoreReport server conn name)
      (resumeRestore server conn name)"
proof (intro ext)
  fix s c r
  show "rr_answer conn name s c (flaky server r) =
      rr_serve name srv (getConfig server conn) (showRestoreReport server conn name)
        (resumeRestore server conn name) s c r"
    by (cases c; cases r)
      (simp_all add: assms, simp_all add: listRestoreReports_def showRestoreReport_def getConfig_def resumeRestore_def)
qed

section \<open>What is resumed\<close>

text \<open>The server has listed the restore \<open>jid\<close> in state \<open>st\<close>.\<close>
definition listed :: "server_pages \<Rightarrow> jsval \<Rightarrow> jsval \<Rightarrow> bool" where
  "listed srv jid st \<longleftrightarrow>
     (\<exists>n. \<exists>it \<in> set (fst (listing srv n)). get it ''job_id'' = Inr jid \<and> get_opt it ''state'' = st)"

definition resumes_ok :: "server_pages \<Rightarrow> rr_state \<Rightarrow> rr_call list \<Rightarrow> bool" where
  "resumes_ok srv s cs \<longleftrightarrow>
     (isResumable (rr_detailState s) \<longrightarrow> listed srv (rr_detailJobId s) (rr_detailState s)) \<and>
     (\<forall>c \<in> set cs. \<forall>tgt jid. rr_resume_of c = Some (tgt, jid) \<longrightarrow>
        truthy tgt \<and> (\<exists>st. isResumable st \<and> listed srv jid st)) \<and>
     length (filter (\<lambda>c. rr_resume_of c \<noteq> None) cs) = (if rr_resuming s then 1 else 0)"

lemma resumes_ok_act:
  assumes paged: "rr_items s = Arr (fst (listing srv n))" and ok: "resumes_ok srv s cs" and en: "rr_enabled D name s a"
  shows "resumes_ok srv (fst (rr_act s a)) (cs @ snd (rr_act s a))"
proof (cases a)
  case (ROpenDetail jid st)
  then have "\<not> showingDetail s" and
      "\<exists>it \<in> set (fst (listing srv n)). get it ''job_id'' = Inr jid \<and> st = get_opt it ''state''"
    using en paged
    by (auto simp: rr_enabled_def offers_RestoreReportsModal offers_RestoreReportList offers_resume_bar split: if_splits)
  then have "listed srv jid st" by (auto simp: listed_def)
  then show ?thesis using ok ROpenDetail by (simp add: resumes_ok_def rr_handlers)
next
  case (RResume jid)
  then have "isResumable (rr_detailState s)" "jid = rr_detailJobId s" "\<not> rr_resuming s" "truthy (rr_pickedTarget s)"
    using en by (auto simp: rr_enabled_def offers_RestoreReportsModal offers_RestoreReportList offers_resume_bar
        canResumeCurrent_def split: if_splits)
  then show ?thesis using ok RResume by (auto simp: resumes_ok_def rr_handlers)
qed (use ok in \<open>auto simp: resumes_ok_def rr_handlers isResumable_def\<close>)

lemma resumes_ok_answer:
  assumes "resumes_ok srv s (cs1 @ c # cs2)"
  shows "resumes_ok srv (fst (rr_serve name srv cfg report resume s c r))
    (cs1 @ cs2 @ snd (rr_serve name srv cfg report resume s c r))"
  using assms
proof (cases c)
  case (RResumeRestore tgt jid)
  let ?new = "snd (rr_onResume_done (or_fail r (resume tgt jid)) s)"
  have "\<forall>x \<in> set ?new. rr_resume_of x = None"
    by (auto simp: rr_onResume_done_def split: sum.splits)
  moreover have "filter (\<lambda>c. rr_resume_of c \<noteq> None) (cs1 @ cs2) = []"
    using assms RResumeRestore by (auto simp: resumes_ok_def split: if_splits)
  ultimately have "\<forall>x \<in> set (cs1 @ cs2 @ ?new). rr_resume_of x = None"
    by (auto simp: filter_empty_conv simp del: not_None_eq)
  then have "resumes_ok srv (fst (rr_onResume_done (or_fail r (resume tgt jid)) s)) (cs1 @ cs2 @ ?new)"
    using assms unfolding resumes_ok_def by (auto simp: filter_empty_conv)
  then show ?thesis using RResumeRestore by simp
qed (auto simp: resumes_ok_def)

interpretation rr_resume: component_invariant rr_init "rr_enabled D name" rr_act
  "rr_serve name srv cfg report resume"
  "\<lambda>s cs. rr.paged srv s cs \<and> resumes_ok srv s cs"
proof unfold_locales
  show "rr.paged srv (fst rr_init) (snd rr_init) \<and> resumes_ok srv (fst rr_init) (snd rr_init)"
    using rr.init_ok [of srv] by (auto simp: resumes_ok_def rr_init_def rr_loadPage_def rr_mounted_def isResumable_def)
next
  fix s cs a
  assume *: "rr.paged srv s cs \<and> resumes_ok srv s cs" "rr_enabled D name s a"
  then obtain n where "rr_items s = Arr (fst (listing srv n))" unfolding rr.paged_def by blast
  then show "rr.paged srv (fst (rr_act s a)) (cs @ snd (rr_act s a)) \<and>
      resumes_ok srv (fst (rr_act s a)) (cs @ snd (rr_act s a))"
    using * rr.act_paged resumes_ok_act by blast
next
  fix s cs1 c cs2 r
  assume "rr.paged srv s (cs1 @ c # cs2) \<and> resumes_ok srv s (cs1 @ c # cs2)"
  then show "rr.paged srv (fst (rr_serve name srv cfg report resume s c r))
        (cs1 @ cs2 @ snd (rr_serve name srv cfg report resume s c r)) \<and>
      resumes_ok srv (fst (rr_serve name srv cfg report resume s c r))
        (cs1 @ cs2 @ snd (rr_serve name srv cfg report resume s c r))"
    using rr.answer_paged resumes_ok_answer by blast
qed

section \<open>Properties\<close>

text \<open>C6. A restore is resumed only if it can be: in every run against a server that may fail at any
  request, every resume request in flight names a non-empty target and a restore the server itself
  listed in a resumable state, and at most one resume request is in flight.\<close>
theorem resume_only_resumable:
  assumes "\<And>t. listRestoreReports server conn name t = Inr (page_from srv t)"
    and "component_run rr_init (rr_enabled D name) rr_act
      (\<lambda>s c r. rr_answer conn name s c (flaky server r)) (s, cs)"
  shows "(\<forall>tgt jid. RResumeRestore tgt jid \<in> set cs \<longrightarrow>
      truthy tgt \<and> (\<exists>st. isResumable st \<and> listed srv jid st)) \<and>
    length (filter (\<lambda>c. rr_resume_of c \<noteq> None) cs) = (if rr_resuming s then 1 else 0)"
proof -
  note run = assms(2) [unfolded rr_answer_serve [of server conn name srv, OF assms(1)]]
  have "resumes_ok srv s cs" using rr_resume.run_ok [OF run] by simp
  then show ?thesis unfolding resumes_ok_def by force
qed

text \<open>The list of restore reports, like that of backup reports, is always exactly the first pages of
  the server's listing.\<close>
theorem restore_reports_list_is_listing:
  assumes "\<And>t. listRestoreReports server conn name t = Inr (page_from srv t)"
    and "component_run rr_init (rr_enabled D name) rr_act
      (\<lambda>s c r. rr_answer conn name s c (flaky server r)) (s, cs)"
  shows "\<exists>n. rr_items s = Arr (fst (listing srv n)) \<and>
    rr_nextToken s = (if n = 0 then Str [] else snd (listing srv n))"
  using rr.shown_is_listing [OF assms(2) [unfolded rr_answer_serve [of server conn name srv, OF assms(1)]]] .

text \<open>When the resume button can be used, and what it does: it is offered exactly when a detail page
  with a resumable state is open, no restore of the job is running, no resume is under way and a
  target is picked; the request then goes to \<open>/restore/resume\<close> with the job, that target and the id of the
  open page, success closes the dialog and failure shows the server's message and re-enables it.\<close>
theorem resume_button:
  "(offers (RestoreReportsModal D name p s) (RResume jid) \<longleftrightarrow>
      (truthy (rr_detail s) \<or> truthy (rr_detailJobId s)) \<and> isResumable (rr_detailState s) \<and> \<not> p \<and>
      \<not> rr_resuming s \<and> truthy (rr_pickedTarget s) \<and> jid = rr_detailJobId s) \<and>
   (case resumeRestore fetch conn name tgt jid of
      Inr _ \<Rightarrow> rr_answer conn name s (RResumeRestore tgt jid) fetch = (s\<lparr>rr_resuming := False\<rparr>, [RResumed])
    | Inl e \<Rightarrow> rr_answer conn name s (RResumeRestore tgt jid) fetch =
        (s\<lparr>rr_error := Str (err_text e), rr_resuming := False\<rparr>, []))"
  by (auto simp: offers_RestoreReportsModal offers_RestoreReportList offers_resume_bar canResumeCurrent_def
      showingDetail_def rr_onResume_done_def split: sum.splits if_splits)

text \<open>C35. A late reply replaces the open page: from any list that shows two restores, opening the first,
  going back, opening the second and then receiving the second reply before the first leaves the
  report of the first on screen while the page, its state and its resume button belong to the second.\<close>
theorem late_detail_reply_mismatch:
  fixes s
  assumes "rr_items s = Arr [ita, itb]" "get ita ''job_id'' = Inr a" "get itb ''job_id'' = Inr b"
    and "\<not> showingDetail s" "truthy a" "truthy (rr_pickedTarget s)" "\<not> rr_resuming s"
    and "isResumable (get_opt itb ''state'')"
    and "showRestoreReport server conn name a = Inr ra" "showRestoreReport server conn name b = Inr rb"
    and "truthy ra"
  defines "s1 \<equiv> fst (rr_act s (ROpenDetail a (get_opt ita ''state'')))"
  defines "s2 \<equiv> fst (rr_act s1 RBackToList)"
  defines "s3 \<equiv> fst (rr_act s2 (ROpenDetail b (get_opt itb ''state'')))"
  defines "s4 \<equiv> fst (rr_answer conn name s3 (RShowReport b) server)"
  defines "s5 \<equiv> fst (rr_answer conn name s4 (RShowReport a) server)"
  shows "rr_enabled D name s (ROpenDetail a (get_opt ita ''state'')) \<and> rr_enabled D name s1 RBackToList \<and>
    rr_enabled D name s2 (ROpenDetail b (get_opt itb ''state'')) \<and>
    rr_detail s5 = ra \<and> rr_detailJobId s5 = b \<and> offers (RestoreReportsModal D name False s5) (RResume b)"
proof -
  have s1: "rr_items s1 = Arr [ita, itb]" "rr_detailJobId s1 = a" "rr_pickedTarget s1 = rr_pickedTarget s"
      "rr_resuming s1 = rr_resuming s"
    using assms(1) by (simp_all add: s1_def rr_handlers)
  have s2: "rr_items s2 = Arr [ita, itb]" "\<not> showingDetail s2" "rr_pickedTarget s2 = rr_pickedTarget s"
      "rr_resuming s2 = rr_resuming s"
    using s1 by (simp_all add: s2_def rr_handlers showingDetail_def)
  have s5: "rr_detail s5 = ra" "rr_detailJobId s5 = b" "rr_detailState s5 = get_opt itb ''state''"
      "rr_pickedTarget s5 = rr_pickedTarget s" "\<not> rr_resuming s5"
    using s2(3,4) assms(7,9,10)
    by (simp_all add: s5_def s4_def s3_def rr_openDetail_done_def rr_handlers)
  have "rr_enabled D name s (ROpenDetail a (get_opt ita ''state''))"
      "rr_enabled D name s2 (ROpenDetail b (get_opt itb ''state''))"
    using assms(1-4) s2(1,2)
    by (auto simp: rr_enabled_def offers_RestoreReportsModal offers_RestoreReportList)
  moreover have "rr_enabled D name s1 RBackToList"
    using s1(2) assms(5) by (simp add: rr_enabled_def offers_RestoreReportsModal showingDetail_def)
  ultimately show ?thesis
    using s5 assms(6,8,11)
    by (simp add: offers_RestoreReportsModal offers_resume_bar canResumeCurrent_def showingDetail_def)
qed

section \<open>Examples\<close>

text \<open>A server with one failed restore and one target.\<close>
definition sample_config :: jsval where
  "sample_config = Obj [(''result'', Obj [(''backup'',
     Arr [Obj [(''name'', Str ''home''), (''target'', Arr [Obj [(''name'', Str ''t1'')]])]])])]"

definition sample_failed :: jsval where
  "sample_failed = Obj [(''job_id'', Str ''r1''), (''state'', Str ''failed'')]"

definition sample_list :: jsval where
  "sample_list = Obj [(''result'', Arr [sample_failed]), (''next'', Str [])]"

definition restore_server :: fetch where
  "restore_server req =
     Reply 200 (Inr (json_text (if req_method req = ''GET'' then sample_config else sample_list)))"

lemma restore_server_replies [simp]:
  "jsonRequest restore_server c p ''GET'' b = Inr sample_config"
  "jsonRequest restore_server c p ''POST'' b = Inr sample_list"
proof -
  have "JSON_parse (json_text sample_config) = Some sample_config" "JSON_parse (json_text sample_list) = Some sample_list"
    by (rule JSON_roundtrip; simp add: sample_config_def sample_list_def sample_failed_def)+
  then show "jsonRequest restore_server c p ''GET'' b = Inr sample_config"
      "jsonRequest restore_server c p ''POST'' b = Inr sample_list"
    by (simp_all add: jsonRequest_def restore_server_def json_request_def parse_reply_def reply_failed_def)
      (simp_all add: sample_config_def sample_list_def obj_get_def object_prototype_def)
qed

definition sample_pages :: server_pages where
  "sample_pages t = ([sample_failed], Str [])"

lemma restore_server_pages: "listRestoreReports restore_server c n t = Inr (page_from sample_pages t)"
  by (simp add: listRestoreReports_def sample_list_def page_of_def page_from_def sample_pages_def obj_get_def
      coalesce_def nullish_def)

lemma restore_server_config [simp]:
  "getConfig restore_server c = Inr (Obj [(''backup'',
     Arr [Obj [(''name'', Str ''home''), (''target'', Arr [Obj [(''name'', Str ''t1'')]])]])])"
  by (simp add: getConfig_def sample_config_def obj_get_def coalesce_def nullish_def)

lemma sample_targets [simp]:
  "targets_of (Str ''home'') (Obj [(''backup'',
     Arr [Obj [(''name'', Str ''home''), (''target'', Arr [Obj [(''name'', Str ''t1'')]])]])]) =
   Inr (Arr [Obj [(''name'', Str ''t1'')]])"
  by (simp add: targets_of_def obj_get_def coalesce_def nullish_def)

abbreviation sample_run :: "rr_state \<times> rr_call list \<Rightarrow> bool" where
  "sample_run \<equiv> component_run rr_init (rr_enabled no_dates (Str ''home'')) rr_act
     (\<lambda>s c r. rr_answer sample_conn (Str ''home'') s c (flaky restore_server r))"

definition sample_loaded :: rr_state where
  "sample_loaded = rr_mounted\<lparr>rr_items := Arr [sample_failed], rr_targets := Arr [Obj [(''name'', Str ''t1'')]],
     rr_pickedTarget := Str ''t1''\<rparr>"

lemma sample_run_loaded: "sample_run (sample_loaded, [])"
proof -
  have "sample_run (rr_mounted\<lparr>rr_loading := True\<rparr>, [RListReports Undef, RGetConfig])"
    using component_run.mounted [of rr_init] by (simp add: rr_init_def rr_loadPage_def)
  from run_answer_first [OF this, of None]
  have "sample_run (rr_mounted\<lparr>rr_items := Arr [sample_failed]\<rparr>, [RGetConfig])"
    by (simp add: restore_server_pages rr_loadPage_done_def page_from_def sample_pages_def add_page_def rr_mounted_def)
  from run_answer_first [OF this, of None] show ?thesis
    by (simp add: rr_config_done_def sample_loaded_def obj_get_def)
qed

definition sample_open :: rr_state where
  "sample_open = sample_loaded\<lparr>rr_detailLoading := True, rr_detailJobId := Str ''r1'', rr_detailState := Str ''failed''\<rparr>"

lemma sample_run_open: "sample_run (sample_open, [RShowReport (Str ''r1'')])"
proof -
  have "rr_enabled no_dates (Str ''home'') sample_loaded (ROpenDetail (Str ''r1'') (Str ''failed''))"
    by (simp add: rr_enabled_def offers_RestoreReportsModal offers_RestoreReportList showingDetail_def
        sample_loaded_def rr_mounted_def sample_failed_def obj_get_def)
  from run_act [OF sample_run_loaded, OF this] show ?thesis
    by (simp add: rr_handlers sample_open_def sample_loaded_def rr_mounted_def)
qed

lemma sample_run_resuming:
  "sample_run (sample_open\<lparr>rr_resuming := True\<rparr>,
     [RShowReport (Str ''r1''), RResumeRestore (Str ''t1'') (Str ''r1'')])"
proof -
  have "rr_enabled no_dates (Str ''home'') sample_open (RResume (Str ''r1''))"
    unfolding rr_enabled_def
    by (rule exI [of _ False])
      (simp add: offers_RestoreReportsModal offers_resume_bar canResumeCurrent_def isResumable_def
        showingDetail_def sample_open_def sample_loaded_def rr_mounted_def)
  from run_act [OF sample_run_open, OF this] show ?thesis
    by (simp add: rr_handlers sample_open_def sample_loaded_def rr_mounted_def)
qed

theorem resume_only_resumable_witness:
  "\<exists>st. isResumable st \<and> listed sample_pages (Str ''r1'') st"
  using resume_only_resumable [OF restore_server_pages sample_run_resuming] by simp

theorem restore_reports_list_is_listing_witness:
  "\<exists>n. rr_items sample_loaded = Arr (fst (listing sample_pages n))"
  using restore_reports_list_is_listing [OF restore_server_pages sample_run_loaded] by blast

text \<open>The race, with two failed restores whose reports are the listing itself.\<close>
theorem late_detail_reply_mismatch_witness:
  "let item = (\<lambda>j. Obj [(''job_id'', Str j), (''state'', Str ''failed'')]);
       s = rr_mounted\<lparr>rr_items := Arr [item ''A'', item ''B''], rr_pickedTarget := Str ''t1''\<rparr>
   in rr_enabled no_dates (Str ''home'') s (ROpenDetail (Str ''A'') (Str ''failed''))"
  using late_detail_reply_mismatch
    [of "rr_mounted\<lparr>rr_items := Arr [Obj [(''job_id'', Str ''A''), (''state'', Str ''failed'')],
           Obj [(''job_id'', Str ''B''), (''state'', Str ''failed'')]], rr_pickedTarget := Str ''t1''\<rparr>"
        "Obj [(''job_id'', Str ''A''), (''state'', Str ''failed'')]"
        "Obj [(''job_id'', Str ''B''), (''state'', Str ''failed'')]"
        "Str ''A''" "Str ''B''" restore_server sample_conn "Str ''home''" "Arr [sample_failed]" "Arr [sample_failed]" no_dates]
  by (simp add: obj_get_def showingDetail_def rr_mounted_def isResumable_def showRestoreReport_def require_result_def
      sample_list_def)

end
