(* ===== verification/Sse_Stream.thy ===== *)
theory Sse_Stream
  imports Api
begin

text \<open>
  The live event stream of \<open>js/api.js\<close>: \<open>streamSseEvents\<close> with its line handler, \<open>watchBackup\<close>
  and \<open>watchRestore\<close>.

  The stream is the list of outcomes of \<open>reader.read()\<close>: chunks of text (after the streaming
  \<open>TextDecoder\<close>), the end, or a failure (an abort is the failure named \<open>AbortError\<close>).  What the
  function does is the list of callbacks it invokes, in order.  Exceptions that \<open>onEvent\<close> throws
  are swallowed by the source and so leave no trace.
\<close>

datatype callback = OnEvent jsval | OnClose string | OnError js_error

datatype read_result = Chunk string | Done | ReadFail js_error

datatype stream_reply =
    StreamFail js_error
  | StreamReply nat bool "string jsr" "read_result list"

section \<open>The line handler and the read loop\<close>

text \<open>\<open>line.replace(/^data:\s?/, '')\<close> on a line that starts with \<open>data:\<close>\<close>
definition strip_data :: "string \<Rightarrow> string" where
  "strip_data line =
     (case drop 5 line of [] \<Rightarrow> [] | c # r \<Rightarrow> if is_js_space c then r else c # r)"

definition is_terminator :: "string \<Rightarrow> bool" where
  "is_terminator data \<longleftrightarrow>
     startsWith data ''Backup job '' \<or> startsWith data ''Restore job '' \<or> startsWith data ''Completed run''"

definition handleLine :: "string \<Rightarrow> callback list \<times> bool" where
  "handleLine rawLine =
     (let line = strip_one_trailing char_cr rawLine in
      if \<not> startsWith line ''data:'' then ([], False)
      else let data = strip_data line in
        if data = [] then ([], False)
        else if is_terminator data then ([OnClose data], True)
        else case JSON_parse data of
            Some v \<Rightarrow> ([OnEvent v], False)
          | None \<Rightarrow> ([], False))"

text \<open>The inner loop over the buffer; \<open>None\<close> for the remaining buffer means the function returned.\<close>
lemma index_of_drop_less: "index_of c s = Some i \<Longrightarrow> length (drop (Suc i) s) < length s"
  by (induction s arbitrary: i) (auto split: if_splits)

function drain :: "string \<Rightarrow> callback list \<times> string option" where
  "drain buf =
     (case index_of char_nl buf of
       None \<Rightarrow> ([], Some buf)
     | Some nl \<Rightarrow>
         (case handleLine (take nl buf) of
           (cs, True) \<Rightarrow> (cs, None)
         | (cs, False) \<Rightarrow> (case drain (drop (nl + 1) buf) of (cs', r) \<Rightarrow> (cs @ cs', r))))"
  by pat_completeness auto
termination
  by (relation "measure length") (auto dest: index_of_drop_less)

declare drain.simps [simp del]

text \<open>One chunk: \<open>buf += value\<close>, then the inner loop.\<close>
definition feed :: "string \<Rightarrow> string \<Rightarrow> callback list \<times> string option" where
  "feed buf chunk = drain (buf @ chunk)"

fun pump :: "string \<Rightarrow> read_result list \<Rightarrow> callback list" where
  "pump buf [] = []"
| "pump buf (Chunk s # rs) =
     (case feed buf s of
       (cs, None) \<Rightarrow> cs
     | (cs, Some buf') \<Rightarrow> cs @ pump buf' rs)"
| "pump buf (Done # rs) =
     (case (if buf \<noteq> [] then handleLine buf else ([], False)) of
       (cs, True) \<Rightarrow> cs
     | (cs, False) \<Rightarrow> cs @ [OnClose ''stream ended''])"
| "pump buf (ReadFail e # rs) = (if exn_name e = ''AbortError'' then [] else [OnError e])"

definition stream_request :: "connection \<Rightarrow> string \<Rightarrow> jsval \<Rightarrow> request" where
  "stream_request c path body =
     \<lparr>req_url = url c path, req_method = ''POST'',
      req_headers = [(''Content-Type'', ''application/json''), (''Accept'', ''text/event-stream'')] @ authHeader c,
      req_body = JSON_stringify body\<rparr>"

definition streamSseEvents :: "(request \<Rightarrow> stream_reply) \<Rightarrow> connection \<Rightarrow> string \<Rightarrow> jsval \<Rightarrow> callback list" where
  "streamSseEvents fetch c path body =
     (case fetch (stream_request c path body) of
       StreamFail e \<Rightarrow> (if exn_name e = ''AbortError'' then [] else [OnError e])
     | StreamReply status has_body body_text reads \<Rightarrow>
         if \<not> res_ok status \<or> \<not> has_body then
           (let text = (case body_text of Inl _ \<Rightarrow> [] | Inr t \<Rightarrow> t) in
            [OnError (mk_Error (''HTTP '' @ show_nat status @
               (if text \<noteq> [] then '': '' @ take 200 text else [])))])
         else pump [] reads)"

definition watchBackup :: "(request \<Rightarrow> stream_reply) \<Rightarrow> connection \<Rightarrow> jsval \<Rightarrow> jsval \<Rightarrow> callback list" where
  "watchBackup fetch c name jobId =
     streamSseEvents fetch c ''/backup/watch'' (Obj [(''name'', name), (''job_id'', jobId)])"

definition watchRestore :: "(request \<Rightarrow> stream_reply) \<Rightarrow> connection \<Rightarrow> jsval \<Rightarrow> jsval \<Rightarrow> callback list" where
  "watchRestore fetch c name restoreJobId =
     streamSseEvents fetch c ''/restore/watch'' (Obj [(''name'', name), (''restore_job_id'', restoreJobId)])"

section \<open>Reference: a stream is its list of lines\<close>

text \<open>What the stream means, without buffers and chunks: handle the lines of the whole text one by
  one until the first terminator line; if there is none, report the end.\<close>
fun run_lines :: "string list \<Rightarrow> callback list" where
  "run_lines [] = [OnClose ''stream ended'']"
| "run_lines (l # ls) =
     (case handleLine l of (cs, True) \<Rightarrow> cs | (cs, False) \<Rightarrow> cs @ run_lines ls)"

fun is_final :: "callback \<Rightarrow> bool" where
  "is_final (OnEvent _) = False"
| "is_final (OnClose _) = True"
| "is_final (OnError _) = True"

section \<open>Interface: an incremental consumer\<close>

fun feed_all :: "('s \<Rightarrow> 'i list \<Rightarrow> 'o list \<times> 's option) \<Rightarrow> 's \<Rightarrow> 'i list list \<Rightarrow> 'o list \<times> 's option" where
  "feed_all consume s [] = ([], Some s)"
| "feed_all consume s (x # xs) =
     (case consume s x of
       (out, None) \<Rightarrow> (out, None)
     | (out, Some s') \<Rightarrow> (case feed_all consume s' xs of (out', r) \<Rightarrow> (out @ out', r)))"

text \<open>A consumer whose answer to \<open>xs @ ys\<close> is its answer to \<open>xs\<close> continued on \<open>ys\<close> does not notice
  where its input was cut.\<close>
locale incremental_consumer =
  fixes consume :: "'s \<Rightarrow> 'i list \<Rightarrow> 'o list \<times> 's option"
    and idle :: "'s \<Rightarrow> bool"
  assumes consume_Nil: "idle s \<Longrightarrow> consume s [] = ([], Some s)"
    and consume_idle: "idle s \<Longrightarrow> consume s xs = (out, Some s') \<Longrightarrow> idle s'"
    and consume_append: "idle s \<Longrightarrow> consume s (xs @ ys) =
      (case consume s xs of
        (out, None) \<Rightarrow> (out, None)
      | (out, Some s') \<Rightarrow> (case consume s' ys of (out', r) \<Rightarrow> (out @ out', r)))"
begin

lemma feed_all_concat: "idle s \<Longrightarrow> feed_all consume s xss = consume s (concat xss)"
proof (induction xss arbitrary: s)
  case (Cons xs xss)
  then show ?case
    using consume_idle [OF Cons.prems, of xs]
    by (auto simp: consume_append split: prod.splits option.splits)
qed (simp add: consume_Nil)

text \<open>Two ways of cutting the same input are indistinguishable.\<close>
lemma chunking_irrelevant:
  "idle s \<Longrightarrow> concat xss = concat yss \<Longrightarrow> feed_all consume s xss = feed_all consume s yss"
  by (simp add: feed_all_concat)

end

section \<open>The read loop is one\<close>

lemma index_of_first: "c \<notin> set l \<Longrightarrow> index_of c (l @ c # r) = Some (length l)"
  by (induction l) auto

lemma index_of_None [simp]: "index_of c xs = None \<longleftrightarrow> c \<notin> set xs"
  by (induction xs) auto

lemma drain_no_nl: "char_nl \<notin> set buf \<Longrightarrow> drain buf = ([], Some buf)"
  by (subst drain.simps) (simp add: index_of_None [THEN iffD2])

lemma drain_line:
  "char_nl \<notin> set l \<Longrightarrow> drain (l @ char_nl # r) =
     (case handleLine l of
       (cs, True) \<Rightarrow> (cs, None)
     | (cs, False) \<Rightarrow> (case drain r of (cs', q) \<Rightarrow> (cs @ cs', q)))"
  by (subst drain.simps) (simp add: index_of_first)

lemma line_cases:
  obtains "char_nl \<notin> set s" | l r where "s = l @ char_nl # r" "char_nl \<notin> set l"
  by (meson split_list_first)

lemma drain_rest: "drain buf = (cs, Some r) \<Longrightarrow> char_nl \<notin> set r"
proof (induction buf arbitrary: cs rule: length_induct)
  case (1 buf)
  show ?case
  proof (rule line_cases [of buf])
    assume "char_nl \<notin> set buf"
    then show ?thesis using "1.prems" by (simp add: drain_no_nl)
  next
    fix l r'
    assume *: "buf = l @ char_nl # r'" "char_nl \<notin> set l"
    then show ?thesis
      using "1.prems" "1.IH" [rule_format, of r']
      by (auto simp: drain_line split: prod.splits bool.splits)
  qed
qed

lemma drain_append:
  "drain (u @ v) =
     (case drain u of
       (cs, None) \<Rightarrow> (cs, None)
     | (cs, Some r) \<Rightarrow> (case drain (r @ v) of (cs', q) \<Rightarrow> (cs @ cs', q)))"
proof (induction u rule: length_induct)
  case (1 u)
  show ?case
  proof (rule line_cases [of u])
    assume "char_nl \<notin> set u"
    then show ?thesis by (simp add: drain_no_nl)
  next
    fix l r
    assume *: "u = l @ char_nl # r" "char_nl \<notin> set l"
    then show ?thesis
      using "1.IH" [rule_format, of r]
      by (auto simp: drain_line split: prod.splits bool.splits option.splits)
  qed
qed

interpretation sse: incremental_consumer feed "\<lambda>buf. char_nl \<notin> set buf"
proof unfold_locales
  fix s xs ys :: string and out s'
  assume idle: "char_nl \<notin> set s"
  then show "feed s [] = ([], Some s)" by (simp add: feed_def drain_no_nl)
  show "feed s xs = (out, Some s') \<Longrightarrow> char_nl \<notin> set s'"
    unfolding feed_def by (rule drain_rest)
  show "feed s (xs @ ys) =
      (case feed s xs of
        (out, None) \<Rightarrow> (out, None)
      | (out, Some s') \<Rightarrow> (case feed s' ys of (out', r) \<Rightarrow> (out @ out', r)))"
    unfolding feed_def using drain_append [of "s @ xs" ys] by simp
qed

section \<open>The read loop refines the reference\<close>

lemma handleLine_Nil [simp]: "handleLine [] = ([], False)"
  by (simp add: handleLine_def strip_one_trailing_def startsWith_def)

lemma drain_run_lines:
  "run_lines (split_on char_nl s) =
     (case drain s of
       (cs, None) \<Rightarrow> cs
     | (cs, Some r) \<Rightarrow> cs @ run_lines [r])"
proof (induction s rule: length_induct)
  case (1 s)
  show ?case
  proof (rule line_cases [of s])
    assume "char_nl \<notin> set s"
    then show ?thesis by (simp add: drain_no_nl split_on_no_sep)
  next
    fix l r
    assume "s = l @ char_nl # r" "char_nl \<notin> set l"
    then show ?thesis
      using "1.IH" [rule_format, of r]
      by (auto simp: drain_line split_on_append_sep split: prod.splits bool.splits option.splits)
  qed
qed

lemma pump_feed_all:
  "pump buf (map Chunk cs @ rs) =
     (case feed_all feed buf cs of
       (out, None) \<Rightarrow> out
     | (out, Some buf') \<Rightarrow> out @ pump buf' rs)"
  by (induction cs arbitrary: buf) (auto split: prod.splits option.splits)

lemma pump_Done: "pump buf (Done # rs) = run_lines [buf]"
  by (cases "buf = []") (auto split: prod.splits bool.splits)

lemma pump_chunks:
  "pump [] (map Chunk cs @ Done # rs) = run_lines (split_on char_nl (concat cs))"
proof -
  have "feed_all feed [] cs = drain (concat cs)"
    using sse.feed_all_concat [of "[]" cs] by (simp add: feed_def)
  then show ?thesis
    unfolding pump_feed_all pump_Done drain_run_lines by simp
qed

section \<open>One final callback, at the end\<close>

text \<open>A trace that ends in its only final callback, or has none.\<close>
definition well_ended :: "callback list \<Rightarrow> bool" where
  "well_ended cs \<longleftrightarrow> (\<forall>c \<in> set (butlast cs). \<not> is_final c)"

lemma handleLine_trace:
  "handleLine l = (cs, stop) \<Longrightarrow>
     (if stop then \<exists>data. cs = [OnClose data] else \<forall>c \<in> set cs. \<not> is_final c)"
  by (auto simp: handleLine_def Let_def split: if_splits option.splits)

lemma butlast_append_final:
  "\<forall>c \<in> set a. \<not> is_final c \<Longrightarrow> well_ended b \<Longrightarrow> well_ended (a @ b)"
  by (auto simp: well_ended_def butlast_append dest: in_set_butlastD)

lemma no_final_well_ended: "\<forall>c \<in> set a. \<not> is_final c \<Longrightarrow> well_ended a"
  by (auto simp: well_ended_def dest: in_set_butlastD)

lemma well_ended_split:
  assumes "well_ended cs"
  shows "\<exists>evs fin. cs = map OnEvent evs @ fin \<and> length fin \<le> 1"
proof (cases cs rule: rev_cases)
  case (snoc ys y)
  have "\<exists>evs. as = map OnEvent evs" if "\<forall>c \<in> set as. \<not> is_final c" for as
    using that by (induction as) (auto elim!: is_final.elims intro: exI [of _ "_ # _"])
  then obtain evs where "ys = map OnEvent evs"
    using assms snoc by (auto simp: well_ended_def)
  then show ?thesis using snoc by (intro exI [of _ evs] exI [of _ "[y]"]) simp
qed (rule exI [of _ "[]"], simp)

lemma drain_trace:
  "drain s = (cs, q) \<Longrightarrow>
     (case q of None \<Rightarrow> well_ended cs \<and> cs \<noteq> [] \<and> is_final (last cs)
      | Some _ \<Rightarrow> \<forall>c \<in> set cs. \<not> is_final c)"
proof (induction s arbitrary: cs q rule: length_induct)
  case (1 s)
  show ?case
  proof (rule line_cases [of s])
    assume "char_nl \<notin> set s"
    then show ?thesis using "1.prems" by (auto simp: drain_no_nl)
  next
    fix l r
    assume s: "s = l @ char_nl # r" "char_nl \<notin> set l"
    obtain c1 stop where h: "handleLine l = (c1, stop)" by fastforce
    show ?thesis
    proof (cases stop)
      case True
      then obtain data where "c1 = [OnClose data]" using handleLine_trace [OF h] by auto
      then show ?thesis using "1.prems" s h True by (auto simp: drain_line well_ended_def)
    next
      case False
      obtain c2 q2 where d: "drain r = (c2, q2)" by fastforce
      have c1: "\<forall>c \<in> set c1. \<not> is_final c" using handleLine_trace [OF h] False by simp
      have "cs = c1 @ c2" "q = q2" using "1.prems" s h False d by (auto simp: drain_line)
      then show ?thesis
        using "1.IH" [rule_format, OF _ d] s c1 butlast_append_final [OF c1, of c2]
        by (auto split: option.splits)
    qed
  qed
qed

lemma pump_well_ended: "well_ended (pump buf rs)"
proof (induction buf rs rule: pump.induct)
  case (2 buf s rs)
  obtain cs q where d: "feed buf s = (cs, q)" by fastforce
  then show ?case
    using 2 drain_trace [of "buf @ s" cs q] butlast_append_final [of cs]
    by (auto simp: feed_def split: option.splits)
next
  case (3 buf rs)
  obtain cs stop where h: "(if buf \<noteq> [] then handleLine buf else ([], False)) = (cs, stop)"
    by fastforce
  then have "if stop then \<exists>data. cs = [OnClose data] else \<forall>c \<in> set cs. \<not> is_final c"
    using handleLine_trace [of buf cs stop] by (auto split: if_splits)
  then show ?case
    using h butlast_append_final [of cs "[OnClose ''stream ended'']"]
    by (auto simp: well_ended_def split: if_splits)
qed (auto simp: well_ended_def)

section \<open>Printed JSON is one line\<close>

lemma hex_digit_printable: "n < 16 \<Longrightarrow> 32 \<le> (of_char (hex_digit n) :: nat)"
  by (simp add: hex_digit_def)

lemma escape_char_printable:
  assumes "c \<in> set (escape_char d)"
  shows "32 \<le> (of_char c :: nat)"
proof -
  have "of_char d < (32::nat) \<Longrightarrow> of_char d div 16 < (16::nat)" by simp
  then show ?thesis
    using assms hex_digit_printable [of "of_char d div 16"] hex_digit_printable [of "of_char d mod 16"]
    by (auto simp: escape_char_def split: if_splits)
qed

lemma json_quote_printable: "c \<in> set (json_quote s) \<Longrightarrow> 32 \<le> (of_char c :: nat)"
  using escape_char_printable by (auto simp: json_quote_def)

lemma digit_printable: "is_digit c \<Longrightarrow> 32 \<le> (of_char c :: nat)"
  by (simp add: is_digit_def less_eq_char_def)

lemma set_join_with: "c \<in> set (join_with sep ws) \<Longrightarrow> c \<in> set sep \<or> (\<exists>w \<in> set ws. c \<in> set w)"
  by (induction sep ws rule: join_with.induct) auto

lemma json_text_printable: "jsonable v \<Longrightarrow> c \<in> set (json_text v) \<Longrightarrow> 32 \<le> (of_char c :: nat)"
proof (induction v arbitrary: c)
  case (Num x)
  then obtain i where "x = of_int i" by auto
  then show ?case
    using Num.prems show_nat_digits digit_printable
    by (fastforce simp: number_to_string_int split: if_splits)
next
  case (Arr vs)
  then show ?case by (auto dest!: set_join_with)
next
  case (Obj kvs)
  have "c = CHR ''{'' \<or> c = CHR ''}'' \<or> c = CHR '','' \<or>
      (\<exists>k v. (k, v) \<in> set kvs \<and> (c \<in> set (json_quote k) \<or> c = CHR '':'' \<or> c \<in> set (json_text v)))"
    using Obj.prems(2) by (auto dest!: set_join_with)
  then show ?case
    using Obj.IH Obj.prems(1) json_quote_printable by fastforce
next
  case (Bool b)
  then show ?case by (cases b) auto
qed (auto dest: json_quote_printable)

lemma json_text_no_nl: "jsonable v \<Longrightarrow> char_nl \<notin> set (json_text v) \<and> char_cr \<notin> set (json_text v)"
  using json_text_printable [of v char_nl] json_text_printable [of v char_cr] by auto

lemma json_text_not_terminator:
  assumes "jsonable v"
  shows "json_text v \<noteq> []" "\<not> is_terminator (json_text v)"
proof -
  obtain c t where ct: "json_text v = c # t" using json_text_hd assms by metis
  then show "json_text v \<noteq> []" by simp
  have "c \<notin> {CHR ''B'', CHR ''R'', CHR ''C''}"
  proof (cases v)
    case (Num x)
    then obtain i where i: "x = of_int i" using assms by auto
    have "c = CHR ''-'' \<or> is_digit c"
      using ct Num i show_nat_digits [of c "nat \<bar>i\<bar>"]
      by (auto simp: number_to_string_int split: if_splits)
    then show ?thesis by (auto simp: is_digit_def less_eq_char_def)
  qed (use ct assms in \<open>auto simp: json_quote_def split: if_splits\<close>)
  then show "\<not> is_terminator (json_text v)"
    using ct by (auto simp: is_terminator_def)
qed

section \<open>Lines as the server writes them\<close>

text \<open>\<open>data: <payload>\<close> followed by one line feed, as \<open>httpd/api_rest_backup.go\<close> prints them.\<close>
definition sse_line :: "string \<Rightarrow> string" where
  "sse_line payload = ''data: '' @ payload @ [char_nl]"

lemma handleLine_data:
  assumes "p \<noteq> []" and "last p \<noteq> char_cr"
  shows "handleLine (''data: '' @ p) =
    (if is_terminator p then ([OnClose p], True)
     else case JSON_parse p of Some v \<Rightarrow> ([OnEvent v], False) | None \<Rightarrow> ([], False))"
proof -
  have "strip_one_trailing char_cr (''data: '' @ p) = ''data: '' @ p"
    using assms by (simp add: strip_one_trailing_def)
  moreover have "strip_data (''data: '' @ p) = p"
    by (simp add: strip_data_def is_js_space_def)
  ultimately show ?thesis using assms by (simp add: handleLine_def Let_def)
qed

lemma handleLine_event: "jsonable v \<Longrightarrow> handleLine (''data: '' @ json_text v) = ([OnEvent v], False)"
  using json_text_no_nl [of v] json_text_not_terminator [of v]
  by (subst handleLine_data) (auto simp: json.dec_enc dest: last_in_set)

lemma run_lines_events:
  "list_all jsonable vs \<Longrightarrow>
   run_lines (split_on char_nl (concat (map (\<lambda>v. sse_line (json_text v)) vs) @ rest)) =
     map OnEvent vs @ run_lines (split_on char_nl rest)"
proof (induction vs)
  case (Cons v vs)
  have "char_nl \<notin> set (''data: '' @ json_text v)"
    using Cons.prems json_text_no_nl [of v] by auto
  then have "split_on char_nl (sse_line (json_text v) @ x) = (''data: '' @ json_text v) # split_on char_nl x" for x
    using split_on_append_sep [of char_nl "''data: '' @ json_text v" x] by (simp add: sse_line_def)
  then show ?case using Cons handleLine_event [of v] by simp
qed simp

lemma run_lines_terminator:
  assumes "is_terminator p" "char_nl \<notin> set p" "last p \<noteq> char_cr"
  shows "run_lines (split_on char_nl (sse_line p @ rest)) = [OnClose p]"
proof -
  have "p \<noteq> []" using assms(1) by (auto simp: is_terminator_def)
  moreover have "split_on char_nl (sse_line p @ rest) = (''data: '' @ p) # split_on char_nl rest"
    using split_on_append_sep [of char_nl "''data: '' @ p" rest] assms(2) by (simp add: sse_line_def)
  ultimately show ?thesis using assms handleLine_data [of p] by simp
qed

lemma stream_of_lines:
  assumes "fetch (stream_request c path body) = StreamReply status True body_text (map Chunk cs @ [Done])"
    and "200 \<le> status" "status \<le> 299"
    and "concat cs = concat (map (\<lambda>v. sse_line (json_text v)) vs) @ sse_line msg @ rest"
    and "list_all jsonable vs"
    and "is_terminator msg" "char_nl \<notin> set msg" "last msg \<noteq> char_cr"
  shows "streamSseEvents fetch c path body = map OnEvent vs @ [OnClose msg]"
  using assms pump_chunks [of cs "[]"] run_lines_events [of vs] run_lines_terminator [of msg rest]
  by (simp add: streamSseEvents_def res_ok_def)

section \<open>Properties\<close>

text \<open>C8. The event stream means its lines: however the network cuts the text into chunks, a stream
  that was accepted and read to its end invokes the callbacks of the reference reading, which
  handles the lines of the whole text in order up to the first terminator line.\<close>
theorem stream_refines_lines:
  assumes "fetch (stream_request c path body) = StreamReply status True body_text (map Chunk cs @ [Done])"
    and "200 \<le> status" "status \<le> 299"
  shows "streamSseEvents fetch c path body = run_lines (split_on char_nl (concat cs))"
  using assms pump_chunks [of cs "[]"] by (simp add: streamSseEvents_def res_ok_def)

theorem stream_refines_lines_witness:
  "streamSseEvents (\<lambda>_. StreamReply 200 True (Inr []) (map Chunk [''data: '', ''Backup job done'', [char_nl]] @ [Done]))
     \<lparr>baseUrl = [], username = Null, password = Null\<rparr> [] Null = [OnClose ''Backup job done'']"
proof -
  let ?cs = "[''data: '', ''Backup job done'', [char_nl]]"
  have "run_lines (split_on char_nl (concat ?cs)) = [OnClose ''Backup job done'']"
    using run_lines_terminator [of "''Backup job done''" "[]"]
    by (simp add: sse_line_def is_terminator_def)
  then show ?thesis
    using stream_refines_lines [of "\<lambda>_. StreamReply 200 True (Inr []) (map Chunk ?cs @ [Done])" _ _ _ 200 "Inr []" ?cs]
    by simp
qed

text \<open>A stream reports some events and then at most one close or error, and nothing after it,
  whatever the reply, the chunks, the failures and the aborts are.\<close>
theorem stream_one_final_callback:
  "\<exists>evs fin. streamSseEvents fetch c path body = map OnEvent evs @ fin \<and> length fin \<le> 1"
proof -
  have "well_ended (streamSseEvents fetch c path body)"
    by (auto simp: streamSseEvents_def pump_well_ended Let_def well_ended_def [of "[]"]
        well_ended_def [of "[_]"] split: stream_reply.splits)
  then show ?thesis by (rule well_ended_split)
qed

text \<open>What the server writes is what the UI receives: a text of \<open>data:\<close> lines carrying the JSON of
  the events \<open>vs\<close>, then a terminator line, delivers exactly those events in that order and then
  closes with the terminator, in whatever chunks it arrives and whatever follows.\<close>
theorem stream_delivers_events:
  assumes "fetch (stream_request c path body) = StreamReply status True body_text (map Chunk cs @ [Done])"
    and "200 \<le> status" "status \<le> 299"
    and "concat cs = concat (map (\<lambda>v. sse_line (json_text v)) vs) @ sse_line msg @ rest"
    and "list_all jsonable vs"
    and "is_terminator msg" "char_nl \<notin> set msg" "last msg \<noteq> char_cr"
  shows "streamSseEvents fetch c path body = map OnEvent vs @ [OnClose msg]"
  using assms by (rule stream_of_lines)

theorem stream_delivers_events_witness:
  "streamSseEvents (\<lambda>_. StreamReply 200 True (Inr [])
       (map Chunk [sse_line (json_text (Num 1)), sse_line ''Completed run''] @ [Done]))
     \<lparr>baseUrl = [], username = Null, password = Null\<rparr> [] Null = [OnEvent (Num 1), OnClose ''Completed run'']"
  using stream_delivers_events
    [of "\<lambda>_. StreamReply 200 True (Inr [])
           (map Chunk [sse_line (json_text (Num 1)), sse_line ''Completed run''] @ [Done])"
        _ _ _ 200 "Inr []" "[sse_line (json_text (Num 1)), sse_line ''Completed run'']"
        "[Num 1]" "''Completed run''" "[]"]
  by (simp add: is_terminator_def)

text \<open>The line with which the server ends a stream when it shuts down is not a terminator to the UI, and
  as it is no JSON it is dropped without a trace.\<close>
lemma server_exit_line_ignored:
  "handleLine ''data: Backup server has been requested to exit. All running backups are being stopped.'' = ([], False)"
  by code_simp

end
