(* ===== verification/Watch_Modal.thy ===== *)
theory Watch_Modal
  imports Sse_Stream Component
begin

text \<open>
  The live progress dialog, \<open>WatchModal\<close> of \<open>js/app.js\<close>: the event list fed by the stream of
  theory \<open>Sse_Stream\<close>, its cap and its collapsing of progress steps, and the follow mode with its
  two refs.

  A stream callback, a DOM event and a run of the pending effects are separate steps, so every
  order of them is covered.  Writing \<open>el.scrollTop\<close> and calling \<open>props.onClose\<close> are the outputs of a
  step.  Typographic characters beyond Latin-1 in fixed texts are written in ASCII here and in the
  other components (an ellipsis as three dots, a dash as \<open>-\<close>, arrows as \<open><-\<close> and \<open>^\<close>).
\<close>

section \<open>The event list\<close>

definition MAX_EVENTS :: nat where
  "MAX_EVENTS = 500"

text \<open>The updater passed to \<open>setEvents\<close>; it throws when an event has no properties to read, and the
  stream's line handler drops the exception.\<close>
definition push_event :: "jsval list \<Rightarrow> jsval \<Rightarrow> jsval list jsr" where
  "push_event prev e =
     (let last = (if prev \<noteq> [] then last prev else Undef) in
      bindr (if truthy last
             then bindr (get last ''sequence'') (\<lambda>a. bindr (get e ''sequence'') (\<lambda>b. Inr (strict_eq a b)))
             else Inr False) (\<lambda>same.
        if same then Inr (prev[length prev - 1 := e])
        else
          let next = (if MAX_EVENTS \<le> length prev then drop (length prev - MAX_EVENTS + 1) prev else prev)
          in Inr (next @ [e])))"

section \<open>The component\<close>

datatype watch_kind = WatchesBackup | WatchesRestore

record watch_target =
  kind :: watch_kind
  target_name :: jsval
  target_jobId :: jsval
  title :: jsval

record wm_state =
  events :: "jsval list"
  status :: string
  err :: jsval
  follow :: bool
  followRef :: bool
  programmaticScroll :: bool
  events_changed :: bool

datatype wm_action =
    Streamed callback
  | Flush
  | Scrolled jsval
  | JumpToEnd
  | ClearEvents
  | CloseWatch

datatype wm_output = ScrollToEnd | WatchClosed

definition wm_mounted :: wm_state where
  "wm_mounted =
     \<lparr>events = [], status = ''connecting...'', err = Null, follow = True, followRef = True,
      programmaticScroll = False, events_changed = True\<rparr>"

text \<open>The stream effect: without a job id it only reports that, otherwise it subscribes.\<close>
definition subscribe :: "watch_target \<Rightarrow> wm_state \<Rightarrow> wm_state \<times> bool" where
  "subscribe target s =
     (if \<not> truthy (target_jobId target) then (s\<lparr>status := ''no job id - job is not running''\<rparr>, False)
      else (s\<lparr>status := ''streaming''\<rparr>, True))"

text \<open>\<open>target.kind === 'backup' ? watchBackup : watchRestore\<close>\<close>
definition wm_handler ::
  "(request \<Rightarrow> stream_reply) \<Rightarrow> connection \<Rightarrow> watch_target \<Rightarrow> callback list" where
  "wm_handler fetch conn target =
     (case kind target of
       WatchesBackup \<Rightarrow> watchBackup fetch conn (target_name target) (target_jobId target)
     | WatchesRestore \<Rightarrow> watchRestore fetch conn (target_name target) (target_jobId target))"

fun on_callback :: "callback \<Rightarrow> wm_state \<Rightarrow> wm_state" where
  "on_callback (OnEvent e) s =
     (case push_event (events s) e of
       Inl _ \<Rightarrow> s
     | Inr es \<Rightarrow> s\<lparr>events := es, events_changed := True\<rparr>)"
| "on_callback (OnClose reason) s = s\<lparr>status := reason\<rparr>"
| "on_callback (OnError e) s = s\<lparr>err := Str (exn_message e), status := ''error''\<rparr>"

text \<open>The effects on \<open>[follow]\<close> and on \<open>[events]\<close>, in the order they are declared.\<close>
definition run_effects :: "wm_state \<Rightarrow> wm_state \<times> wm_output list" where
  "run_effects s =
     (let s1 = s\<lparr>followRef := follow s\<rparr> in
      if events_changed s1 then
        (if followRef s1 then (s1\<lparr>programmaticScroll := True, events_changed := False\<rparr>, [ScrollToEnd])
         else (s1\<lparr>events_changed := False\<rparr>, []))
      else (s1, []))"

definition el_num :: "jsval \<Rightarrow> string \<Rightarrow> rat" where
  "el_num el k = (case get_opt el k of Num x \<Rightarrow> x | _ \<Rightarrow> 0)"

definition atBottom :: "jsval \<Rightarrow> bool" where
  "atBottom el \<longleftrightarrow> el_num el ''scrollTop'' + el_num el ''clientHeight'' \<ge> el_num el ''scrollHeight'' - 4"

definition onScroll :: "jsval \<Rightarrow> wm_state \<Rightarrow> wm_state" where
  "onScroll el s =
     (if programmaticScroll s then s\<lparr>programmaticScroll := False\<rparr>
      else if atBottom el \<noteq> followRef s then s\<lparr>follow := atBottom el\<rparr>
      else s)"

definition jumpToEnd :: "wm_state \<Rightarrow> wm_state \<times> wm_output list" where
  "jumpToEnd s = (s\<lparr>programmaticScroll := True, follow := True\<rparr>, [ScrollToEnd])"

fun wm_act :: "wm_state \<Rightarrow> wm_action \<Rightarrow> wm_state \<times> wm_output list" where
  "wm_act s (Streamed c) = (on_callback c s, [])"
| "wm_act s Flush = run_effects s"
| "wm_act s (Scrolled el) = (onScroll el s, [])"
| "wm_act s JumpToEnd = jumpToEnd s"
| "wm_act s ClearEvents = (s\<lparr>events := [], events_changed := True\<rparr>, [])"
| "wm_act s CloseWatch = (s, [WatchClosed])"

text \<open>\<open>e.type === 'file' ? `${e.percent_done}%` : e.type\<close>\<close>
definition event_progress :: "jsval \<Rightarrow> jsval jsr" where
  "event_progress e =
     bindr (get e ''type'') (\<lambda>t.
       if strict_eq t (Str ''file'')
       then mapr (\<lambda>p. Str (to_str p @ ''%'')) (get e ''percent_done'')
       else Inr t)"

definition event_row :: "jsval \<Rightarrow> wm_action vnode" where
  "event_row e =
     Elem ''div'' [cls ''evt'']
       [Elem ''span'' [Attr ''class'' (plus_str ''op '' (get e ''operation_type''))]
          [dyn (get e ''operation_type'')],
        Elem ''span'' [cls ''pct''] [dyn (event_progress e)],
        Elem ''span'' [cls ''name'', Attr ''title'' (get e ''name'')] [dyn (get e ''name'')],
        if_val (get e ''error'') (Elem ''span'' [cls ''err''] [dyn (get e ''error'')]) Empty]"

definition WatchModal :: "watch_target \<Rightarrow> wm_state \<Rightarrow> wm_action vnode" where
  "WatchModal target s =
     Elem ''div'' [cls ''modal-backdrop'', onSelfClick CloseWatch]
      [Elem ''div'' [cls ''modal'', sattr ''role'' ''dialog'', sattr ''aria-modal'' ''true'']
        [Elem ''header'' []
          [Elem ''h2'' [] [lit ''Watching: '', val (title target)],
           Elem ''button'' [onClick CloseWatch] [lit ''Close'']],
         Elem ''div'' [cls ''body'']
          [Elem ''p'' [cls ''muted'', sattr ''style'' ''margin:0 0 8px 0'']
            [lit ''Status: '', Elem ''strong'' [] [lit (status s)],
             lit '' - Events: '', Elem ''strong'' [] [val (Num (of_nat (length (events s))))],
             lit '' - Job id: '', Elem ''code'' [] [val (js_or (target_jobId target) (Str ''-''))],
             lit '' - Follow: '', Elem ''strong'' [] [lit (if follow s then ''on'' else ''off'')]],
           show_if (truthy (err s)) (Elem ''div'' [cls ''error''] [val (err s)]),
           Elem ''div'' [cls ''events'', onValue ''scroll'' Scrolled]
            [show_if (events s = []) (Elem ''div'' [cls ''muted''] [lit ''waiting for events...'']),
             Frag (map event_row (events s))]],
         Elem ''div'' [cls ''footer'']
          [show_if (\<not> follow s) (Elem ''button'' [onClick JumpToEnd] [lit ''Jump to latest'']),
           Elem ''button'' [onClick ClearEvents] [lit ''Clear''],
           Elem ''button'' [onClick CloseWatch] [lit ''Close'']]]]"

definition wm_enabled :: "watch_target \<Rightarrow> wm_state \<Rightarrow> wm_action \<Rightarrow> bool" where
  "wm_enabled target s a =
     (case a of
       Streamed _ \<Rightarrow> truthy (target_jobId target)
     | Flush \<Rightarrow> True
     | _ \<Rightarrow> offers (WatchModal target s) a)"

text \<open>Mounting runs the effects once: the follow effect, the subscription, the events effect.\<close>
definition wm_init :: "watch_target \<Rightarrow> wm_state \<times> wm_output list" where
  "wm_init target = run_effects (fst (subscribe target wm_mounted))"

text \<open>Outputs are never answered.\<close>
definition wm_answer :: "wm_state \<Rightarrow> wm_output \<Rightarrow> unit \<Rightarrow> wm_state \<times> wm_output list" where
  "wm_answer s c r = (s, [])"

section \<open>Reference: collapsed progress steps\<close>

definition same_sequence :: "jsval \<Rightarrow> jsval \<Rightarrow> bool" where
  "same_sequence a b = strict_eq (get_opt a ''sequence'') (get_opt b ''sequence'')"

text \<open>Of every run of successive events with one sequence number, the last.\<close>
fun collapse :: "jsval list \<Rightarrow> jsval list" where
  "collapse [] = []"
| "collapse [e] = [e]"
| "collapse (e # e' # es) = (if same_sequence e e' then collapse (e' # es) else e # collapse (e' # es))"

definition is_obj :: "jsval \<Rightarrow> bool" where
  "is_obj v = (case v of Obj _ \<Rightarrow> True | _ \<Rightarrow> False)"

definition events_of :: "callback list \<Rightarrow> jsval list" where
  "events_of cs = concat (map (\<lambda>c. case c of OnEvent e \<Rightarrow> [e] | _ \<Rightarrow> []) cs)"

section \<open>Lemmas\<close>

lemma last_collapse [simp]: "es \<noteq> [] \<Longrightarrow> last (collapse es) = last es"
  and collapse_eq_Nil [simp]: "collapse es = [] \<longleftrightarrow> es = []"
  by (induction es rule: collapse.induct) auto

lemma collapse_snoc:
  "collapse (es @ [e]) =
     (if es \<noteq> [] \<and> same_sequence (last es) e then butlast (collapse es) @ [e] else collapse es @ [e])"
  by (induction es rule: collapse.induct) auto

lemma take_last_snoc: "take_last (Suc n) (xs @ [x]) = take_last n xs @ [x]"
  by (auto simp: take_last_def Suc_diff_le not_le)

lemma take_last_snoc_MAX: "take_last MAX_EVENTS (xs @ [x]) = take_last (MAX_EVENTS - 1) xs @ [x]"
  using take_last_snoc [of "MAX_EVENTS - 1"] by (simp add: MAX_EVENTS_def)

lemma take_last_take_last: "m \<le> n \<Longrightarrow> take_last m (take_last n xs) = take_last m xs"
  by (auto simp: take_last_def intro: arg_cong [where f = "\<lambda>k. drop k xs"])

lemma take_last_butlast: "0 < n \<Longrightarrow> xs \<noteq> [] \<Longrightarrow> butlast (take_last n xs) = take_last (n - 1) (butlast xs)"
  by (cases xs rule: rev_cases; cases n) (auto simp: take_last_snoc)

lemma update_last: "xs \<noteq> [] \<Longrightarrow> xs[length xs - Suc 0 := x] = butlast xs @ [x]"
  by (cases xs rule: rev_cases) auto

text \<open>The branch that appends: at the cap the oldest entries go first.\<close>
lemma make_room:
  "(if MAX_EVENTS \<le> length prev then drop (length prev - MAX_EVENTS + 1) prev else prev) =
   drop (length prev - (MAX_EVENTS - 1)) prev"
  by (auto simp: MAX_EVENTS_def Suc_diff_le intro: arg_cong [where f = "\<lambda>n. drop n prev"])

lemma get_obj: "is_obj v \<Longrightarrow> get v k = Inr (get_opt v k)" and truthy_obj: "is_obj v \<Longrightarrow> truthy v"
  by (cases v; simp add: is_obj_def get_opt_def)+

text \<open>What the updater does, stated on lists: replace the last event or append, then keep 500.\<close>
lemma push_event_cases:
  assumes "push_event prev e = Inr es"
  shows "prev \<noteq> [] \<and> truthy (last prev) \<and> same_sequence (last prev) e \<and> es = butlast prev @ [e] \<or>
    \<not> (prev \<noteq> [] \<and> truthy (last prev) \<and> same_sequence (last prev) e) \<and>
    es = drop (length prev - (MAX_EVENTS - 1)) prev @ [e]"
proof (cases "prev \<noteq> [] \<and> truthy (last prev)")
  case True
  then obtain a b where ab: "get (last prev) ''sequence'' = Inr a" "get e ''sequence'' = Inr b"
    using assms by (auto simp: push_event_def Let_def bindr_Inr_conv split: if_splits)
  then have "same_sequence (last prev) e = strict_eq a b"
    by (simp add: same_sequence_def get_opt_def)
  then show ?thesis
    using assms True ab by (cases "strict_eq a b") (simp_all add: push_event_def Let_def update_last make_room [simplified])
next
  case False
  then show ?thesis
    using assms by (auto simp: push_event_def Let_def make_room simp del: One_nat_def split: if_splits)
qed

lemma push_event_objects:
  "list_all is_obj prev \<Longrightarrow> is_obj e \<Longrightarrow> \<exists>es. push_event prev e = Inr es \<and> list_all is_obj es"
  by (cases prev rule: rev_cases) (auto simp: push_event_def Let_def get_obj list_all_iff dest: in_set_dropD)

lemma push_event_take_last:
  assumes "list_all is_obj es" "is_obj e"
  shows "push_event (take_last MAX_EVENTS (collapse es)) e = Inr (take_last MAX_EVENTS (collapse (es @ [e])))"
proof -
  let ?p = "take_last MAX_EVENTS (collapse es)"
  have M: "0 < MAX_EVENTS" by (simp add: MAX_EVENTS_def)
  have sub: "set (collapse es) \<subseteq> set es" for es by (induction es rule: collapse.induct) auto
  have "list_all is_obj ?p"
    using assms(1) sub [of es] by (auto simp: take_last_def list_all_iff dest!: in_set_dropD)
  from push_event_objects [OF this assms(2)] obtain r where r: "push_event ?p e = Inr r" by auto
  have ne: "?p \<noteq> [] \<longleftrightarrow> es \<noteq> []" and last: "es \<noteq> [] \<Longrightarrow> last ?p = last es"
    using M by (auto simp: last_take_last simp flip: length_greater_0_conv)
  have truthy: "es \<noteq> [] \<Longrightarrow> truthy (last es)" using assms(1) by (simp add: truthy_obj list_all_iff)
  show ?thesis
  proof (cases "es \<noteq> [] \<and> same_sequence (last es) e")
    case True
    then have "r = butlast ?p @ [e]" using push_event_cases [OF r] ne last truthy by auto
    also have "\<dots> = take_last MAX_EVENTS (butlast (collapse es) @ [e])"
      using True M by (simp add: take_last_butlast take_last_snoc_MAX)
    finally show ?thesis using True r by (simp add: collapse_snoc)
  next
    case False
    then have "r = drop (length ?p - (MAX_EVENTS - 1)) ?p @ [e]"
      using push_event_cases [OF r] ne last by auto
    also have "\<dots> = take_last (MAX_EVENTS - 1) ?p @ [e]" by (simp add: take_last_def)
    also have "\<dots> = take_last (MAX_EVENTS - 1) (collapse es) @ [e]" by (simp add: take_last_take_last)
    also have "\<dots> = take_last MAX_EVENTS (collapse es @ [e])"
      by (simp add: take_last_snoc_MAX)
    finally show ?thesis using False r by (auto simp: collapse_snoc)
  qed
qed

lemma on_callback_other [simp]:
  "\<not> is_final c \<or> events (on_callback c s) = events s"
  by (cases c) auto

lemma events_of_simps [simp]:
  "events_of [] = []" "events_of (OnEvent e # cs) = e # events_of cs"
  "events_of (OnClose r # cs) = events_of cs" "events_of (OnError x # cs) = events_of cs"
  by (simp_all add: events_of_def)

lemma events_of_append [simp]: "events_of (cs @ ds) = events_of cs @ events_of ds"
  by (simp add: events_of_def)

lemma events_after_callbacks:
  assumes "events s = []" "list_all is_obj (events_of cs)"
  shows "events (foldl (\<lambda>s c. on_callback c s) s cs) = take_last MAX_EVENTS (collapse (events_of cs))"
  using assms(2)
proof (induction cs rule: rev_induct)
  case (snoc c cs)
  then show ?case by (cases c) (simp_all add: push_event_take_last)
qed (simp add: assms(1))

section \<open>Invariant\<close>

text \<open>The list is capped and holds no two neighbours the updater would have merged.\<close>
definition wm_ok :: "wm_state \<Rightarrow> bool" where
  "wm_ok s \<longleftrightarrow> length (events s) \<le> MAX_EVENTS \<and>
     successively (\<lambda>a b. truthy a \<longrightarrow> \<not> same_sequence a b) (events s)"

lemma successively_drop: "successively P xs \<Longrightarrow> successively P (drop n xs)"
  by (metis append_take_drop_id successively_append_iff)

lemma same_sequence_cong: "same_sequence a b \<Longrightarrow> same_sequence x b = same_sequence x a"
  by (auto simp: same_sequence_def dest: strict_eq_imp_eq)

lemma push_event_ok:
  assumes "push_event prev e = Inr es" "length prev \<le> MAX_EVENTS"
    "successively (\<lambda>a b. truthy a \<longrightarrow> \<not> same_sequence a b) prev"
  shows "length es \<le> MAX_EVENTS \<and> successively (\<lambda>a b. truthy a \<longrightarrow> \<not> same_sequence a b) es"
  using push_event_cases [OF assms(1)]
proof (elim disjE conjE)
  assume *: "prev \<noteq> []" "same_sequence (last prev) e" "es = butlast prev @ [e]"
  then obtain xs l where "prev = xs @ [l]" by (cases prev rule: rev_cases) auto
  then show ?thesis
    using * assms(2,3) same_sequence_cong [OF *(2)] by (auto simp: successively_append_iff)
next
  let ?d = "drop (length prev - (MAX_EVENTS - 1)) prev"
  assume *: "\<not> (prev \<noteq> [] \<and> truthy (last prev) \<and> same_sequence (last prev) e)" "es = ?d @ [e]"
  have "successively (\<lambda>a b. truthy a \<longrightarrow> \<not> same_sequence a b) ?d"
    by (rule successively_drop [OF assms(3)])
  moreover have "?d \<noteq> [] \<Longrightarrow> last ?d = last prev" by (metis drop_all last_drop not_le)
  ultimately show ?thesis
    using * assms(2) by (auto simp: successively_append_iff MAX_EVENTS_def)
qed

lemma wm_ok_fields:
  "events s' = events s \<Longrightarrow> wm_ok s' = wm_ok s"
  by (simp add: wm_ok_def)

lemma wm_act_ok: "wm_ok s \<Longrightarrow> wm_ok (fst (wm_act s a))"
proof (cases a)
  case (Streamed c)
  then show "wm_ok s \<Longrightarrow> ?thesis"
    using push_event_ok by (cases c) (auto simp: wm_ok_def split: sum.splits)
qed (auto simp: wm_ok_def run_effects_def onScroll_def jumpToEnd_def Let_def)

interpretation wm: local_invariant "wm_init target" "wm_enabled target" wm_act wm_answer wm_ok "\<lambda>_. True"
proof unfold_locales
  show "wm_ok (fst (wm_init target))"
    by (auto simp: wm_init_def subscribe_def run_effects_def wm_mounted_def wm_ok_def Let_def)
qed (simp_all add: wm_act_ok wm_answer_def)

section \<open>Properties\<close>

text \<open>What the dialog shows is determined by the stream: whatever the callbacks (events, end, error)
  are, after them the list holds the last 500 of the stream's events, with every run of successive
  events of one sequence number (the progress steps of one file) collapsed to its last.\<close>
theorem watch_shows_collapsed_tail:
  assumes "list_all is_obj (events_of (wm_handler fetch conn target))"
  shows "events (foldl (\<lambda>s c. on_callback c s) (fst (wm_init target)) (wm_handler fetch conn target)) =
    take_last MAX_EVENTS (collapse (events_of (wm_handler fetch conn target)))"
  by (rule events_after_callbacks [OF _ assms])
    (simp add: wm_init_def subscribe_def run_effects_def wm_mounted_def Let_def)

text \<open>Two progress steps of one file, then the end of the stream.\<close>
definition sample_stream :: "request \<Rightarrow> stream_reply" where
  "sample_stream req = StreamReply 200 True (Inr [])
     [Chunk (''data: {'' @ [CHR 34] @ ''sequence'' @ [CHR 34] @ '':1}'' @ [char_nl] @
             ''data: {'' @ [CHR 34] @ ''sequence'' @ [CHR 34] @ '':1}'' @ [char_nl]), Done]"

definition sample_target :: watch_target where
  "sample_target = \<lparr>kind = WatchesBackup, target_name = Str ''home'', target_jobId = Str ''j1'', title = Str ''home''\<rparr>"

lemma sample_callbacks:
  "wm_handler sample_stream sample_conn sample_target =
     [OnEvent (Obj [(''sequence'', Num 1)]), OnEvent (Obj [(''sequence'', Num 1)]), OnClose ''stream ended'']"
  by code_simp

theorem watch_shows_collapsed_tail_witness:
  "events (foldl (\<lambda>s c. on_callback c s) (fst (wm_init sample_target))
     (wm_handler sample_stream sample_conn sample_target)) = [Obj [(''sequence'', Num 1)]]"
  using watch_shows_collapsed_tail [of sample_stream sample_conn sample_target]
  by (simp add: sample_callbacks is_obj_def same_sequence_def obj_get_def MAX_EVENTS_def)

text \<open>C11. In every run of the dialog, whatever the order of stream callbacks, effects and user events,
  the list never exceeds 500 entries and never shows two neighbouring lines for one item.\<close>
theorem watch_list_invariant:
  assumes "component_run (wm_init target) (wm_enabled target) wm_act wm_answer (s, outs)"
  shows "length (events s) \<le> 500 \<and>
    successively (\<lambda>a b. truthy a \<longrightarrow> \<not> same_sequence a b) (events s)"
  using wm.state_invariant [OF assms] by (simp add: wm_ok_def MAX_EVENTS_def)

text \<open>A run in which the user clears an event the stream has delivered.\<close>
lemma sample_watch_run:
  "component_run (wm_init sample_target) (wm_enabled sample_target) wm_act wm_answer
     (fst (wm_act (fst (wm_init sample_target)) (Streamed (OnEvent (Num 1)))), snd (wm_init sample_target))"
proof -
  have "component_run (wm_init sample_target) (wm_enabled sample_target) wm_act wm_answer
      (fst (wm_init sample_target), snd (wm_init sample_target))"
    using component_run.mounted [of "wm_init sample_target"] by simp
  from component_run.acted [OF this, of "Streamed (OnEvent (Num 1))" _ "[]"] show ?thesis
    by (simp add: wm_enabled_def sample_target_def)
qed

theorem watch_list_invariant_witness:
  "length (events (fst (wm_act (fst (wm_init sample_target)) (Streamed (OnEvent (Num 1)))))) \<le> 500"
  using watch_list_invariant [OF sample_watch_run] by simp

text \<open>Follow mode: the button to jump to the end is offered exactly while following is off; using it
  turns following on, scrolls to the end, and the scroll event that write causes is ignored, so
  following stays on until the user scrolls away from the bottom (a scroll event right after new
  events were scrolled into view counts as the program's own).\<close>
theorem jump_resumes_following:
  "(offers (WatchModal target s) JumpToEnd \<longleftrightarrow> \<not> follow s) \<and>
   ScrollToEnd \<in> set (snd (wm_act s JumpToEnd)) \<and>
   (let s1 = fst (wm_act s JumpToEnd); s2 = fst (wm_act s1 (Scrolled el)); s3 = fst (wm_act s2 Flush) in
     follow s3 \<and> followRef s3 \<and>
     (follow (fst (wm_act s3 (Scrolled el'))) \<longleftrightarrow> events_changed s \<or> atBottom el'))"
  by (auto simp: WatchModal_def event_row_def jumpToEnd_def onScroll_def run_effects_def Let_def)

end
