(* ===== verification/Restore_Start.thy ===== *)
theory Restore_Start
  imports Restore_Reports Watch_Modal "HOL-Library.Multiset" "HOL-Library.List_Lexorder" "HOL-Library.Char_ord"
begin

text \<open>
  The dialog that starts a restore, \<open>RestoreStartModal\<close> of \<open>js/app.js\<close>: choosing the backup run,
  browsing its files and selecting some, the options, and the request.

  \<open>localeCompare\<close> is a parameter.  The effects that depend on the chosen run and on \<open>allFiles\<close> are
  run at the end of the step that changes one of them.
\<close>

section \<open>Entries of a directory\<close>

record file_item =
  path :: jsval
  parent :: jsval
  isDir :: bool
  size :: jsval

text \<open>\<open>(inst.type || '').toLowerCase()\<close>: only strings have the method.\<close>
fun lower :: "jsval \<Rightarrow> string jsr" where
  "lower (Str s) = Inr (toLowerCase s)"
| "lower _ = Inl type_error"

definition fileEntryToItem :: "jsval \<Rightarrow> file_item option jsr" where
  "fileEntryToItem e =
     bindr (get e ''instances'') (\<lambda>insts.
       if \<not> truthy insts then Inr None
       else bindr (get insts ''length'') (\<lambda>l.
         if strict_eq l (Num 0) then Inr None
         else bindr (first_of insts) (\<lambda>inst.
         bindr (get inst ''type'') (\<lambda>ty.
         bindr (lower (js_or ty (Str []))) (\<lambda>t.
         bindr (get e ''path'') (\<lambda>p. bindr (get e ''parent'') (\<lambda>q. bindr (get inst ''size'') (\<lambda>sz.
           Inr (Some \<lparr>path = p, parent = q, isDir = (t = ''directory'' \<or> t = ''dir''),
                     size = js_or sz (Num 0)\<rparr>)))))))))"

text \<open>\<open>pathSet.has(v)\<close>\<close>
definition set_has :: "jsval list \<Rightarrow> jsval \<Rightarrow> bool" where
  "set_has ps v = list_ex (\<lambda>p. strict_eq p v) ps"

text \<open>The second loop of \<open>loadDir\<close>, one entry at a time: \<open>None\<close> where the source continues.\<close>
definition browse_item :: "jsval \<Rightarrow> jsval list \<Rightarrow> jsval \<Rightarrow> file_item option jsr" where
  "browse_item dir paths e =
     bindr (get e ''path'') (\<lambda>p.
       if strict_eq p dir \<and> dir \<noteq> Str [] then Inr None
       else bindr (fileEntryToItem e) (\<lambda>item.
         case item of
           None \<Rightarrow> Inr None
         | Some it \<Rightarrow>
             if dir = Str [] \<and> set_has paths (parent it) then Inr None else Inr (Some it)))"

definition compare_items :: "(string \<Rightarrow> string \<Rightarrow> int) \<Rightarrow> file_item \<Rightarrow> file_item \<Rightarrow> int" where
  "compare_items localeCompare a b =
     (if isDir a \<noteq> isDir b then (if isDir a then -1 else 1)
      else localeCompare (to_str (path a)) (to_str (path b)))"

definition is_str :: "jsval \<Rightarrow> bool" where
  "is_str v = (case v of Str _ \<Rightarrow> True | _ \<Rightarrow> False)"

text \<open>\<open>items.sort(...)\<close>.  Which pairs are compared is the engine's choice; a path that is no string
  is taken to throw as soon as there is anything to compare it with.\<close>
definition sort_items :: "(string \<Rightarrow> string \<Rightarrow> int) \<Rightarrow> file_item list \<Rightarrow> file_item list jsr" where
  "sort_items localeCompare its =
     (if length its \<le> 1 \<or> list_all (\<lambda>it. is_str (path it)) its
      then Inr (sort_cmp (compare_items localeCompare) its) else Inl type_error)"

definition browse_items ::
  "(string \<Rightarrow> string \<Rightarrow> int) \<Rightarrow> jsval \<Rightarrow> jsval \<Rightarrow> file_item list jsr" where
  "browse_items localeCompare dir found =
     bindr (iterate found) (\<lambda>es.
     bindr (traverse (\<lambda>e. get e ''path'') es) (\<lambda>paths.
     bindr (traverse (browse_item dir paths) es) (\<lambda>its.
       sort_items localeCompare (concat (map (\<lambda>it. case it of None \<Rightarrow> [] | Some x \<Rightarrow> [x]) its)))))"

section \<open>State and handlers\<close>

record rs_state =
  sourceJobs :: jsval
  sourceLoading :: bool
  sourceJobId :: jsval
  rs_error :: jsval
  allFiles :: bool
  cwd :: jsval
  stack :: "jsval list"
  entries :: "file_item list"
  browsing :: bool
  browseErr :: jsval
  selected :: "(string \<times> jsval) list"
  rs_targets :: jsval
  targetName :: jsval
  restoreDir :: jsval
  exclusionsText :: string
  submitting :: bool

datatype rs_action =
    PickSource jsval
  | SetAllFiles bool
  | EnterDir jsval
  | GoUp
  | Reload
  | ToggleSelect string
  | PickTarget jsval
  | SetRestoreDir jsval
  | SetExclusions string
  | Submit
  | RsClose

datatype rs_call =
    RsListReports
  | RsGetConfig
  | RsListFiles jsval jsval bool
  | RsStartRestore jsval
  | RsStarted
  | RsClosed

definition rs_mounted :: rs_state where
  "rs_mounted =
     \<lparr>sourceJobs = Arr [], sourceLoading = False, sourceJobId = Str [], rs_error = Null, allFiles = False,
      cwd = Str [], stack = [], entries = [], browsing = False, browseErr = Null, selected = [],
      rs_targets = Arr [], targetName = Str [], restoreDir = Str [], exclusionsText = [], submitting = False\<rparr>"

definition loadDir :: "jsval \<Rightarrow> rs_state \<Rightarrow> rs_state \<times> rs_call list" where
  "loadDir p s =
     (if \<not> truthy (sourceJobId s) then (s, [])
      else (s\<lparr>browsing := True, browseErr := Null\<rparr>, [RsListFiles (sourceJobId s) p (p = Str [])]))"

definition loadDir_done ::
  "(string \<Rightarrow> string \<Rightarrow> int) \<Rightarrow> jsval \<Rightarrow> page jsr \<Rightarrow> rs_state \<Rightarrow> rs_state" where
  "loadDir_done localeCompare p reply s =
     (let s1 = (case bindr reply (\<lambda>r. browse_items localeCompare p (items r)) of
         Inl e \<Rightarrow> s\<lparr>browseErr := Str (err_text e)\<rparr>
       | Inr its \<Rightarrow> s\<lparr>entries := its\<rparr>)
      in s1\<lparr>browsing := False\<rparr>)"

text \<open>The effect on \<open>[sourceJobId, allFiles, loadDir]\<close>\<close>
definition reload_root :: "rs_state \<Rightarrow> rs_state \<times> rs_call list" where
  "reload_root s =
     (if allFiles s then (s, [])
      else loadDir (Str []) (s\<lparr>entries := [], stack := [], cwd := Str []\<rparr>))"

definition after_change :: "rs_state \<Rightarrow> rs_state \<Rightarrow> rs_state \<times> rs_call list" where
  "after_change old s =
     (if sourceJobId s \<noteq> sourceJobId old \<or> allFiles s \<noteq> allFiles old then reload_root s else (s, []))"

text \<open>The effect that loads the backup runs, after its \<open>await\<close>: the first finished run is picked, or
  else the first.\<close>
definition sources_done :: "page jsr \<Rightarrow> rs_state \<Rightarrow> rs_state \<times> rs_call list" where
  "sources_done reply s =
     (case reply of
       Inl e \<Rightarrow> (s\<lparr>rs_error := Str (err_text e), sourceLoading := False\<rparr>, [])
     | Inr r \<Rightarrow>
         let s1 = s\<lparr>sourceJobs := items r\<rparr> in
         (case bindr (array_of (items r)) (\<lambda>xs.
             bindr (find_by (\<lambda>x. mapr (\<lambda>st. strict_eq st (Str ''finished'')) (get x ''state'')) xs) (\<lambda>finished.
             bindr (if truthy finished then Inr finished else first_of (items r)) (\<lambda>candidate.
               if truthy candidate then mapr Some (get candidate ''job_id'') else Inr None))) of
           Inl e \<Rightarrow> (s1\<lparr>rs_error := Str (err_text e), sourceLoading := False\<rparr>, [])
         | Inr None \<Rightarrow> (s1\<lparr>sourceLoading := False\<rparr>, [])
         | Inr (Some j) \<Rightarrow> after_change s (s1\<lparr>sourceJobId := j, sourceLoading := False\<rparr>)))"

definition targets_done :: "jsval \<Rightarrow> jsval jsr \<Rightarrow> rs_state \<Rightarrow> rs_state" where
  "targets_done name reply s =
     (case bindr reply (targets_of name) of Inl _ \<Rightarrow> s | Inr t \<Rightarrow> s\<lparr>rs_targets := t\<rparr>)"

definition enterDir :: "jsval \<Rightarrow> rs_state \<Rightarrow> rs_state \<times> rs_call list" where
  "enterDir p s = loadDir p (s\<lparr>stack := stack s @ [cwd s], cwd := p\<rparr>)"

definition goUp :: "rs_state \<Rightarrow> rs_state \<times> rs_call list" where
  "goUp s =
     (if stack s = [] then (s, [])
      else let up = last (stack s) in loadDir up (s\<lparr>stack := butlast (stack s), cwd := up\<rparr>))"

definition toggle :: "string \<Rightarrow> (string \<times> jsval) list \<Rightarrow> (string \<times> jsval) list" where
  "toggle p prev = (if truthy (obj_get prev p) then obj_delete p prev else obj_assign p (Bool True) prev)"

definition toggleSelect :: "string \<Rightarrow> rs_state \<Rightarrow> rs_state" where
  "toggleSelect p s = s\<lparr>selected := toggle p (selected s)\<rparr>"

text \<open>\<open>Object.keys(selected).sort()\<close>\<close>
definition selectedPaths :: "rs_state \<Rightarrow> string list" where
  "selectedPaths s = sort (map fst (selected s))"

text \<open>\<open>exclusionsText.split('\n').map(s => s.trim()).filter(Boolean)\<close>\<close>
definition exclusions_of :: "string \<Rightarrow> string list" where
  "exclusions_of text = filter (\<lambda>s. s \<noteq> []) (map trim (split_on char_nl text))"

definition or_undef :: "jsval \<Rightarrow> jsval" where
  "or_undef v = js_or v Undef"

definition restore_input :: "jsval \<Rightarrow> rs_state \<Rightarrow> jsval" where
  "restore_input name s =
     (let exclusions = exclusions_of (exclusionsText s) in
      Obj [(''name'', name),
           (''source_backup_job_id'', sourceJobId s),
           (''target_name'', or_undef (targetName s)),
           (''restore_dir'', or_undef (restoreDir s)),
           (''files'', if allFiles s then Undef else Arr (map Str (selectedPaths s))),
           (''all_files'', if allFiles s then Bool True else Undef),
           (''exclusions'', if exclusions \<noteq> [] then Arr (map Str exclusions) else Undef)])"

definition onSubmit :: "jsval \<Rightarrow> rs_state \<Rightarrow> rs_state \<times> rs_call list" where
  "onSubmit name s0 =
     (let s = s0\<lparr>rs_error := Null\<rparr> in
      if \<not> truthy (sourceJobId s) then
        (s\<lparr>rs_error := Str ''Please pick a source backup job to restore from.''\<rparr>, [])
      else if \<not> allFiles s \<and> selectedPaths s = [] then
        (s\<lparr>rs_error := Str (''Pick at least one file or directory, or check '' @ [CHR 34] @
            ''Restore all files'' @ [CHR 34] @ ''.'')\<rparr>, [])
      else (s\<lparr>submitting := True\<rparr>, [RsStartRestore (restore_input name s)]))"

definition onSubmit_done :: "jsval jsr \<Rightarrow> rs_state \<Rightarrow> rs_state \<times> rs_call list" where
  "onSubmit_done reply s =
     (case reply of
       Inl e \<Rightarrow> (s\<lparr>rs_error := Str (err_text e), submitting := False\<rparr>, [])
     | Inr _ \<Rightarrow> (s\<lparr>submitting := False\<rparr>, [RsStarted]))"

fun rs_act :: "jsval \<Rightarrow> rs_state \<Rightarrow> rs_action \<Rightarrow> rs_state \<times> rs_call list" where
  "rs_act name s (PickSource v) = after_change s (s\<lparr>sourceJobId := v\<rparr>)"
| "rs_act name s (SetAllFiles b) = after_change s (s\<lparr>allFiles := b\<rparr>)"
| "rs_act name s (EnterDir p) = enterDir p s"
| "rs_act name s GoUp = goUp s"
| "rs_act name s Reload = loadDir (cwd s) s"
| "rs_act name s (ToggleSelect p) = (toggleSelect p s, [])"
| "rs_act name s (PickTarget v) = (s\<lparr>targetName := v\<rparr>, [])"
| "rs_act name s (SetRestoreDir v) = (s\<lparr>restoreDir := v\<rparr>, [])"
| "rs_act name s (SetExclusions t) = (s\<lparr>exclusionsText := t\<rparr>, [])"
| "rs_act name s Submit = onSubmit name s"
| "rs_act name s RsClose = (s, [RsClosed])"

fun rs_answer ::
  "(string \<Rightarrow> string \<Rightarrow> int) \<Rightarrow> connection \<Rightarrow> jsval \<Rightarrow> rs_state \<Rightarrow> rs_call \<Rightarrow> fetch \<Rightarrow> rs_state \<times> rs_call list" where
  "rs_answer lc conn name s RsListReports fetch = sources_done (listReports fetch conn name Undef) s"
| "rs_answer lc conn name s RsGetConfig fetch = (targets_done name (getConfig fetch conn) s, [])"
| "rs_answer lc conn name s (RsListFiles jobId p descend) fetch =
     (loadDir_done lc p (listBackupFiles fetch conn name jobId p descend Undef) s, [])"
| "rs_answer lc conn name s (RsStartRestore input) fetch = onSubmit_done (startRestore fetch conn input) s"
| "rs_answer lc conn name s RsStarted fetch = (s, [])"
| "rs_answer lc conn name s RsClosed fetch = (s, [])"

text \<open>Mounting runs the three effects.\<close>
definition rs_init :: "rs_state \<times> rs_call list" where
  "rs_init =
     (let (s, cs) = reload_root (rs_mounted\<lparr>sourceLoading := True\<rparr>)
      in (s, [RsListReports, RsGetConfig] @ cs))"

section \<open>View\<close>

text \<open>\<open>it.job_id.slice(0, 8)\<close>: a method of strings and arrays.\<close>
fun slice8 :: "jsval \<Rightarrow> jsval jsr" where
  "slice8 (Str s) = Inr (Str (take 8 s))"
| "slice8 (Arr vs) = Inr (Arr (take 8 vs))"
| "slice8 _ = Inl type_error"

definition source_option :: "dates \<Rightarrow> jsval \<Rightarrow> rs_action vnode" where
  "source_option D it =
     Elem ''option'' [Attr ''value'' (get it ''job_id'')]
       [dyn (bindr (get it ''start_time'') (fmtTime D)), lit '' - '', dyn (get it ''state''), lit '' - '',
        dyn (bindr (get it ''job_id'') slice8), lit ''...'']"

definition browser_row :: "(string \<times> jsval) list \<Rightarrow> file_item \<Rightarrow> rs_action vnode" where
  "browser_row sel e =
     Elem ''div'' [cls ''browser-row'']
       [Elem ''input''
          [sattr ''type'' ''checkbox'', battr ''checked'' (truthy (obj_get sel (to_str (path e)))),
           On ''change'' (\<lambda>_. Some (ToggleSelect (to_str (path e)))), sattr ''title'' (''Select '' @ to_str (path e))]
          [],
        if isDir e then
          Elem ''button'' [cls ''browser-name dir'', onClick (EnterDir (path e)), sattr ''title'' (''Open '' @ to_str (path e))]
            [Elem ''span'' [cls ''icon''] [lit ''[dir]''], Elem ''span'' [cls ''path''] [val (path e)]]
        else
          Elem ''span'' [cls ''browser-name'']
            [Elem ''span'' [cls ''icon''] [lit ''[file]''],
             Elem ''span'' [cls ''path'', Attr ''title'' (Inr (path e))] [val (path e)],
             Elem ''span'' [cls ''muted size''] [dyn (fmtBytes (size e))]]]"

definition selection_list :: "string list \<Rightarrow> rs_action vnode" where
  "selection_list ps =
     Elem ''details'' [cls ''browser-selected'']
       [Elem ''summary'' [] [val (Num (of_nat (length ps))), lit '' selected (click to view)''],
        Elem ''ul'' []
          (map (\<lambda>p. Elem ''li'' []
             [Elem ''code'' [] [lit p], lit '' '',
              Elem ''button'' [cls ''link-btn'', onClick (ToggleSelect p)] [lit ''remove'']]) ps)]"

definition file_browser :: "rs_state \<Rightarrow> rs_action vnode" where
  "file_browser s =
     Elem ''div'' [cls ''form-row'']
       [Elem ''label'' []
          [lit ''Pick files and/or directories'',
           Elem ''span'' [cls ''muted'', sattr ''style'' ''text-transform:none;letter-spacing:0'']
             [lit ''('', val (Num (of_nat (length (selectedPaths s)))), lit '' selected)'']],
        Elem ''div'' [cls ''browser'']
          [Elem ''div'' [cls ''browser-bar'']
             [Elem ''button'' [onClick GoUp, battr ''disabled'' (stack s = [] \<or> browsing s)] [lit ''^ Up''],
              Elem ''span'' [cls ''browser-cwd'', Attr ''title'' (Inr (js_or (cwd s) (Str ''(roots)'')))]
                [Elem ''code'' [] [val (js_or (cwd s) (Str ''(backup roots)''))]],
              Elem ''button'' [onClick Reload, battr ''disabled'' (browsing s \<or> \<not> truthy (sourceJobId s))]
                [lit ''Refresh'']],
           show_if (truthy (browseErr s))
             (Elem ''div'' [cls ''error'', sattr ''style'' ''margin:8px 0''] [val (browseErr s)]),
           Elem ''div'' [cls ''browser-list'']
             [show_if (browsing s \<and> entries s = [])
                (Elem ''div'' [cls ''muted''] [Elem ''span'' [cls ''spinner''] [], lit '' Loading...'']),
              show_if (\<not> browsing s \<and> entries s = [] \<and> \<not> truthy (browseErr s))
                (Elem ''div'' [cls ''muted''] [lit ''empty'']),
              Frag (map (browser_row (selected s)) (entries s))],
           show_if (selectedPaths s \<noteq> []) (selection_list (selectedPaths s))]]"

definition str_of :: "jsval \<Rightarrow> string" where
  "str_of v = (case v of Str s \<Rightarrow> s | _ \<Rightarrow> [])"

definition source_form :: "dates \<Rightarrow> rs_state \<Rightarrow> rs_action vnode" where
  "source_form D s =
     Elem ''div'' [cls ''form-row'']
       [Elem ''label'' [] [lit ''Source backup job (the run from which to fetch files)''],
        show_if (sourceLoading s)
          (Elem ''span'' [cls ''muted''] [Elem ''span'' [cls ''spinner''] [], lit '' Loading available backup runs...'']),
        Elem ''select''
          [Attr ''value'' (Inr (sourceJobId s)), onValue ''change'' PickSource, battr ''disabled'' (sourceLoading s)]
          [Elem ''option'' [sattr ''value'' ''''] [lit ''- select -''],
           map_nodes (Inr (sourceJobs s)) (source_option D)]]"

definition options_form :: "rs_state \<Rightarrow> rs_action vnode" where
  "options_form s =
     Frag
      [Elem ''div'' [cls ''form-row'']
        [Elem ''label'' [] [lit ''Target (object store) - optional, defaults to first''],
         Elem ''select'' [Attr ''value'' (Inr (targetName s)), onValue ''change'' PickTarget]
           [Elem ''option'' [sattr ''value'' ''''] [lit ''(default: first defined target)''],
            map_nodes (Inr (rs_targets s)) target_option]],
       Elem ''div'' [cls ''form-row'']
        [Elem ''label'' [] [lit ''Restore directory override (server-side path, optional)''],
         Elem ''input''
           [sattr ''type'' ''text'', Attr ''value'' (Inr (restoreDir s)), onValue ''input'' SetRestoreDir,
            sattr ''placeholder'' ''leave empty to use the server's configured restore_dir''] []],
       Elem ''div'' [cls ''form-row'']
        [Elem ''label'' [] [lit ''Exclusion patterns - optional, one per line''],
         Elem ''textarea''
           [sattr ''rows'' ''3'', cls ''ta'', sattr ''value'' (exclusionsText s),
            onValue ''input'' (\<lambda>v. SetExclusions (str_of v)),
            sattr ''placeholder'' (''e.g. **/*.log'' @ [char_nl] @ ''/data/cache/**'')] []]]"

definition RestoreStartModal :: "dates \<Rightarrow> jsval \<Rightarrow> rs_state \<Rightarrow> rs_action vnode" where
  "RestoreStartModal D name s =
     Elem ''div'' [cls ''modal-backdrop'', onSelfClick RsClose]
      [Elem ''div'' [cls ''modal modal-wide'', sattr ''role'' ''dialog'', sattr ''aria-modal'' ''true'']
        [Elem ''header'' []
          [Elem ''h2'' [] [lit ''Restore from: '', val name],
           Elem ''button'' [onClick RsClose] [lit ''Close'']],
         Elem ''div'' [cls ''body'']
          [show_if (truthy (rs_error s)) (Elem ''div'' [cls ''error''] [val (rs_error s)]),
           source_form D s,
           Elem ''div'' [cls ''form-row'']
            [Elem ''label'' [] [lit ''What to restore''],
             Elem ''label'' [cls ''muted'', sattr ''style'' ''text-transform:none;letter-spacing:0;display:flex;align-items:center;gap:6px'']
              [Elem ''input''
                 [sattr ''type'' ''checkbox'', sattr ''style'' ''min-width:auto;width:auto'', battr ''checked'' (allFiles s),
                  onValue ''change'' (\<lambda>v. SetAllFiles (v = Bool True))] [],
               lit ''Restore '', Elem ''strong'' [] [lit ''all files''], lit '' recorded for this backup run'']],
           show_if (\<not> allFiles s) (file_browser s),
           options_form s],
         Elem ''div'' [cls ''footer'']
          [Elem ''button'' [onClick RsClose, battr ''disabled'' (submitting s)] [lit ''Cancel''],
           Elem ''button''
             [cls ''primary'', onClick Submit, battr ''disabled'' (submitting s \<or> \<not> truthy (sourceJobId s))]
             [lit (if submitting s then ''Starting...'' else ''Start restore'')]]]]"

definition rs_enabled :: "dates \<Rightarrow> jsval \<Rightarrow> rs_state \<Rightarrow> rs_action \<Rightarrow> bool" where
  "rs_enabled D name s a = offers (RestoreStartModal D name s) a"

section \<open>Lemmas\<close>

lemma offers_browser_row:
  "offers (browser_row sel e) a \<longleftrightarrow> a = ToggleSelect (to_str (path e)) \<or> isDir e \<and> a = EnterDir (path e)"
  by (auto simp: browser_row_def)

lemma offers_file_browser:
  "offers (file_browser s) a \<longleftrightarrow>
     a = GoUp \<and> stack s \<noteq> [] \<and> \<not> browsing s \<or>
     a = Reload \<and> \<not> browsing s \<and> truthy (sourceJobId s) \<or>
     (\<exists>e \<in> set (entries s). a = ToggleSelect (to_str (path e)) \<or> isDir e \<and> a = EnterDir (path e)) \<or>
     (\<exists>p \<in> set (selectedPaths s). a = ToggleSelect p)"
  by (auto simp: file_browser_def offers_browser_row selection_list_def)

lemma offers_source_form:
  "offers (source_form D s) a \<longleftrightarrow> (\<exists>v. a = PickSource v) \<and> \<not> sourceLoading s"
  by (auto simp: source_form_def source_option_def)

lemma offers_options_form:
  "offers (options_form s) a \<longleftrightarrow> (\<exists>v. a = PickTarget v \<or> a = SetRestoreDir v) \<or> (\<exists>t. a = SetExclusions t)"
proof -
  have "(\<exists>v. a = SetExclusions (str_of v)) \<longleftrightarrow> (\<exists>t. a = SetExclusions t)"
    by (auto simp: str_of_def intro: exI [of _ "Str _"])
  then show ?thesis by (simp add: options_form_def) blast
qed

lemma offers_RestoreStartModal:
  "offers (RestoreStartModal D name s) a \<longleftrightarrow>
     a = RsClose \<or> (\<exists>v. a = PickSource v) \<and> \<not> sourceLoading s \<or> (\<exists>b. a = SetAllFiles b) \<or>
     \<not> allFiles s \<and> offers (file_browser s) a \<or>
     (\<exists>v. a = PickTarget v \<or> a = SetRestoreDir v) \<or> (\<exists>t. a = SetExclusions t) \<or>
     a = Submit \<and> \<not> submitting s \<and> truthy (sourceJobId s)"
proof -
  have "\<exists>v. a = SetAllFiles (v = Bool True)" if "a = SetAllFiles b" for b
    by (rule exI [of _ "Bool b"]) (simp add: that)
  then have "(\<exists>v. a = SetAllFiles (v = Bool True)) \<longleftrightarrow> (\<exists>b. a = SetAllFiles b)"
    by blast
  then show ?thesis
    by (simp add: RestoreStartModal_def offers_source_form offers_options_form) blast
qed

section \<open>Browsing\<close>

text \<open>An entry as the API declares it: an object with a path, and instances that are absent or a list
  whose first element is an object with an optional type.\<close>
definition typed_entry :: "jsval \<Rightarrow> bool" where
  "typed_entry e \<longleftrightarrow>
     is_obj e \<and> is_str (get_opt e ''path'') \<and>
     (case get_opt e ''instances'' of
        Arr (i # js) \<Rightarrow> is_obj i \<and> (\<not> truthy (get_opt i ''type'') \<or> is_str (get_opt i ''type''))
      | Arr [] \<Rightarrow> True
      | v \<Rightarrow> \<not> truthy v)"

definition entry_item :: "jsval \<Rightarrow> file_item list" where
  "entry_item e = (case fileEntryToItem e of Inr (Some it) \<Rightarrow> [it] | _ \<Rightarrow> [])"

text \<open>What a listing shows: at the virtual root the entries whose parent is not listed itself, in a
  directory everything but the directory.\<close>
definition keeps :: "jsval \<Rightarrow> jsval list \<Rightarrow> jsval \<Rightarrow> file_item \<Rightarrow> bool" where
  "keeps dir es e it \<longleftrightarrow>
     (if dir = Str [] then \<forall>e' \<in> set es. get_opt e' ''path'' \<noteq> parent it else get_opt e ''path'' \<noteq> dir)"

lemma is_strE: "is_str v \<Longrightarrow> (\<And>s. v = Str s \<Longrightarrow> P) \<Longrightarrow> P"
  by (cases v) (auto simp: is_str_def)

lemma strict_eq_is_str: "is_str v \<Longrightarrow> strict_eq v w \<longleftrightarrow> v = w"
  by (cases v; cases w) (simp_all add: is_str_def)

lemma mset_insert_cmp [simp]: "mset (insert_cmp f x ys) = add_mset x (mset ys)"
  by (induction ys) auto

lemma mset_sort_cmp [simp]: "mset (sort_cmp f xs) = mset xs"
  by (induction xs) (simp_all add: sort_cmp_def)

lemma fileEntry_typed:
  assumes "typed_entry e"
  shows "\<exists>r. fileEntryToItem e = Inr r \<and> (case r of None \<Rightarrow> True | Some it \<Rightarrow> path it = get_opt e ''path'')"
proof -
  have e: "get e k = Inr (get_opt e k)" for k using assms get_obj by (simp add: typed_entry_def)
  show ?thesis
  proof (cases "get_opt e ''instances''")
    case (Arr insts)
    show ?thesis
    proof (cases insts)
      case (Cons i js)
      then have i: "get i k = Inr (get_opt i k)" for k
        using assms Arr get_obj by (simp add: typed_entry_def)
      have "\<not> truthy (get_opt i ''type'') \<or> is_str (get_opt i ''type'')"
        using assms Arr Cons by (simp add: typed_entry_def)
      then have "\<exists>t. lower (js_or (get_opt i ''type'') (Str [])) = Inr t"
        by (cases "get_opt i ''type''") (simp_all add: js_or_def is_str_def)
      then obtain t where "lower (js_or (get_opt i ''type'') (Str [])) = Inr t" ..
      then show ?thesis using Arr Cons by (simp add: fileEntryToItem_def e i)
    qed (simp add: fileEntryToItem_def e Arr)
  qed (use assms in \<open>auto simp: fileEntryToItem_def e typed_entry_def split: jsval.splits\<close>)
qed

lemma browse_item_typed:
  assumes "typed_entry e" "\<forall>e \<in> set es. is_str (get_opt e ''path'')"
  shows "\<exists>r. browse_item dir (map (\<lambda>e. get_opt e ''path'') es) e = Inr r \<and>
    (case r of None \<Rightarrow> [] | Some x \<Rightarrow> [x]) = filter (keeps dir es e) (entry_item e)"
proof -
  have e: "get e ''path'' = Inr (get_opt e ''path'')" using assms(1) get_obj by (simp add: typed_entry_def)
  have p: "strict_eq (get_opt e ''path'') v \<longleftrightarrow> get_opt e ''path'' = v" for v
    using assms(1) by (simp add: typed_entry_def strict_eq_is_str)
  have "strict_eq (get_opt e' ''path'') v \<longleftrightarrow> get_opt e' ''path'' = v" if "e' \<in> set es" for e' v
    using assms(2) that by (simp add: strict_eq_is_str)
  then have has: "set_has (map (\<lambda>e. get_opt e ''path'') es) v \<longleftrightarrow> (\<exists>e' \<in> set es. get_opt e' ''path'' = v)" for v
    by (auto simp: set_has_def list_ex_iff)
  obtain r where "fileEntryToItem e = Inr r" using fileEntry_typed [OF assms(1)] by blast
  then show ?thesis
    by (cases r) (auto simp: browse_item_def e p has entry_item_def keeps_def)
qed

lemma concat_filter_items:
  "list_all2 (\<lambda>e r. (case r of None \<Rightarrow> [] | Some x \<Rightarrow> [x]) = f e) es its \<Longrightarrow>
   concat (map (\<lambda>r. case r of None \<Rightarrow> [] | Some x \<Rightarrow> [x]) its) = concat (map f es)"
  by (induction rule: list_all2_induct) simp_all

lemma traverse_choice:
  "(\<And>x. x \<in> set xs \<Longrightarrow> \<exists>y. f x = Inr y \<and> P x y) \<Longrightarrow> \<exists>ys. traverse f xs = Inr ys \<and> list_all2 P xs ys"
  by (induction xs) fastforce+

lemma entry_item_path:
  "typed_entry e \<Longrightarrow> it \<in> set (entry_item e) \<Longrightarrow> is_str (path it)"
  using fileEntry_typed [of e] by (auto simp: entry_item_def typed_entry_def)

lemma browse_items_typed:
  assumes typed: "\<forall>e \<in> set es. typed_entry e"
  shows "browse_items lc dir (Arr es) =
    Inr (sort_cmp (compare_items lc) (concat (map (\<lambda>e. filter (keeps dir es e) (entry_item e)) es)))"
proof -
  let ?kept = "concat (map (\<lambda>e. filter (keeps dir es e) (entry_item e)) es)"
  let ?paths = "map (\<lambda>e. get_opt e ''path'') es"
  have str: "\<forall>e \<in> set es. is_str (get_opt e ''path'')" using typed by (simp add: typed_entry_def)
  have "traverse (\<lambda>e. get e ''path'') es = Inr ?paths"
    using typed get_obj by (intro traverse_all_Inr) (simp add: typed_entry_def)
  moreover obtain its where "traverse (browse_item dir ?paths) es = Inr its"
      "list_all2 (\<lambda>e r. (case r of None \<Rightarrow> [] | Some x \<Rightarrow> [x]) = filter (keeps dir es e) (entry_item e)) es its"
    using traverse_choice [of es "browse_item dir ?paths"
        "\<lambda>e r. (case r of None \<Rightarrow> [] | Some x \<Rightarrow> [x]) = filter (keeps dir es e) (entry_item e)"]
      browse_item_typed [OF _ str] typed by blast
  moreover have "list_all (\<lambda>it. is_str (path it)) ?kept"
    using typed entry_item_path by (auto simp: list_all_iff)
  ultimately show ?thesis
    by (simp add: browse_items_def concat_filter_items sort_items_def)
qed

lemma compare_items_total:
  assumes "\<And>a b. lc a b \<le> 0 \<or> lc b a \<le> (0::int)"
  shows "compare_items lc a b \<le> 0 \<or> compare_items lc b a \<le> 0"
  using assms by (auto simp: compare_items_def)

lemma compare_items_trans:
  assumes "\<And>a b c. lc a b \<le> 0 \<Longrightarrow> lc b c \<le> 0 \<Longrightarrow> lc a c \<le> (0::int)"
  shows "compare_items lc a b \<le> 0 \<Longrightarrow> compare_items lc b c \<le> 0 \<Longrightarrow> compare_items lc a c \<le> 0"
  using assms [of "to_str (path a)" "to_str (path b)" "to_str (path c)"]
  by (simp add: compare_items_def split: if_splits)

section \<open>Selection\<close>

text \<open>The selection is a set kept as an object: each selected path once, marked \<open>true\<close>.\<close>
definition selection_ok :: "(string \<times> jsval) list \<Rightarrow> bool" where
  "selection_ok sel \<longleftrightarrow> distinct (map fst sel) \<and> (\<forall>kv \<in> set sel. snd kv = Bool True)"

lemma selected_true: "selection_ok sel \<Longrightarrow> p \<in> fst ` set sel \<Longrightarrow> obj_get sel p = Bool True"
proof -
  assume ok: "selection_ok sel" and "p \<in> fst ` set sel"
  then obtain v where "map_of sel p = Some v" by (meson map_of_eq_None_iff not_None_eq)
  moreover from this have "(p, v) \<in> set sel" by (rule map_of_SomeD)
  ultimately show ?thesis using ok by (auto simp: selection_ok_def obj_get_def)
qed

lemma not_selected: "p \<notin> fst ` set sel \<Longrightarrow> p \<notin> set object_prototype \<Longrightarrow> obj_get sel p = Undef"
  using map_of_eq_None_iff [of sel p] by (simp add: obj_get_def)

lemma selection_lookup:
  "selection_ok sel \<Longrightarrow> p \<notin> set object_prototype \<Longrightarrow> truthy (obj_get sel p) \<longleftrightarrow> p \<in> fst ` set sel"
  using selected_true not_selected by (cases "p \<in> fst ` set sel") simp_all

lemma selection_ok_toggle:
  assumes ok: "selection_ok sel"
  shows "selection_ok (toggle p sel)"
proof (cases "truthy (obj_get sel p)")
  case True
  then show ?thesis
    using ok by (auto simp: toggle_def obj_delete_def selection_ok_def distinct_map inj_on_def)
next
  case False
  then have "p \<notin> fst ` set sel" using selected_true [OF ok, of p] by force
  then show ?thesis
    using ok False by (auto simp: toggle_def obj_assign_def selection_ok_def update_append)
qed

lemma keys_toggle:
  assumes "selection_ok sel" "p \<notin> set object_prototype"
  shows "fst ` set (toggle p sel) =
    (if p \<in> fst ` set sel then fst ` set sel - {p} else insert p (fst ` set sel))"
proof (cases "p \<in> fst ` set sel")
  case True
  then show ?thesis using selected_true [OF assms(1)] by (force simp: toggle_def obj_delete_def)
next
  case False
  have "p \<noteq> ''__proto__''" using assms(2) by (auto simp: object_prototype_def)
  then show ?thesis
    using False not_selected [OF False assms(2)] by (simp add: toggle_def obj_assign_def update_append)
qed

section \<open>Invariant\<close>

text \<open>Up leads back to the root: the root is at the bottom of the stack, and is open when it is empty.\<close>
definition nav_ok :: "rs_state \<Rightarrow> bool" where
  "nav_ok s \<longleftrightarrow> hd (stack s @ [cwd s]) = Str []"

definition input_ok :: "jsval \<Rightarrow> bool" where
  "input_ok input \<longleftrightarrow>
     truthy (get_opt input ''source_backup_job_id'') \<and>
     (get_opt input ''all_files'' = Bool True \<and> get_opt input ''files'' = Undef \<or>
      get_opt input ''all_files'' = Undef \<and>
      (\<exists>ps. ps \<noteq> [] \<and> sorted ps \<and> distinct ps \<and> get_opt input ''files'' = Arr (map Str ps)))"

fun rs_start_of :: "rs_call \<Rightarrow> jsval option" where
  "rs_start_of (RsStartRestore input) = Some input"
| "rs_start_of _ = None"

definition rs_ok :: "rs_state \<Rightarrow> rs_call list \<Rightarrow> bool" where
  "rs_ok s cs \<longleftrightarrow>
     selection_ok (selected s) \<and> nav_ok s \<and>
     (\<forall>c \<in> set cs. \<forall>input. rs_start_of c = Some input \<longrightarrow> input_ok input) \<and>
     length (filter (\<lambda>c. rs_start_of c \<noteq> None) cs) = (if submitting s then 1 else 0)"

lemmas rs_handlers = loadDir_def reload_root_def after_change_def enterDir_def goUp_def toggleSelect_def

text \<open>Every step but the submission leaves the start requests alone.\<close>
definition rs_quiet :: "rs_state \<Rightarrow> rs_state \<times> rs_call list \<Rightarrow> bool" where
  "rs_quiet s r \<longleftrightarrow>
     submitting (fst r) = submitting s \<and> selected (fst r) = selected s \<and>
     (nav_ok s \<longrightarrow> nav_ok (fst r)) \<and> (\<forall>c \<in> set (snd r). rs_start_of c = None)"

lemma rs_quiet_ok:
  assumes "rs_quiet s r" "rs_ok s cs"
  shows "rs_ok (fst r) (cs @ snd r)"
proof -
  have "filter (\<lambda>c. rs_start_of c \<noteq> None) (snd r) = []"
    using assms(1) by (auto simp: rs_quiet_def filter_empty_conv)
  then show ?thesis using assms by (auto simp: rs_quiet_def rs_ok_def)
qed

lemma loadDir_quiet: "rs_quiet s (loadDir p s)"
  by (auto simp: rs_quiet_def loadDir_def nav_ok_def)

lemma reload_root_quiet: "rs_quiet s (reload_root s)"
  by (auto simp: rs_quiet_def reload_root_def loadDir_def nav_ok_def)

lemma after_change_quiet:
  "submitting s' = submitting s \<Longrightarrow> selected s' = selected s \<Longrightarrow> stack s' = stack s \<Longrightarrow> cwd s' = cwd s \<Longrightarrow>
   rs_quiet s (after_change s s')"
  using reload_root_quiet [of s'] by (auto simp: rs_quiet_def after_change_def nav_ok_def)

lemma enterDir_quiet: "rs_quiet s (enterDir p s)"
  by (cases "stack s") (auto simp: rs_quiet_def enterDir_def loadDir_def nav_ok_def)

lemma goUp_quiet: "rs_quiet s (goUp s)"
proof (cases "stack s" rule: rev_cases)
  case (snoc st up)
  then show ?thesis by (cases st) (auto simp: rs_quiet_def goUp_def loadDir_def nav_ok_def)
qed (simp add: rs_quiet_def goUp_def)

lemma sources_done_quiet: "rs_quiet s (sources_done r s)"
  by (auto simp: sources_done_def Let_def split: sum.splits option.splits intro: after_change_quiet)
    (auto simp: rs_quiet_def nav_ok_def)

lemma other_quiet:
  "rs_quiet s (targets_done n r s, [])" "rs_quiet s (loadDir_done lc p q s, [])"
  by (auto simp: rs_quiet_def targets_done_def loadDir_done_def nav_ok_def Let_def split: sum.splits)

lemma restore_input_ok:
  assumes "truthy (sourceJobId s)" "allFiles s \<or> selectedPaths s \<noteq> []" "selection_ok (selected s)"
  shows "input_ok (restore_input name s)"
  using assms
  by (auto simp: input_ok_def restore_input_def Let_def obj_get_def selectedPaths_def selection_ok_def)

lemma onSubmit_ok:
  assumes "rs_ok s cs" "\<not> submitting s"
  shows "rs_ok (fst (onSubmit name s)) (cs @ snd (onSubmit name s))"
proof -
  have none: "filter (\<lambda>c. rs_start_of c \<noteq> None) cs = []" using assms by (simp add: rs_ok_def)
  show ?thesis
  proof (cases "truthy (sourceJobId s) \<and> (allFiles s \<or> selectedPaths s \<noteq> [])")
    case True
    then have "input_ok (restore_input name (s\<lparr>rs_error := Null\<rparr>))"
      using assms(1) by (intro restore_input_ok) (simp_all add: rs_ok_def selectedPaths_def)
    then show ?thesis
      using True assms none
      by (auto simp: onSubmit_def Let_def selectedPaths_def rs_ok_def nav_ok_def)
  next
    case False
    then have "rs_quiet s (onSubmit name s)"
      by (auto simp: onSubmit_def Let_def selectedPaths_def rs_quiet_def nav_ok_def)
    then show ?thesis by (rule rs_quiet_ok [OF _ assms(1)])
  qed
qed

lemma rs_act_quiet: "a \<noteq> Submit \<Longrightarrow> \<nexists>p. a = ToggleSelect p \<Longrightarrow> rs_quiet s (rs_act name s a)"
  by (cases a) (simp_all add: after_change_quiet enterDir_quiet goUp_quiet loadDir_quiet,
    simp_all add: rs_quiet_def nav_ok_def)

lemma rs_act_ok:
  assumes ok: "rs_ok s cs" and en: "rs_enabled D name s a"
  shows "rs_ok (fst (rs_act name s a)) (cs @ snd (rs_act name s a))"
proof -
  consider "a = Submit" | p where "a = ToggleSelect p" | "a \<noteq> Submit" "\<nexists>p. a = ToggleSelect p" by blast
  then show ?thesis
  proof cases
    case 1
    then have "\<not> submitting s"
      using en by (auto simp: rs_enabled_def offers_RestoreStartModal offers_file_browser)
    then show ?thesis using 1 onSubmit_ok [OF ok] by simp
  next
    case 2
    then show ?thesis using ok selection_ok_toggle by (simp add: rs_ok_def toggleSelect_def nav_ok_def)
  next
    case 3
    then show ?thesis by (rule rs_quiet_ok [OF rs_act_quiet ok])
  qed
qed

lemma rs_ok_remove:
  assumes "rs_ok s (cs1 @ c # cs2)" "rs_start_of c = None"
  shows "rs_ok s (cs1 @ cs2)"
  using assms by (auto simp: rs_ok_def)

lemma rs_answer_ok:
  assumes "rs_ok s (cs1 @ c # cs2)"
  shows "rs_ok (fst (rs_answer lc conn name s c fetch)) (cs1 @ cs2 @ snd (rs_answer lc conn name s c fetch))"
proof (cases "rs_start_of c")
  case None
  then have "rs_quiet s (rs_answer lc conn name s c fetch)"
    using sources_done_quiet other_quiet by (cases c) (auto simp: rs_quiet_def)
  then show ?thesis using rs_quiet_ok [OF _ rs_ok_remove [OF assms None]] by simp
next
  case (Some input)
  then have c: "c = RsStartRestore input" by (cases c) simp_all
  then have "submitting s" "filter (\<lambda>c. rs_start_of c \<noteq> None) (cs1 @ cs2) = []"
    using assms by (auto simp: rs_ok_def split: if_splits)
  then show ?thesis
    using assms c by (auto simp: onSubmit_done_def rs_ok_def nav_ok_def filter_empty_conv split: sum.splits)
qed

interpretation rs: component_invariant rs_init "rs_enabled D name" "rs_act name" "rs_answer lc conn name" rs_ok
proof unfold_locales
  show "rs_ok (fst rs_init) (snd rs_init)"
    by (simp add: rs_init_def reload_root_def loadDir_def rs_mounted_def rs_ok_def selection_ok_def nav_ok_def)
qed (auto intro: rs_act_ok rs_answer_ok)

section \<open>Properties\<close>


text \<open>A directory and a file in it, listed from the root.\<close>
definition sample_entries :: "jsval list" where
  "sample_entries =
     [Obj [(''path'', Str ''/d/f''), (''parent'', Str ''/d''),
           (''instances'', Arr [Obj [(''type'', Str ''file''), (''size'', Num 3)]])],
      Obj [(''path'', Str ''/d''), (''parent'', Str ''/''),
           (''instances'', Arr [Obj [(''type'', Str ''Directory'')]])]]"


text \<open>C7. In every run of the dialog, every start request in flight names a source run and either all
  files or a non-empty list of distinct paths in order (never both), at most one is in flight, and
  the virtual root is at the bottom of the directory stack, so that going up ends there.\<close>
theorem restore_requests_valid:
  assumes "component_run rs_init (rs_enabled D name) (rs_act name) (rs_answer lc conn name) (s, cs)"
  shows "(\<forall>input. RsStartRestore input \<in> set cs \<longrightarrow> input_ok input) \<and>
    length (filter (\<lambda>c. rs_start_of c \<noteq> None) cs) = (if submitting s then 1 else 0) \<and>
    hd (stack s @ [cwd s]) = Str [] \<and> sorted (selectedPaths s) \<and> distinct (selectedPaths s)"
proof -
  have "rs_ok s cs" using rs.run_ok [OF assms] by simp
  then show ?thesis
    unfolding rs_ok_def nav_ok_def selection_ok_def selectedPaths_def by fastforce
qed

text \<open>Ticking a path flips whether it is selected and nothing else: after a click on a path that is not
  the name of a built-in object member, the paths to restore are the old ones with that path
  added, or removed if it was among them; a second click undoes the first.\<close>
theorem toggle_flips_selection:
  assumes "selection_ok (selected s)" "p \<notin> set object_prototype"
  shows "set (selectedPaths (toggleSelect p s)) =
      (if p \<in> set (selectedPaths s) then set (selectedPaths s) - {p} else insert p (set (selectedPaths s))) \<and>
    selectedPaths (toggleSelect p (toggleSelect p s)) = selectedPaths s"
proof -
  have keys: "set (selectedPaths t) = fst ` set (selected t)" for t by (simp add: selectedPaths_def)
  have ok: "selection_ok (toggle p (selected s))" "selection_ok (toggle p (toggle p (selected s)))"
    using assms(1) selection_ok_toggle by blast+
  have "fst ` set (toggle p (toggle p (selected s))) = fst ` set (selected s)"
    using keys_toggle [OF assms] keys_toggle [OF ok(1) assms(2)] by auto
  then have "sort (map fst (toggle p (toggle p (selected s)))) = sort (map fst (selected s))"
    using assms(1) ok(2)
    by (intro sorted_distinct_set_unique) (simp_all add: selection_ok_def)
  then show ?thesis
    using keys_toggle [OF assms] by (simp add: keys toggleSelect_def) (simp add: selectedPaths_def)
qed

theorem toggle_flips_selection_witness:
  "set (selectedPaths (toggleSelect ''/d'' rs_mounted)) = {''/d''}"
  using toggle_flips_selection [of rs_mounted "''/d''"]
  by (simp add: rs_mounted_def selection_ok_def object_prototype_def selectedPaths_def)

text \<open>Entering a directory and going up again restores where one was, and asks the server for the
  listing of that directory again.\<close>
theorem enter_then_up:
  "let s1 = fst (rs_act name s (EnterDir p)); (s2, cs) = rs_act name s1 GoUp in
   cwd s2 = cwd s \<and> stack s2 = stack s \<and>
   cs = (if truthy (sourceJobId s) then [RsListFiles (sourceJobId s) (cwd s) (cwd s = Str [])] else [])"
  by (simp add: rs_handlers Let_def)

lemma json_text_drop_undef: "json_text (Obj kvs) = json_text (Obj (filter (\<lambda>(k, v). \<not> is_undef v) kvs))"
  by (simp add: filter_filter case_prod_unfold)

text \<open>C17. The request that starts a restore says what the form says: its body parses back to the form's
  fields, with the fields that were left empty (target, directory, exclusions) absent, the files
  absent when everything is restored and \<open>all_files\<close> absent otherwise.\<close>
theorem restore_request_body:
  assumes "jsonable name" "jsonable (sourceJobId s)" "jsonable (targetName s)" "jsonable (restoreDir s)"
  defines "ex \<equiv> exclusions_of (exclusionsText s)"
  shows "\<exists>t. req_body (json_request conn ''/restore/start'' ''POST'' (restore_input name s)) = Some t \<and>
    JSON_parse t = Some (Obj (
      [(''name'', name), (''source_backup_job_id'', sourceJobId s)] @
      (if truthy (targetName s) then [(''target_name'', targetName s)] else []) @
      (if truthy (restoreDir s) then [(''restore_dir'', restoreDir s)] else []) @
      (if allFiles s then [(''all_files'', Bool True)]
       else [(''files'', Arr (map Str (selectedPaths s)))]) @
      (if ex \<noteq> [] then [(''exclusions'', Arr (map Str ex))] else [])))"
    (is "\<exists>t. _ \<and> JSON_parse t = Some (Obj ?fields)")
proof -
  have undef: "\<not> is_undef name" "\<not> is_undef (sourceJobId s)" "\<not> is_undef (targetName s)" "\<not> is_undef (restoreDir s)"
    using assms(1-4) jsonable_not_undef by blast+
  have "json_text (restore_input name s) = json_text (Obj ?fields)"
    unfolding restore_input_def Let_def
    by (subst json_text_drop_undef)
      (simp add: undef ex_def or_undef_def js_or_def is_undef_def [of Undef] is_undef_def [of "Bool True"]
        is_undef_def [of "Arr _"])
  moreover have "JSON_parse (json_text (Obj ?fields)) = Some (Obj ?fields)"
    by (rule JSON_roundtrip) (use assms(1-4) in auto)
  moreover have "req_body (json_request conn ''/restore/start'' ''POST'' (restore_input name s)) =
      Some (json_text (restore_input name s))"
    by (simp add: json_request_def restore_input_def Let_def JSON_stringify_def is_undef_def)
  ultimately show ?thesis by auto
qed

theorem restore_request_body_witness:
  "\<exists>t. req_body (json_request sample_conn ''/restore/start'' ''POST''
       (restore_input (Str ''home'') (rs_mounted\<lparr>allFiles := True, sourceJobId := Str ''j''\<rparr>))) = Some t \<and>
     JSON_parse t = Some (Obj [(''name'', Str ''home''), (''source_backup_job_id'', Str ''j''),
       (''all_files'', Bool True)])"
  using restore_request_body [of "Str ''home''" "rs_mounted\<lparr>allFiles := True, sourceJobId := Str ''j''\<rparr>" sample_conn]
  by (simp add: rs_mounted_def exclusions_of_def)

text \<open>Exclusion patterns are the lines of the text: every pattern sent is a trimmed, non-empty line
  without line breaks, and every line that is not blank is sent, in order.\<close>
theorem exclusions_are_lines:
  "(\<forall>p. p \<in> set (exclusions_of t) \<longleftrightarrow> p \<noteq> [] \<and> (\<exists>l \<in> set (split_on char_nl t). p = trim l)) \<and>
   exclusions_of (join_with [char_nl] (exclusions_of t)) = exclusions_of t"
proof
  show "\<forall>p. p \<in> set (exclusions_of t) \<longleftrightarrow> p \<noteq> [] \<and> (\<exists>l \<in> set (split_on char_nl t). p = trim l)"
    by (auto simp: exclusions_of_def)
  have sub: "set (trim w) \<subseteq> set w" for w
    by (auto simp: trim_def dest!: set_dropWhileD)
  have split_join: "ws \<noteq> [] \<Longrightarrow> (\<forall>w \<in> set ws. char_nl \<notin> set w) \<Longrightarrow> split_on char_nl (join_with [char_nl] ws) = ws" for ws
  proof (induction "[char_nl]" ws rule: join_with.induct)
    case (3 w w' ws)
    then show ?case by (simp add: split_on_append_sep)
  qed (simp_all add: split_on_no_sep)
  let ?ex = "exclusions_of t"
  have "\<forall>w \<in> set ?ex. char_nl \<notin> set w \<and> trim w = w \<and> w \<noteq> []"
    using sub split_on_pieces by (fastforce simp: exclusions_of_def)
  then show "exclusions_of (join_with [char_nl] ?ex) = ?ex"
  proof (cases "?ex = []")
    case True
    have "exclusions_of [] = []" by (simp add: exclusions_of_def)
    then show ?thesis using True by simp
  next
    case False
    then have "split_on char_nl (join_with [char_nl] ?ex) = ?ex"
      using \<open>\<forall>w \<in> set ?ex. _ w\<close> by (intro split_join) simp_all
    then show ?thesis
      using \<open>\<forall>w \<in> set ?ex. _ w\<close>
      by (simp add: exclusions_of_def [of "join_with [char_nl] ?ex"] map_idI)
  qed
qed

text \<open>C37. The selection outlives the run it was made in: choosing another backup run reloads the browser
  but keeps the selected paths, and submitting then asks for those paths of the other run.\<close>
theorem selection_survives_source_change:
  assumes "\<not> allFiles s" "selectedPaths s \<noteq> []" "j \<noteq> sourceJobId s" "truthy j"
  shows "let s1 = fst (rs_act name s (PickSource j)) in
    entries s1 = [] \<and> selectedPaths s1 = selectedPaths s \<and>
    (\<exists>input. snd (rs_act name s1 Submit) = [RsStartRestore input] \<and>
       get_opt input ''source_backup_job_id'' = j \<and> get_opt input ''files'' = Arr (map Str (selectedPaths s)))"
  using assms
  by (simp add: rs_handlers Let_def selectedPaths_def onSubmit_def restore_input_def obj_get_def)

theorem selection_survives_source_change_witness:
  "selectedPaths (fst (rs_act (Str ''home'') (rs_mounted\<lparr>selected := [(''/d'', Bool True)]\<rparr>)
     (PickSource (Str ''j2'')))) = [''/d'']"
  using selection_survives_source_change
    [of "rs_mounted\<lparr>selected := [(''/d'', Bool True)]\<rparr>" "Str ''j2''" "Str ''home''"]
  by (simp add: rs_mounted_def selectedPaths_def Let_def)

text \<open>Listings are not matched to the open directory: while one directory is loading another can be
  entered from the old list, and if the replies arrive in the other order the entries of the first
  are shown under the path of the second.\<close>
theorem stale_listing_shown:
  assumes "a \<in> set (entries s)" "b \<in> set (entries s)" "isDir a" "isDir b" "\<not> allFiles s" "truthy (sourceJobId s)"
    and "listBackupFiles server conn name (sourceJobId s) (path a) (path a = Str []) Undef = Inr pa"
    and "browse_items lc (path a) (items pa) = Inr ia"
    and "listBackupFiles server conn name (sourceJobId s) (path b) (path b = Str []) Undef = Inr pb"
    and "browse_items lc (path b) (items pb) = Inr ib"
  defines "s1 \<equiv> fst (rs_act name s (EnterDir (path a)))"
  defines "s2 \<equiv> fst (rs_act name s1 (EnterDir (path b)))"
  defines "s3 \<equiv> fst (rs_answer lc conn name s2 (RsListFiles (sourceJobId s) (path b) (path b = Str [])) server)"
  defines "s4 \<equiv> fst (rs_answer lc conn name s3 (RsListFiles (sourceJobId s) (path a) (path a = Str [])) server)"
  shows "rs_enabled D name s (EnterDir (path a)) \<and> rs_enabled D name s1 (EnterDir (path b)) \<and>
    cwd s4 = path b \<and> entries s4 = ia \<and> \<not> browsing s4"
proof -
  have s1: "entries s1 = entries s" "\<not> allFiles s1" "sourceJobId s1 = sourceJobId s"
    using assms(5) by (simp_all add: s1_def rs_handlers)
  have "rs_enabled D name s (EnterDir (path a))" "rs_enabled D name s1 (EnterDir (path b))"
    using assms(1-5) s1 by (auto simp: rs_enabled_def offers_RestoreStartModal offers_file_browser)
  moreover have "cwd s4 = path b" "entries s4 = ia" "\<not> browsing s4"
    using assms(6-10) s1 by (simp_all add: s4_def s3_def s2_def loadDir_done_def rs_handlers)
  ultimately show ?thesis by blast
qed

section \<open>Examples\<close>

abbreviation sample_rs_run :: "rs_state \<times> rs_call list \<Rightarrow> bool" where
  "sample_rs_run \<equiv> component_run rs_init (rs_enabled no_dates (Str ''home'')) (rs_act (Str ''home''))
     (rs_answer (\<lambda>_ _. 0) sample_conn (Str ''home''))"

definition sample_picked :: rs_state where
  "sample_picked = rs_mounted\<lparr>sourceJobs := Arr [sample_failed], sourceJobId := Str ''r1'', browsing := True\<rparr>"

lemma sample_rs_picked:
  "sample_rs_run (sample_picked, [RsGetConfig, RsListFiles (Str ''r1'') (Str []) True])"
proof -
  have "sample_rs_run (rs_mounted\<lparr>sourceLoading := True\<rparr>, [RsListReports, RsGetConfig])"
    using component_run.mounted [of rs_init] by (simp add: rs_init_def rs_handlers rs_mounted_def)
  from run_answer_first [OF this, of restore_server] show ?thesis
    by (simp add: listReports_def sample_list_def page_of_def obj_get_def coalesce_def nullish_def sources_done_def
        sample_failed_def rs_handlers sample_picked_def rs_mounted_def)
qed

lemma sample_rs_all:
  "sample_rs_run (sample_picked\<lparr>allFiles := True\<rparr>, [RsGetConfig, RsListFiles (Str ''r1'') (Str []) True])"
proof -
  have "rs_enabled no_dates (Str ''home'') sample_picked (SetAllFiles True)"
    by (auto simp: rs_enabled_def offers_RestoreStartModal)
  from run_act [OF sample_rs_picked, OF this] show ?thesis
    by (simp add: rs_handlers sample_picked_def rs_mounted_def)
qed

lemma sample_rs_submitted:
  "sample_rs_run (sample_picked\<lparr>allFiles := True, submitting := True\<rparr>,
     [RsGetConfig, RsListFiles (Str ''r1'') (Str []) True,
      RsStartRestore (restore_input (Str ''home'') (sample_picked\<lparr>allFiles := True\<rparr>))])"
proof -
  have "rs_enabled no_dates (Str ''home'') (sample_picked\<lparr>allFiles := True\<rparr>) Submit"
    by (simp add: rs_enabled_def offers_RestoreStartModal sample_picked_def rs_mounted_def)
  from run_act [OF sample_rs_all, OF this] show ?thesis
    by (simp add: onSubmit_def sample_picked_def rs_mounted_def)
qed

theorem restore_requests_valid_witness:
  "input_ok (restore_input (Str ''home'') (sample_picked\<lparr>allFiles := True\<rparr>))"
  using restore_requests_valid [OF sample_rs_submitted] by simp

definition sample_dirs :: rs_state where
  "sample_dirs = rs_mounted\<lparr>sourceJobId := Str ''j'', entries :=
     [\<lparr>path = Str ''/a'', parent = Str ''/'', isDir = True, size = Num 0\<rparr>,
      \<lparr>path = Str ''/b'', parent = Str ''/'', isDir = True, size = Num 0\<rparr>]\<rparr>"

theorem stale_listing_shown_witness:
  "rs_enabled no_dates (Str ''home'')
     (fst (rs_act (Str ''home'') sample_dirs (EnterDir (Str ''/a'')))) (EnterDir (Str ''/b''))"
proof -
  let ?a = "\<lparr>path = Str ''/a'', parent = Str ''/'', isDir = True, size = Num 0\<rparr>"
  let ?b = "\<lparr>path = Str ''/b'', parent = Str ''/'', isDir = True, size = Num 0\<rparr>"
  have list: "listBackupFiles restore_server sample_conn (Str ''home'') (Str ''j'') p d Undef =
      Inr \<lparr>items = Arr [sample_failed], next = Str []\<rparr>" for p d
    by (simp add: listBackupFiles_def sample_list_def page_of_def obj_get_def coalesce_def nullish_def)
  have browse: "browse_items (\<lambda>_ _. 0) (Str p) (Arr [sample_failed]) = Inr []" for p
    by (simp add: browse_items_def browse_item_def sample_failed_def fileEntryToItem_def obj_get_def
        object_prototype_def sort_items_def sort_cmp_def)
  show ?thesis
    using stale_listing_shown [of ?a sample_dirs ?b restore_server sample_conn "Str ''home''"
        "\<lparr>items = Arr [sample_failed], next = Str []\<rparr>" "\<lambda>_ _. 0" "[]"
        "\<lparr>items = Arr [sample_failed], next = Str []\<rparr>" "[]" no_dates]
    by (simp add: list browse sample_dirs_def rs_mounted_def)
qed

end
