(* ===== verification/App.thy ===== *)
theory App
  imports Restore_Start
begin

text \<open>
  The page of \<open>js/app.js\<close>: \<open>App\<close> with its polling, its operations on jobs and the dialogs it opens,
  the job cards, and the connection dialog.

  A call in flight carries the connection its closure captured; an operation's follow-up refresh
  carries the key whose busy mark it clears.  \<open>Promise.all\<close> is read as: if both requests fail, the
  first one's error is reported.  A dialog is a leaf of the page's tree that offers its callbacks.
\<close>

section \<open>Job cards\<close>

text \<open>\<open>a + b\<close>\<close>
fun num_of :: "jsval \<Rightarrow> rat option" where
  "num_of (Num x) = Some x"
| "num_of (Bool b) = Some (if b then 1 else 0)"
| "num_of Null = Some 0"
| "num_of _ = None"

definition is_primitive :: "jsval \<Rightarrow> bool" where
  "is_primitive v = (case v of Str _ \<Rightarrow> False | Arr _ \<Rightarrow> False | Obj _ \<Rightarrow> False | Fn _ \<Rightarrow> False | _ \<Rightarrow> True)"

definition js_plus :: "jsval \<Rightarrow> jsval \<Rightarrow> jsval" where
  "js_plus a b =
     (if is_primitive a \<and> is_primitive b then
        (case (num_of a, num_of b) of (Some x, Some y) \<Rightarrow> Num (x + y) | _ \<Rightarrow> NaN)
      else Str (to_str a @ to_str b))"

definition or_zero :: "jsval jsr \<Rightarrow> jsval jsr" where
  "or_zero r = mapr (\<lambda>v. js_or v (Num 0)) r"

text \<open>\<open>(s.a || 0) + (s.b || 0) + (s.c || 0)\<close> with \<open>s = job.stats_counters || {}\<close>\<close>
definition sum_counters :: "jsval \<Rightarrow> string \<Rightarrow> string \<Rightarrow> string \<Rightarrow> jsval jsr" where
  "sum_counters job a b c =
     bindr (counters job) (\<lambda>s.
     bindr (or_zero (get s a)) (\<lambda>x. bindr (or_zero (get s b)) (\<lambda>y. bindr (or_zero (get s c)) (\<lambda>z.
       Inr (js_plus (js_plus x y) z)))))"

text \<open>The callbacks of a card.\<close>
record 'a card_actions =
  onStart :: 'a
  onStop :: 'a
  onWatch :: 'a
  onReports :: 'a
  onRestore :: 'a
  onWatchRestore :: "jsval \<Rightarrow> 'a"
  onStopRestore :: "jsval \<Rightarrow> 'a"
  onRestoreReports :: 'a

definition labelled :: "string \<Rightarrow> 'a vnode \<Rightarrow> 'a vnode" where
  "labelled l n = Elem ''span'' [] [Elem ''strong'' [] [lit l], lit '' '', n]"

definition stat_cell :: "string \<Rightarrow> 'a vnode list \<Rightarrow> 'a vnode" where
  "stat_cell l ns = Elem ''div'' [] [Elem ''span'' [] [lit l], Elem ''strong'' [] ns]"

definition card_stats :: "jsval \<Rightarrow> 'a vnode" where
  "card_stats job =
     Elem ''div'' [cls ''stats'']
       [stat_cell ''Examined'' [dyn (sum_counters job ''examined_files'' ''examined_directories'' ''examined_symlinks'')],
        stat_cell ''Uploaded'' [dyn (sum_counters job ''uploaded_files'' ''uploaded_directories'' ''uploaded_symlinks'')],
        stat_cell ''Read'' [dyn (bindr (get job ''file_content_bytes_read'') fmtBytes)],
        stat_cell ''Rate 1m'' [dyn (bindr (get job ''rate_1min'') fmtBytes), lit ''/s''],
        stat_cell ''Failed'' [dyn (bindr (counters job) (\<lambda>s. or_zero (get s ''failed_to_upload_files'')))],
        stat_cell ''Excluded'' [dyn (bindr (counters job) (\<lambda>s. or_zero (get s ''excluded'')))]]"

definition current_file :: "jsval \<Rightarrow> jsval jsr" where
  "current_file job = mapr (\<lambda>t. get_opt t ''current_file'') (get job ''stats_text'')"

definition job_actions :: "bool \<Rightarrow> bool \<Rightarrow> bool \<Rightarrow> 'a card_actions \<Rightarrow> 'a vnode" where
  "job_actions running busy restoreRunning acts =
     Elem ''div'' [cls ''actions'']
       [if running then
          Frag [Elem ''button'' [cls ''danger'', battr ''disabled'' busy, onClick (onStop acts)] [lit ''Stop''],
                Elem ''button'' [onClick (onWatch acts)] [lit ''Watch progress'']]
        else
          Elem ''button'' [cls ''primary'', battr ''disabled'' (busy \<or> restoreRunning), onClick (onStart acts)]
            [lit ''Start now''],
        Elem ''button'' [onClick (onReports acts)] [lit ''Reports'']]"

definition restore_row ::
  "dates \<Rightarrow> bool \<Rightarrow> bool \<Rightarrow> bool \<Rightarrow> jsval \<Rightarrow> 'a card_actions \<Rightarrow> 'a vnode" where
  "restore_row D running restoreRunning restoreBusy restore acts =
     Elem ''div'' [cls ''restore-row'']
       [Elem ''div'' [cls ''restore-row-head'']
          [Elem ''span'' [cls ''restore-label''] [lit ''Restore''],
           if restoreRunning then state_span (get restore ''state'')
           else Elem ''span'' [cls ''state''] [lit ''idle'']],
        show_if restoreRunning
          (Elem ''div'' [cls ''meta'']
             [if_val (get restore ''job_id'')
                (labelled ''Restore id:'' (Elem ''code'' [] [dyn (get restore ''job_id'')])) Empty,
              labelled ''Started:'' (dyn (bindr (get restore ''start_time'') (fmtTime D))),
              with_val (current_file restore) (\<lambda>f. show_if (truthy f)
                (Elem ''span'' [cls ''muted'', Attr ''title'' (Inr f)] [val f]))]),
        Elem ''div'' [cls ''actions'']
          [if restoreRunning then
             Frag [Elem ''button''
                     [cls ''danger'', battr ''disabled'' restoreBusy,
                      onClickGet (get restore ''job_id'') (\<lambda>v. onStopRestore acts (js_or v (Str [])))]
                     [lit ''Stop restore''],
                   Elem ''button''
                     [onClickGet (get restore ''job_id'') (\<lambda>v. onWatchRestore acts (js_or v (Str [])))]
                     [lit ''Watch restore'']]
           else
             Elem ''button'' [cls ''primary'', battr ''disabled'' running, onClick (onRestore acts)]
               [lit ''Restore...''],
           Elem ''button'' [onClick (onRestoreReports acts)] [lit ''Restore reports'']]]"

definition JobCard ::
  "dates \<Rightarrow> jsval \<Rightarrow> jsval \<Rightarrow> bool \<Rightarrow> bool \<Rightarrow> 'a card_actions \<Rightarrow> 'a vnode" where
  "JobCard D job restore busy restoreBusy acts =
     with_val (get job ''state'') (\<lambda>st.
     with_val (if truthy restore then get restore ''state'' else Inr Undef) (\<lambda>rst.
       let running = isRunning st; restoreRunning = (truthy restore \<and> isRunning rst) in
       Elem ''div'' [cls ''job'']
         [Elem ''header'' []
            [Elem ''h2'' [Attr ''title'' (get job ''name'')] [dyn (get job ''name'')],
             state_span (Inr st)],
          Elem ''div'' [cls ''meta'']
            [labelled ''Started:'' (dyn (bindr (get job ''start_time'') (fmtTime D))),
             labelled ''Ended:'' (dyn (bindr (get job ''end_time'') (fmtTime D))),
             labelled ''Next run:'' (dyn (bindr (get job ''next_run'') (fmtTime D))),
             if_val (get job ''job_id'') (labelled ''Job id:'' (Elem ''code'' [] [dyn (get job ''job_id'')])) Empty],
          with_val (get job ''stats_counters'') (\<lambda>s. show_if (running \<and> truthy s) (card_stats job)),
          with_val (current_file job) (\<lambda>f. show_if (running \<and> truthy f)
            (Elem ''div'' [cls ''meta''] [Elem ''span'' [cls ''muted'', Attr ''title'' (Inr f)] [val f]])),
          job_actions running busy restoreRunning acts,
          restore_row D running restoreRunning restoreBusy restore acts]))"

section \<open>The connection dialog\<close>

record cm_state =
  cm_baseUrl :: string
  cm_username :: jsval
  cm_password :: jsval

datatype cm_action = CmBaseUrl string | CmUsername jsval | CmPassword jsval | CmSave | CmClose

definition cm_init :: "connection \<Rightarrow> cm_state" where
  "cm_init c = \<lparr>cm_baseUrl = baseUrl c, cm_username = username c, cm_password = password c\<rparr>"

text \<open>\<open>props.onSave({ baseUrl: baseUrl.trim(), username, password })\<close>\<close>
definition cm_onSave :: "cm_state \<Rightarrow> connection" where
  "cm_onSave s = \<lparr>baseUrl = trim (cm_baseUrl s), username = cm_username s, password = cm_password s\<rparr>"

datatype cm_output = CmSaved connection | CmClosed

fun cm_act :: "cm_state \<Rightarrow> cm_action \<Rightarrow> cm_state \<times> cm_output list" where
  "cm_act s (CmBaseUrl v) = (s\<lparr>cm_baseUrl := v\<rparr>, [])"
| "cm_act s (CmUsername v) = (s\<lparr>cm_username := v\<rparr>, [])"
| "cm_act s (CmPassword v) = (s\<lparr>cm_password := v\<rparr>, [])"
| "cm_act s CmSave = (s, [CmSaved (cm_onSave s)])"
| "cm_act s CmClose = (s, [CmClosed])"

definition form_input :: "string \<Rightarrow> string \<Rightarrow> jsval \<Rightarrow> (jsval \<Rightarrow> cm_action) \<Rightarrow> cm_action attr list \<Rightarrow> cm_action vnode" where
  "form_input l ty v f extra =
     Elem ''div'' [cls ''form-row'']
       [Elem ''label'' [] [lit l],
        Elem ''input'' ([sattr ''type'' ty, Attr ''value'' (Inr v), onValue ''input'' f] @ extra) []]"

definition ConnectionModal :: "cm_state \<Rightarrow> cm_action vnode" where
  "ConnectionModal s =
     Elem ''div'' [cls ''modal-backdrop'', onSelfClick CmClose]
      [Elem ''div'' [cls ''modal'', sattr ''role'' ''dialog'', sattr ''aria-modal'' ''true'']
        [Elem ''header'' []
           [Elem ''h2'' [] [lit ''Server connection''], Elem ''button'' [onClick CmClose] [lit ''Close'']],
         Elem ''form'' [On ''submit'' (\<lambda>_. Some CmSave)]
           [Elem ''div'' [cls ''body'']
              [form_input ''Base URL'' ''url'' (Str (cm_baseUrl s)) (\<lambda>v. CmBaseUrl (to_str v))
                 [sattr ''placeholder'' ''http://127.0.0.1:8080'', battr ''required'' True],
               form_input ''Username (optional)'' ''text'' (cm_username s) CmUsername
                 [sattr ''autocomplete'' ''username''],
               form_input ''Password (optional)'' ''password'' (cm_password s) CmPassword
                 [sattr ''autocomplete'' ''current-password''],
               Elem ''p'' [cls ''muted'', sattr ''style'' ''font-size:12px;margin:0'']
                 [lit (''Credentials are stored in your browser's localStorage. When connecting to a remote '' @
                       ''server that isn't same-origin, the remote server must allow CORS from this origin.'')]],
            Elem ''div'' [cls ''footer'']
              [Elem ''button'' [sattr ''type'' ''button'', onClick CmClose] [lit ''Cancel''],
               Elem ''button'' [sattr ''type'' ''submit'', cls ''primary''] [lit ''Save'']]]]]"

section \<open>The page\<close>

record app_state =
  conn :: connection
  jobs :: jsval
  restoresByName :: "(string \<times> jsval) list"
  version :: jsval
  error :: jsval
  loading :: bool
  connOpen :: bool
  watchTarget :: "watch_target option"
  reportsFor :: jsval
  restoreReportsFor :: jsval
  restoreStartFor :: jsval
  busy :: "(string \<times> jsval) list"
  store :: storage
  conn_epoch :: nat

datatype app_action =
    Tick
  | RefreshNow
  | OpenConnection
  | CloseConnection
  | SaveConnection connection
  | StartBackup jsval
  | StopBackup jsval jsval
  | StopRestore jsval jsval
  | OpenWatch watch_target
  | CloseWatchModal
  | OpenReports jsval
  | CloseReportsModal
  | OpenRestoreReports jsval
  | CloseRestoreReports
  | Resumed
  | OpenRestoreStart jsval
  | CloseRestoreStart
  | Started

datatype app_call =
    Refreshing connection "string option"
  | AskingVersion connection nat
  | Starting connection jsval string
  | Stopping connection jsval jsval string
  | StoppingRestore connection jsval jsval string

definition mark_busy :: "string \<Rightarrow> bool \<Rightarrow> app_state \<Rightarrow> app_state" where
  "mark_busy key b s = s\<lparr>busy := obj_define key (Bool b) (busy s)\<rparr>"

text \<open>\<open>refresh\<close> up to its \<open>await\<close>, with the busy mark its caller clears after it\<close>
definition refresh :: "connection \<Rightarrow> string option \<Rightarrow> app_state \<Rightarrow> app_state \<times> app_call list" where
  "refresh c key s = (s\<lparr>loading := True\<rparr>, [Refreshing c key])"

text \<open>\<open>for (const r of restores) map[r.name] = r;\<close>\<close>
fun restores_map :: "jsval list \<Rightarrow> (string \<times> jsval) list \<Rightarrow> (string \<times> jsval) list jsr" where
  "restores_map [] m = Inr m"
| "restores_map (r # rs) m =
     bindr (get r ''name'') (\<lambda>n. restores_map rs (obj_assign (to_str n) r m))"

definition refresh_done :: "jsval jsr \<Rightarrow> jsval jsr \<Rightarrow> app_state \<Rightarrow> app_state" where
  "refresh_done list restores s =
     (let s1 = (case bindr list (\<lambda>l. mapr (\<lambda>r. (l, r)) restores) of
         Inl e \<Rightarrow> s\<lparr>error := Str (err_text e)\<rparr>
       | Inr (l, r) \<Rightarrow>
           (case bindr (iterate r) (\<lambda>rs. restores_map rs []) of
             Inl e \<Rightarrow> s\<lparr>jobs := l, error := Str (err_text e)\<rparr>
           | Inr m \<Rightarrow> s\<lparr>jobs := l, restoresByName := m, error := Null\<rparr>))
      in s1\<lparr>loading := False\<rparr>)"

text \<open>An operation after its request: refresh on success, report the error otherwise; the busy mark is
  cleared at the end of either.\<close>
definition operation_done :: "connection \<Rightarrow> string \<Rightarrow> js_error option \<Rightarrow> app_state \<Rightarrow> app_state \<times> app_call list" where
  "operation_done c key failure s =
     (case failure of
       None \<Rightarrow> refresh c (Some key) s
     | Some e \<Rightarrow> (mark_busy key False (s\<lparr>error := Str (err_text e)\<rparr>), []))"

definition failure_of :: "'a jsr \<Rightarrow> js_error option" where
  "failure_of r = (case r of Inl e \<Rightarrow> Some e | Inr _ \<Rightarrow> None)"

text \<open>The effects on \<open>[conn]\<close>: poll at once with the new connection, and ask for the version.\<close>
definition conn_effects :: "app_state \<Rightarrow> app_state \<times> app_call list" where
  "conn_effects s =
     (let s1 = s\<lparr>version := Null, conn_epoch := Suc (conn_epoch s)\<rparr>; (s2, cs) = refresh (conn s1) None s1
      in (s2, cs @ [AskingVersion (conn s1) (conn_epoch s1)]))"

definition onSaveConn :: "connection \<Rightarrow> app_state \<Rightarrow> app_state \<times> app_call list" where
  "onSaveConn c s =
     conn_effects (s\<lparr>store := saveConnection c (store s), conn := c, connOpen := False\<rparr>)"

fun app_act :: "app_state \<Rightarrow> app_action \<Rightarrow> app_state \<times> app_call list" where
  "app_act s Tick = refresh (conn s) None s"
| "app_act s RefreshNow = refresh (conn s) None s"
| "app_act s OpenConnection = (s\<lparr>connOpen := True\<rparr>, [])"
| "app_act s CloseConnection = (s\<lparr>connOpen := False\<rparr>, [])"
| "app_act s (SaveConnection c) = onSaveConn c s"
| "app_act s (StartBackup name) =
     (let key = to_str name in (mark_busy key True s, [Starting (conn s) name key]))"
| "app_act s (StopBackup name jobId) =
     (let key = to_str name in (mark_busy key True s, [Stopping (conn s) name jobId key]))"
| "app_act s (StopRestore name restoreJobId) =
     (let key = to_str name @ ''::restore'' in
      (mark_busy key True s, [StoppingRestore (conn s) name restoreJobId key]))"
| "app_act s (OpenWatch t) = (s\<lparr>watchTarget := Some t\<rparr>, [])"
| "app_act s CloseWatchModal = (s\<lparr>watchTarget := None\<rparr>, [])"
| "app_act s (OpenReports j) = (s\<lparr>reportsFor := j\<rparr>, [])"
| "app_act s CloseReportsModal = (s\<lparr>reportsFor := Null\<rparr>, [])"
| "app_act s (OpenRestoreReports j) = (s\<lparr>restoreReportsFor := j\<rparr>, [])"
| "app_act s CloseRestoreReports = (s\<lparr>restoreReportsFor := Null\<rparr>, [])"
| "app_act s Resumed = refresh (conn s) None (s\<lparr>restoreReportsFor := Null\<rparr>)"
| "app_act s (OpenRestoreStart j) = (s\<lparr>restoreStartFor := j\<rparr>, [])"
| "app_act s CloseRestoreStart = (s\<lparr>restoreStartFor := Null\<rparr>, [])"
| "app_act s Started = refresh (conn s) None (s\<lparr>restoreStartFor := Null\<rparr>)"

fun app_answer :: "app_state \<Rightarrow> app_call \<Rightarrow> fetch \<Rightarrow> app_state \<times> app_call list" where
  "app_answer s (Refreshing c key) fetch =
     (let s1 = refresh_done (listBackups fetch c) (listRestores fetch c) s
      in (case key of None \<Rightarrow> s1 | Some k \<Rightarrow> mark_busy k False s1, []))"
| "app_answer s (AskingVersion c epoch) fetch =
     (case getVersion fetch c of
       Inl _ \<Rightarrow> (s, [])
     | Inr v \<Rightarrow> if epoch = conn_epoch s then (s\<lparr>version := v\<rparr>, []) else (s, []))"
| "app_answer s (Starting c name key) fetch = operation_done c key (failure_of (startBackup fetch c name)) s"
| "app_answer s (Stopping c name jobId key) fetch =
     operation_done c key (failure_of (stopBackup fetch c name jobId)) s"
| "app_answer s (StoppingRestore c name jobId key) fetch =
     operation_done c key (failure_of (stopRestore fetch c name jobId)) s"

definition app_mounted :: "storage \<Rightarrow> string \<Rightarrow> string \<Rightarrow> app_state" where
  "app_mounted st protocol host =
     \<lparr>conn = loadConnection st protocol host, jobs = Arr [], restoresByName = [], version = Null, error = Null,
      loading = False, connOpen = False, watchTarget = None, reportsFor = Null, restoreReportsFor = Null,
      restoreStartFor = Null, busy = [], store = st, conn_epoch = 0\<rparr>"

definition app_init :: "storage \<Rightarrow> string \<Rightarrow> string \<Rightarrow> app_state \<times> app_call list" where
  "app_init st protocol host = conn_effects (app_mounted st protocol host)"

section \<open>The page's view\<close>

text \<open>\<open>{ kind: ..., name: ..., jobId: ..., title: ... }\<close>\<close>
definition backup_target :: "jsval \<Rightarrow> jsval \<Rightarrow> watch_target" where
  "backup_target name jobId =
     \<lparr>kind = WatchesBackup, target_name = name, target_jobId = js_or jobId (Str []), title = name\<rparr>"

definition restore_target :: "jsval \<Rightarrow> jsval \<Rightarrow> watch_target" where
  "restore_target name rid =
     \<lparr>kind = WatchesRestore, target_name = name, target_jobId = rid, title = js_plus name (Str '' (restore)'')\<rparr>"

definition card_callbacks :: "jsval \<Rightarrow> jsval \<Rightarrow> app_action card_actions" where
  "card_callbacks j name =
     \<lparr>onStart = StartBackup name,
      onStop = StopBackup name (get_opt j ''job_id''),
      onWatch = OpenWatch (backup_target name (get_opt j ''job_id'')),
      onReports = OpenReports j,
      onRestore = OpenRestoreStart j,
      onWatchRestore = (\<lambda>rid. OpenWatch (restore_target name rid)),
      onStopRestore = (\<lambda>rid. StopRestore name rid),
      onRestoreReports = OpenRestoreReports j\<rparr>"

definition is_busy :: "app_state \<Rightarrow> string \<Rightarrow> bool" where
  "is_busy s key = truthy (obj_get (busy s) key)"

definition job_entry :: "dates \<Rightarrow> app_state \<Rightarrow> jsval \<Rightarrow> app_action vnode" where
  "job_entry D s j =
     with_val (get j ''name'') (\<lambda>name.
       JobCard D j (obj_get (restoresByName s) (to_str name)) (is_busy s (to_str name))
         (is_busy s (to_str name @ ''::restore'')) (card_callbacks j name))"

definition version_bar :: "jsval \<Rightarrow> app_action vnode" where
  "version_bar v =
     show_if (truthy v)
       (Elem ''div'' [cls ''server-version'']
          [lit ''Server: '',
           Elem ''strong'' [] [lit ''CloudBackup '', dyn (mapr (\<lambda>x. js_or x (Str ''?'')) (get v ''CloudBackup''))],
           with_val (get v ''OS'') (\<lambda>os. with_val (get v ''Arch'') (\<lambda>arch.
             show_if (truthy os \<or> truthy arch)
               (Frag [lit '' - '', val (js_or os (Str [])),
                      lit (if truthy arch then ''/'' @ to_str arch else '''')]))),
           if_val (get v ''Runtime'') (Frag [lit '' - Go '', dyn (get v ''Runtime'')]) Empty,
           if_val (get v ''BuildDate'') (Frag [lit '' - built '', dyn (get v ''BuildDate'')]) Empty])"

definition page_header :: "connection \<Rightarrow> app_action vnode" where
  "page_header c =
     (let docsBase = strip_trailing (CHR ''/'') (baseUrl c) in
      Elem ''header'' []
       [Elem ''h1'' [] [lit ''CloudBackup''],
        Elem ''div'' [cls ''conn-info'']
          [lit ''Connected to '', Elem ''strong'' [] [lit (baseUrl c)],
           show_if (truthy (username c)) (Frag [lit '' as '', Elem ''strong'' [] [val (username c)]])],
        Elem ''nav'' [cls ''nav-links'']
          [Elem ''a'' [sattr ''href'' (docsBase @ ''/docs/''), sattr ''target'' ''_blank'', sattr ''rel'' ''noopener'']
             [lit ''Documentation''],
           Elem ''a'' [sattr ''href'' (docsBase @ ''/docs_api/''), sattr ''target'' ''_blank'', sattr ''rel'' ''noopener'']
             [lit ''API (Swagger)'']],
        Elem ''div'' []
          [Elem ''button'' [onClick OpenConnection] [lit ''Connection''],
           Elem ''button'' [onClick RefreshNow] [lit ''Refresh'']]])"

text \<open>\<open><${WatchModal} onClose=... />\<close> and the like: the callbacks the page hands to a dialog.\<close>
definition dialogs :: "app_state \<Rightarrow> app_action vnode" where
  "dialogs s =
     Frag
      [show_if (connOpen s)
         (Elem ''ConnectionModal''
            [On ''onClose'' (\<lambda>_. Some CloseConnection), On ''onSave'' (\<lambda>v. map_option SaveConnection (as_connection v))] []),
       (case watchTarget s of None \<Rightarrow> Empty
        | Some t \<Rightarrow> Elem ''WatchModal'' [On ''onClose'' (\<lambda>_. Some CloseWatchModal)] []),
       show_if (truthy (reportsFor s)) (Elem ''ReportsModal'' [On ''onClose'' (\<lambda>_. Some CloseReportsModal)] []),
       show_if (truthy (restoreReportsFor s))
         (Elem ''RestoreReportsModal''
            [Attr ''restoreInProgress''
               (mapr (\<lambda>n. Bool (truthy (obj_get (restoresByName s) (to_str n)))) (get (restoreReportsFor s) ''name'')),
             On ''onClose'' (\<lambda>_. Some CloseRestoreReports), On ''onResumed'' (\<lambda>_. Some Resumed)] []),
       show_if (truthy (restoreStartFor s))
         (Elem ''RestoreStartModal''
            [On ''onClose'' (\<lambda>_. Some CloseRestoreStart), On ''onStarted'' (\<lambda>_. Some Started)] [])]"

definition App :: "dates \<Rightarrow> app_state \<Rightarrow> app_action vnode" where
  "App D s =
     Frag
      [page_header (conn s),
       Elem ''main'' []
        [version_bar (version s),
         show_if (truthy (error s)) (Elem ''div'' [cls ''error''] [val (error s)]),
         with_val (get (jobs s) ''length'') (\<lambda>l. show_if (len_zero l \<and> \<not> loading s \<and> \<not> truthy (error s))
           (Elem ''div'' [cls ''empty''] [lit ''No backup jobs found. Configure jobs in the server config file.''])),
         Elem ''div'' [cls ''jobs''] [map_nodes (Inr (jobs s)) (job_entry D s)]],
       dialogs s]"

text \<open>The timer fires at any time.\<close>
definition app_enabled :: "dates \<Rightarrow> app_state \<Rightarrow> app_action \<Rightarrow> bool" where
  "app_enabled D s a = (a = Tick \<or> offers (App D s) a)"

section \<open>Lemmas\<close>

lemma offers_labelled [simp]: "offers (labelled l n) a \<longleftrightarrow> offers n a"
  by (simp add: labelled_def)

lemma offers_card_stats [simp]: "\<not> offers (card_stats job) a"
  by (simp add: card_stats_def stat_cell_def)

lemma offers_job_actions:
  "offers (job_actions running b rr acts) a \<longleftrightarrow>
     (if running then a = onStop acts \<and> \<not> b \<or> a = onWatch acts else a = onStart acts \<and> \<not> b \<and> \<not> rr) \<or>
     a = onReports acts"
  by (auto simp: job_actions_def)

lemma offers_restore_row:
  "offers (restore_row D running rr rb restore acts) a \<longleftrightarrow>
     (if rr then \<exists>v. get restore ''job_id'' = Inr v \<and>
          (a = onStopRestore acts (js_or v (Str [])) \<and> \<not> rb \<or> a = onWatchRestore acts (js_or v (Str [])))
      else a = onRestore acts \<and> \<not> running) \<or> a = onRestoreReports acts"
  by (auto simp: restore_row_def)

text \<open>Whether the card of a job treats a restore as running.\<close>
definition restore_running :: "jsval \<Rightarrow> bool" where
  "restore_running restore \<longleftrightarrow> truthy restore \<and> isRunning (get_opt restore ''state'')"

lemma offers_JobCard:
  assumes "\<not> nullish job"
  shows "offers (JobCard D job restore b rb acts) a \<longleftrightarrow>
    offers (job_actions (isRunning (get_opt job ''state'')) b (restore_running restore) acts) a \<or>
    offers (restore_row D (isRunning (get_opt job ''state'')) (restore_running restore) rb restore acts) a"
proof -
  have job: "get job k = Inr (get_opt job k)" for k
    using get_not_nullish [OF assms] by (metis get_opt_def sum.simps(6))
  have r: "truthy restore \<Longrightarrow> get restore k = Inr (get_opt restore k)" for k
    by (cases restore) (simp_all add: get_opt_def)
  show ?thesis
    by (cases "truthy restore")
      (auto simp: JobCard_def Let_def job r restore_running_def state_span_def mapr_Inr_conv current_file_def)
qed

lemma offers_version_bar [simp]: "\<not> offers (version_bar v) a"
  by (simp add: version_bar_def)

lemma offers_page_header: "offers (page_header c) a \<longleftrightarrow> a = OpenConnection \<or> a = RefreshNow"
  by (auto simp: page_header_def Let_def)

fun is_job_action :: "app_action \<Rightarrow> bool" where
  "is_job_action (StartBackup _) = True"
| "is_job_action (StopBackup _ _) = True"
| "is_job_action (StopRestore _ _) = True"
| "is_job_action (OpenWatch _) = True"
| "is_job_action (OpenReports _) = True"
| "is_job_action (OpenRestoreReports _) = True"
| "is_job_action (OpenRestoreStart _) = True"
| "is_job_action _ = False"

lemma offers_dialogs: "offers (dialogs s) a \<Longrightarrow> \<not> is_job_action a"
  by (auto simp: dialogs_def split: option.splits)

lemma offers_App_job:
  assumes "is_job_action a"
  shows "offers (App D s) a \<longleftrightarrow>
    (\<exists>vs j. jobs s = Arr vs \<and> j \<in> set vs \<and> offers (job_entry D s j) a)"
proof -
  have "\<not> offers (page_header (conn s)) a" "\<not> offers (dialogs s) a"
    using assms offers_dialogs by (auto simp: offers_page_header)
  then show ?thesis by (auto simp: App_def)
qed

lemma offers_job_entry:
  "offers (job_entry D s j) a \<longleftrightarrow>
     (\<exists>name. get j ''name'' = Inr name \<and>
        (offers (job_actions (isRunning (get_opt j ''state'')) (is_busy s (to_str name))
           (restore_running (obj_get (restoresByName s) (to_str name))) (card_callbacks j name)) a \<or>
         offers (restore_row D (isRunning (get_opt j ''state''))
           (restore_running (obj_get (restoresByName s) (to_str name)))
           (is_busy s (to_str name @ ''::restore'')) (obj_get (restoresByName s) (to_str name))
           (card_callbacks j name)) a))"
  using get_Inr_not_nullish [of j] by (auto simp: job_entry_def offers_JobCard)

lemmas job_offers = offers_App_job offers_job_entry offers_job_actions offers_restore_row card_callbacks_def

section \<open>Busy marks\<close>

fun call_key :: "app_call \<Rightarrow> string option" where
  "call_key (Refreshing c k) = k"
| "call_key (AskingVersion c e) = None"
| "call_key (Starting c n k) = Some k"
| "call_key (Stopping c n j k) = Some k"
| "call_key (StoppingRestore c n j k) = Some k"

definition calls_for :: "string \<Rightarrow> app_call list \<Rightarrow> nat" where
  "calls_for k cs = length (filter (\<lambda>c. call_key c = Some k) cs)"

text \<open>A key is busy exactly while its one operation, or the refresh after it, is in flight.\<close>
definition busy_ok :: "app_state \<Rightarrow> app_call list \<Rightarrow> bool" where
  "busy_ok s cs \<longleftrightarrow>
     (\<forall>k. calls_for k cs = (if is_busy s k \<and> k \<notin> set object_prototype then 1 else 0)) \<and>
     (\<forall>k \<in> set object_prototype. map_of (busy s) k = None)"

lemma calls_for_simps [simp]:
  "calls_for k [] = 0"
  "calls_for k (c # cs) = (if call_key c = Some k then Suc (calls_for k cs) else calls_for k cs)"
  "calls_for k (cs @ ds) = calls_for k cs + calls_for k ds"
  by (simp_all add: calls_for_def)

lemma prototype_busy: "busy_ok s cs \<Longrightarrow> k \<in> set object_prototype \<Longrightarrow> is_busy s k"
  by (simp add: busy_ok_def is_busy_def obj_get_def)

lemma is_busy_mark [simp]: "is_busy (mark_busy k b s) k' = (if k' = k then b else is_busy s k')"
  by (simp add: is_busy_def mark_busy_def)

lemma map_of_mark [simp]: "map_of (busy (mark_busy k b s)) = (map_of (busy s))(k \<mapsto> Bool b)"
  by (simp add: mark_busy_def obj_define_def update_conv')

lemma busy_ok_cong:
  "busy_ok s cs \<Longrightarrow> busy s' = busy s \<Longrightarrow> (\<And>k. calls_for k cs' = calls_for k cs) \<Longrightarrow> busy_ok s' cs'"
  by (simp add: busy_ok_def is_busy_def)

lemma busy_ok_start:
  assumes "busy_ok s cs" "\<not> is_busy s k" "call_key c = Some k"
  shows "busy_ok (mark_busy k True s) (cs @ [c])"
proof -
  have "k \<notin> set object_prototype" using prototype_busy [OF assms(1)] assms(2) by blast
  then show ?thesis using assms by (auto simp: busy_ok_def)
qed

lemma busy_ok_finish:
  assumes "busy_ok s (cs1 @ c # cs2)" "call_key c = Some k"
  shows "busy_ok (mark_busy k False s) (cs1 @ cs2)"
proof -
  have "calls_for k (cs1 @ c # cs2) = (if is_busy s k \<and> k \<notin> set object_prototype then 1 else 0)"
    using assms(1) unfolding busy_ok_def by blast
  then have k: "k \<notin> set object_prototype" "calls_for k cs1 = 0" "calls_for k cs2 = 0"
    using assms(2) by (auto split: if_splits)
  have other: "calls_for k' (cs1 @ cs2) = (if is_busy s k' \<and> k' \<notin> set object_prototype then 1 else 0)"
    if "k' \<noteq> k" for k'
  proof -
    have "calls_for k' (cs1 @ c # cs2) = calls_for k' (cs1 @ cs2)" using that assms(2) by simp
    then show ?thesis using assms(1) unfolding busy_ok_def by metis
  qed
  show ?thesis unfolding busy_ok_def
  proof (intro conjI allI)
    fix k'
    show "calls_for k' (cs1 @ cs2) =
        (if is_busy (mark_busy k False s) k' \<and> k' \<notin> set object_prototype then 1 else 0)"
      using other [of k'] k by (cases "k' = k") simp_all
  qed (use assms(1) k(1) in \<open>auto simp: busy_ok_def\<close>)
qed

text \<open>The key of the operation an action starts.\<close>
fun action_key :: "app_action \<Rightarrow> string option" where
  "action_key (StartBackup name) = Some (to_str name)"
| "action_key (StopBackup name j) = Some (to_str name)"
| "action_key (StopRestore name r) = Some (to_str name @ ''::restore'')"
| "action_key _ = None"

lemma enabled_not_busy: "app_enabled D s a \<Longrightarrow> action_key a = Some k \<Longrightarrow> \<not> is_busy s k"
  by (cases a) (auto simp: app_enabled_def job_offers split: if_splits)

lemma app_act_operation:
  "action_key a = Some k \<Longrightarrow> \<exists>c. app_act s a = (mark_busy k True s, [c]) \<and> call_key c = Some k"
  by (cases a) (auto simp: Let_def)

lemma app_act_other:
  "action_key a = None \<Longrightarrow> busy (fst (app_act s a)) = busy s \<and> calls_for k (snd (app_act s a)) = 0"
  by (cases a) (simp_all add: refresh_def onSaveConn_def conn_effects_def Let_def)

lemma app_act_busy_ok:
  assumes "busy_ok s cs" "app_enabled D s a"
  shows "busy_ok (fst (app_act s a)) (cs @ snd (app_act s a))"
proof (cases "action_key a")
  case None
  then show ?thesis using app_act_other by (intro busy_ok_cong [OF assms(1)]) simp_all
next
  case (Some k)
  then obtain c where "app_act s a = (mark_busy k True s, [c])" "call_key c = Some k"
    using app_act_operation by blast
  then show ?thesis using busy_ok_start [OF assms(1) enabled_not_busy [OF assms(2) Some]] by simp
qed

lemma busy_refresh_done [simp]: "busy (refresh_done a b s) = busy s"
  by (simp add: refresh_done_def Let_def split: sum.splits)

lemma operation_done_busy_ok:
  assumes "busy_ok s (cs1 @ c # cs2)" "call_key c = Some k"
  shows "busy_ok (fst (operation_done cn k f s)) (cs1 @ cs2 @ snd (operation_done cn k f s))"
proof (cases f)
  case None
  then show ?thesis
    using assms by (intro busy_ok_cong [OF assms(1)]) (simp_all add: operation_done_def refresh_def)
next
  case (Some e)
  have "busy_ok (s\<lparr>error := Str (err_text e)\<rparr>) (cs1 @ c # cs2)" by (rule busy_ok_cong [OF assms(1)]) simp_all
  from busy_ok_finish [OF this assms(2)] show ?thesis using Some by (simp add: operation_done_def)
qed

lemma app_answer_busy_ok:
  assumes "busy_ok s (cs1 @ c # cs2)"
  shows "busy_ok (fst (app_answer s c fetch)) (cs1 @ cs2 @ snd (app_answer s c fetch))"
proof (cases c)
  case (Refreshing cn key)
  let ?s = "refresh_done (listBackups fetch cn) (listRestores fetch cn) s"
  have ok: "busy_ok ?s (cs1 @ c # cs2)" by (rule busy_ok_cong [OF assms]) simp_all
  show ?thesis
  proof (cases key)
    case None
    then show ?thesis using Refreshing by (intro busy_ok_cong [OF ok]) (simp_all add: Let_def)
  next
    case (Some k)
    then show ?thesis using Refreshing busy_ok_finish [OF ok, of k] by (simp add: Let_def)
  qed
next
  case (AskingVersion cn e)
  then show ?thesis by (intro busy_ok_cong [OF assms]) (simp_all split: sum.splits)
qed (use operation_done_busy_ok [OF assms] in simp_all)

interpretation app: component_invariant "app_init st protocol host" "app_enabled D" app_act app_answer busy_ok
proof unfold_locales
  show "busy_ok (fst (app_init st protocol host)) (snd (app_init st protocol host))"
    by (auto simp: app_init_def conn_effects_def refresh_def app_mounted_def busy_ok_def is_busy_def obj_get_def Let_def)
qed (auto intro: app_act_busy_ok app_answer_busy_ok)

section \<open>Properties\<close>

text \<open>C5. No operation on a job is ever doubled.  In every run of the page, with polls, clicks and replies in
  any order, there is for every key (a job's name for starting and stopping a backup, the name with
  a suffix for stopping a restore) at most one operation in flight, counting the refresh that ends it;
  the key is marked busy exactly while there is one, and nothing can start another meanwhile.\<close>
theorem one_operation_per_job:
  assumes "component_run (app_init st protocol host) (app_enabled D) app_act app_answer (s, cs)"
    and "k \<notin> set object_prototype"
  shows "length (filter (\<lambda>c. call_key c = Some k) cs) = (if is_busy s k then 1 else 0) \<and>
    (\<forall>a. is_busy s k \<longrightarrow> action_key a = Some k \<longrightarrow> \<not> app_enabled D s a)"
proof -
  have "busy_ok s cs" using app.run_ok [OF assms(1)] by simp
  then show ?thesis
    using assms(2) enabled_not_busy by (auto simp: busy_ok_def calls_for_def)
qed

lemma app_init_run: "component_run (app_init st p h) (app_enabled D) app_act app_answer (app_init st p h)"
  by (rule component_run.mounted)

theorem one_operation_per_job_witness:
  "\<not> is_busy (fst (app_init None ''http:'' ''h'')) ''home''"
  using one_operation_per_job [of None "''http:''" "''h''" no_dates "fst (app_init None ''http:'' ''h'')"
      "snd (app_init None ''http:'' ''h'')" "''home''"] app_init_run [of None "''http:''" "''h''" no_dates]
  by (simp add: object_prototype_def app_init_def conn_effects_def refresh_def Let_def split: if_splits)

text \<open>C14. The buttons of a job card.  Starting is offered exactly for a job that is not running, has no restore
  running and no operation under way; stopping exactly for a running job with none under way;
  restoring exactly when neither a backup nor a restore of the job is running; stopping a restore
  exactly while one is running and not yet being stopped.\<close>
theorem job_card_buttons:
  fixes restore
  assumes "get job ''name'' = Inr name" "acts = card_callbacks job name"
  defines "running \<equiv> isRunning (get_opt job ''state'')" and "rr \<equiv> restore_running restore"
  shows "(offers (JobCard D job restore b rb acts) (StartBackup name) \<longleftrightarrow> \<not> running \<and> \<not> rr \<and> \<not> b) \<and>
    (offers (JobCard D job restore b rb acts) (StopBackup name (get_opt job ''job_id'')) \<longleftrightarrow> running \<and> \<not> b) \<and>
    (offers (JobCard D job restore b rb acts) (OpenRestoreStart job) \<longleftrightarrow> \<not> running \<and> \<not> rr) \<and>
    ((\<exists>rid. offers (JobCard D job restore b rb acts) (StopRestore name rid)) \<longleftrightarrow> rr \<and> \<not> rb)"
proof -
  have "rr \<Longrightarrow> \<exists>v. get restore ''job_id'' = Inr v"
    by (cases restore) (simp_all add: rr_def restore_running_def)
  then show ?thesis
    using get_Inr_not_nullish [OF assms(1)]
    by (auto simp: offers_JobCard offers_job_actions offers_restore_row assms(2) card_callbacks_def
        running_def rr_def split: if_splits)
qed

theorem job_card_buttons_witness:
  "offers (JobCard no_dates (Obj [(''name'', Str ''home''), (''state'', Str ''idle'')]) Undef False False
     (card_callbacks (Obj [(''name'', Str ''home''), (''state'', Str ''idle'')]) (Str ''home''))) (StartBackup (Str ''home''))"
  using job_card_buttons [of "Obj [(''name'', Str ''home''), (''state'', Str ''idle'')]" "Str ''home''"
      "card_callbacks (Obj [(''name'', Str ''home''), (''state'', Str ''idle'')]) (Str ''home'')"
      no_dates Undef False False]
  by (simp add: obj_get_def isRunning_def restore_running_def)

lemma restores_map_lookup:
  assumes "restores_map rs m0 = Inr m" "k \<noteq> ''__proto__''"
  shows "map_of m k = (case find (\<lambda>r. mapr to_str (get r ''name'') = Inr k) (rev rs) of
    Some r \<Rightarrow> Some r | None \<Rightarrow> map_of m0 k)"
  using assms(1)
proof (induction rs arbitrary: m0)
  case (Cons r rs)
  then obtain n where n: "get r ''name'' = Inr n" "restores_map rs (obj_assign (to_str n) r m0) = Inr m"
    by (auto simp: bindr_Inr_conv)
  have find: "find P (xs @ [x]) = (case find P xs of None \<Rightarrow> if P x then Some x else None | Some y \<Rightarrow> Some y)"
    for P and xs :: "jsval list" and x
    by (induction xs) auto
  show ?case
    using Cons.IH [OF n(2)] n(1) assms(2)
    by (auto simp: find obj_assign_def update_conv' split: option.splits)
qed simp



text \<open>The version line belongs to the current connection: once another connection is saved it is
  empty, and a reply to the question asked with the old connection changes nothing.\<close>
theorem version_not_stale:
  "version (fst (app_act s (SaveConnection c))) = Null \<and>
   app_answer (fst (app_act s (SaveConnection c))) (AskingVersion c' (conn_epoch s)) fetch =
     (fst (app_act s (SaveConnection c)), [])"
  by (simp add: onSaveConn_def conn_effects_def refresh_def Let_def split: sum.splits)

text \<open>C36. The job list may belong to an old connection: a poll that was under way when another connection was
  saved still replaces the jobs when its reply arrives, whatever the new server said before.\<close>
theorem stale_jobs_shown:
  assumes "listBackups fetch old = Inr l" "listRestores fetch old = Inr (Arr [])"
  shows "let s1 = fst (app_act s (SaveConnection new)); s2 = fst (app_answer s1 (Refreshing new None) fetch');
      s3 = fst (app_answer s2 (Refreshing old None) fetch)
    in conn s3 = new \<and> jobs s3 = l \<and> error s3 = Null"
proof -
  have "conn (refresh_done a b t) = conn t" for a b t
    by (simp add: refresh_done_def Let_def split: sum.splits)
  then show ?thesis
    using assms by (simp add: onSaveConn_def conn_effects_def refresh_def Let_def) (simp add: refresh_done_def Let_def)
qed

theorem stale_jobs_shown_witness:
  "let s1 = fst (app_act (app_mounted None ''http:'' ''h'') (SaveConnection sample_conn));
       s2 = fst (app_answer s1 (Refreshing sample_conn None) (\<lambda>_. NetFail type_error));
       s3 = fst (app_answer s2 (Refreshing (defaultConnection ''http:'' ''h'') None) (\<lambda>_. Reply 200 (Inr [])))
   in jobs s3 = Arr []"
proof -
  have "listBackups (\<lambda>_. Reply 200 (Inr [])) c = Inr (Arr [])"
      "listRestores (\<lambda>_. Reply 200 (Inr [])) c = Inr (Arr [])" for c
    by (simp_all add: listBackups_def listRestores_def jsonRequest_def parse_reply_def reply_failed_def obj_get_def
        object_prototype_def coalesce_def nullish_def)
  from stale_jobs_shown [OF this] show ?thesis by (simp add: Let_def)
qed

text \<open>A job whose name is that of a built-in object member can never be started or stopped from the page:
  in every run its key counts as busy from the start, so both buttons stay disabled.\<close>
theorem prototype_job_stuck:
  assumes "component_run (app_init st protocol host) (app_enabled D) app_act app_answer (s, cs)"
    and "to_str name \<in> set object_prototype"
  shows "\<not> app_enabled D s (StartBackup name) \<and> \<not> app_enabled D s (StopBackup name jobId)"
proof -
  have "is_busy s (to_str name)" using app.run_ok [OF assms(1)] prototype_busy assms(2) by fastforce
  then show ?thesis using enabled_not_busy by fastforce
qed

theorem prototype_job_stuck_witness:
  "\<not> app_enabled no_dates (fst (app_init None ''http:'' ''h'')) (StartBackup (Str ''constructor''))"
  using prototype_job_stuck [of None "''http:''" "''h''" no_dates "fst (app_init None ''http:'' ''h'')"
      "snd (app_init None ''http:'' ''h'')" "Str ''constructor''"] app_init_run [of None "''http:''" "''h''" no_dates]
  by (simp add: object_prototype_def)

end
