(* ===== verification/Lunr_Vector.thy ===== *)
theory Lunr_Vector
  imports Js_Value
begin

text \<open>
  \<open>lunr.Vector\<close> of the documentation search (\<open>search/lunr.js\<close>): a sparse vector kept as one flat
  array of alternating indices and values, with a binary search for the position of an index and a
  cached magnitude.

  Numbers are rationals; \<open>Math.sqrt\<close> is a parameter.  A vector that is well formed has its indices in
  strictly increasing order; \<open>flat\<close> gives the array of a list of pairs.
\<close>

record vec =
  magnitude_cache :: rat
  elements :: "rat list"

definition new_Vector :: "rat list \<Rightarrow> vec" where
  "new_Vector els = \<lparr>magnitude_cache = 0, elements = els\<rparr>"

section \<open>Operations\<close>

text \<open>The loop of \<open>positionForIndex\<close>: it answers the pivot on which it stops.\<close>
function pivot_loop :: "rat list \<Rightarrow> rat \<Rightarrow> nat \<Rightarrow> nat \<Rightarrow> nat" where
  "pivot_loop els idx start end =
     (let sliceLength = end - start;
          pivotPoint = start + sliceLength div 2;
          pivotIndex = els ! (pivotPoint * 2)
      in if 1 < sliceLength \<and> pivotIndex \<noteq> idx
         then (if pivotIndex < idx then pivot_loop els idx pivotPoint end
               else pivot_loop els idx start pivotPoint)
         else pivotPoint)"
  by pat_completeness auto
termination
  by (relation "measure (\<lambda>(els, idx, start, end). end - start)") (auto simp: Let_def)

declare pivot_loop.simps [simp del]

definition positionForIndex :: "vec \<Rightarrow> rat \<Rightarrow> nat" where
  "positionForIndex v idx =
     (if length (elements v) = 0 then 0
      else
        let pivotPoint = pivot_loop (elements v) idx 0 (length (elements v) div 2);
            pivotIndex = elements v ! (pivotPoint * 2)
        in if pivotIndex = idx then pivotPoint * 2
           else if idx < pivotIndex then pivotPoint * 2
           else (pivotPoint + 1) * 2)"

text \<open>\<open>elements.splice(position, 0, a, b)\<close>\<close>
definition splice2 :: "nat \<Rightarrow> rat \<Rightarrow> rat \<Rightarrow> rat list \<Rightarrow> rat list" where
  "splice2 p a b xs = take p xs @ [a, b] @ drop p xs"

text \<open>\<open>upsert\<close> with a function that may throw; \<open>elements[position]\<close> past the end is \<open>undefined\<close> and equals
  no number.\<close>
definition upsert :: "rat \<Rightarrow> rat \<Rightarrow> (rat \<Rightarrow> rat \<Rightarrow> rat jsr) \<Rightarrow> vec \<Rightarrow> vec jsr" where
  "upsert insertIdx v fn vec =
     (let position = positionForIndex vec insertIdx; els = elements vec in
      if position < length els \<and> els ! position = insertIdx
      then mapr (\<lambda>w. vec\<lparr>magnitude_cache := 0, elements := els[position + 1 := w]\<rparr>) (fn (els ! (position + 1)) v)
      else Inr (vec\<lparr>magnitude_cache := 0, elements := splice2 position insertIdx v els\<rparr>))"

definition duplicate_index :: js_error where
  "duplicate_index = Exn ''duplicate index'' []"

definition vec_insert :: "rat \<Rightarrow> rat \<Rightarrow> vec \<Rightarrow> vec jsr" where
  "vec_insert insertIdx v vec = upsert insertIdx v (\<lambda>_ _. Inl duplicate_index) vec"

text \<open>\<open>for (var i = 1; i < elementsLength; i += 2)\<close>\<close>
function square_loop :: "rat list \<Rightarrow> nat \<Rightarrow> rat \<Rightarrow> rat" where
  "square_loop els i acc = (if i < length els then square_loop els (i + 2) (acc + els ! i * els ! i) else acc)"
  by pat_completeness auto
termination
  by (relation "measure (\<lambda>(els, i, acc). length els - i)") auto

declare square_loop.simps [simp del]

text \<open>The magnitude, and the vector with the cache filled.\<close>
definition magnitude :: "(rat \<Rightarrow> rat) \<Rightarrow> vec \<Rightarrow> rat \<times> vec" where
  "magnitude Math_sqrt vec =
     (if magnitude_cache vec \<noteq> 0 then (magnitude_cache vec, vec)
      else let m = Math_sqrt (square_loop (elements vec) 1 0) in (m, vec\<lparr>magnitude_cache := m\<rparr>))"

function dot_loop :: "rat list \<Rightarrow> rat list \<Rightarrow> nat \<Rightarrow> nat \<Rightarrow> rat \<Rightarrow> rat" where
  "dot_loop a b i j dotProduct =
     (if i < length a \<and> j < length b then
        (let aVal = a ! i; bVal = b ! j in
         if aVal < bVal then dot_loop a b (i + 2) j dotProduct
         else if bVal < aVal then dot_loop a b i (j + 2) dotProduct
         else dot_loop a b (i + 2) (j + 2) (dotProduct + a ! (i + 1) * b ! (j + 1)))
      else dotProduct)"
  by pat_completeness auto
termination
  by (relation "measure (\<lambda>(a, b, i, j, d). (length a - i) + (length b - j))") auto

declare dot_loop.simps [simp del]

definition dot :: "vec \<Rightarrow> vec \<Rightarrow> rat" where
  "dot v w = dot_loop (elements v) (elements w) 0 0 0"

text \<open>\<open>this.dot(otherVector) / this.magnitude() || 0\<close>; division by a zero magnitude gives \<open>NaN\<close>, hence 0.\<close>
definition similarity :: "(rat \<Rightarrow> rat) \<Rightarrow> vec \<Rightarrow> vec \<Rightarrow> rat \<times> vec" where
  "similarity Math_sqrt v w =
     (case magnitude Math_sqrt v of (m, v') \<Rightarrow> (if m = 0 then 0 else dot v w / m, v'))"

function array_loop :: "rat list \<Rightarrow> nat \<Rightarrow> rat list" where
  "array_loop els i = (if i < length els then els ! i # array_loop els (i + 2) else [])"
  by pat_completeness auto
termination
  by (relation "measure (\<lambda>(els, i). length els - i)") auto

declare array_loop.simps [simp del]

definition toArray :: "vec \<Rightarrow> rat list" where
  "toArray vec = array_loop (elements vec) 1"

definition vec_toJSON :: "vec \<Rightarrow> rat list" where
  "vec_toJSON vec = elements vec"

section \<open>Reference: sorted association lists\<close>

fun flat :: "(rat \<times> rat) list \<Rightarrow> rat list" where
  "flat [] = []"
| "flat ((k, v) # kvs) = k # v # flat kvs"

definition sorted_keys :: "(rat \<times> rat) list \<Rightarrow> bool" where
  "sorted_keys kvs \<longleftrightarrow> sorted_wrt (<) (map fst kvs)"

definition vec_ok :: "vec \<Rightarrow> bool" where
  "vec_ok v \<longleftrightarrow> (\<exists>kvs. elements v = flat kvs \<and> sorted_keys kvs)"

fun upd :: "rat \<Rightarrow> rat \<Rightarrow> (rat \<times> rat) list \<Rightarrow> (rat \<times> rat) list" where
  "upd k v [] = [(k, v)]"
| "upd k v ((k', v') # kvs) =
     (if k < k' then (k, v) # (k', v') # kvs else if k = k' then (k, v) # kvs else (k', v') # upd k v kvs)"

fun pairs :: "rat list \<Rightarrow> (rat \<times> rat) list" where
  "pairs (k # v # xs) = (k, v) # pairs xs"
| "pairs _ = []"

text \<open>What a vector means: its value at every index.\<close>
definition component :: "vec \<Rightarrow> rat \<Rightarrow> rat option" where
  "component v = map_of (pairs (elements v))"

section \<open>Lemmas\<close>

lemma pairs_flat [simp]: "pairs (flat kvs) = kvs"
  by (induction kvs rule: flat.induct) auto

lemma length_flat [simp]: "length (flat kvs) = 2 * length kvs"
  by (induction kvs rule: flat.induct) auto

lemma flat_append [simp]: "flat (a @ b) = flat a @ flat b"
  by (induction a rule: flat.induct) auto

lemma nth_flat: "i < length kvs \<Longrightarrow> flat kvs ! (i * 2) = fst (kvs ! i) \<and> flat kvs ! Suc (i * 2) = snd (kvs ! i)"
proof (induction kvs arbitrary: i rule: flat.induct)
  case (2 k v kvs)
  then show ?case by (cases i) auto
qed simp

lemma take_flat [simp]: "take (2 * i) (flat kvs) = flat (take i kvs)"
  and drop_flat [simp]: "drop (2 * i) (flat kvs) = flat (drop i kvs)"
proof (induction kvs arbitrary: i rule: flat.induct)
  case (2 k v kvs)
  { case 1 show ?case using 2 by (cases i) auto }
  { case 2 show ?case using "2.IH" \<open>\<And>i. drop (2 * i) (flat kvs) = flat (drop i kvs)\<close> by (cases i) auto }
qed simp_all

text \<open>The number of indices below a bound, which is where the bound belongs.\<close>
definition below :: "rat \<Rightarrow> (rat \<times> rat) list \<Rightarrow> nat" where
  "below idx kvs = length (takeWhile (\<lambda>kv. fst kv < idx) kvs)"

lemma below_iff:
  assumes "sorted_keys kvs" "i < length kvs"
  shows "fst (kvs ! i) < idx \<longleftrightarrow> i < below idx kvs"
  using assms
proof (induction kvs arbitrary: i)
  case (Cons kv kvs)
  then have sorted: "sorted_keys kvs" "\<forall>x \<in> set kvs. fst kv < fst x" by (auto simp: sorted_keys_def)
  show ?case
  proof (cases i)
    case (Suc j)
    then have "kvs ! j \<in> set kvs" using Cons.prems(2) by simp
    then have "fst kv < fst (kvs ! j)" using sorted(2) by blast
    then show ?thesis using Suc Cons.IH [OF sorted(1), of j] Cons.prems(2) by (auto simp: below_def)
  qed (simp add: below_def)
qed simp

lemma below_le: "below idx kvs \<le> length kvs"
  by (simp add: below_def length_takeWhile_le)

text \<open>The loop invariant of the binary search: the bound lies after \<open>start\<close> (unless that is 0) and not
  after \<open>end\<close>.\<close>
lemma pivot_loop_below:
  assumes "sorted_keys kvs" "start < end" "end \<le> length kvs"
    and "start = 0 \<or> start < below idx kvs" "below idx kvs \<le> end"
  shows "pivot_loop (flat kvs) idx start end < length kvs \<and>
    (let p = pivot_loop (flat kvs) idx start end in
     below idx kvs = (if fst (kvs ! p) < idx then p + 1 else p))"
  using assms(2-)
proof (induction "flat kvs" idx start "end" rule: pivot_loop.induct)
  case (1 idx start "end")
  let ?s = "end - start"
  let ?p = "start + ?s div 2"
  have p: "?p < length kvs" "start \<le> ?p" "?p < end" using "1.prems"(1,2) by auto
  have key: "flat kvs ! (?p * 2) = fst (kvs ! ?p)" using nth_flat [OF p(1)] by simp
  have lt: "fst (kvs ! ?p) < idx \<longleftrightarrow> ?p < below idx kvs" by (rule below_iff [OF assms(1) p(1)])
  show ?case
  proof (cases "1 < ?s \<and> flat kvs ! (?p * 2) \<noteq> idx")
    case True
    then have mid: "start < ?p" by auto
    show ?thesis
    proof (cases "flat kvs ! (?p * 2) < idx")
      case less: True
      then have "pivot_loop (flat kvs) idx start end = pivot_loop (flat kvs) idx ?p end"
        using True by (subst pivot_loop.simps) (simp add: Let_def)
      moreover have "?p < below idx kvs" using less key lt by simp
      ultimately show ?thesis
        using "1.hyps"(1) [OF refl refl refl True less p(3) "1.prems"(2)] "1.prems"(4) by simp
    next
      case False
      then have "pivot_loop (flat kvs) idx start end = pivot_loop (flat kvs) idx start ?p"
        using True by (subst pivot_loop.simps) (simp add: Let_def)
      moreover have "below idx kvs \<le> ?p" using False key lt by simp
      moreover have "?p \<le> length kvs" using p(1) by simp
      ultimately show ?thesis
        using "1.hyps"(2) [OF refl refl refl True False mid _ "1.prems"(3)] by simp
    qed
  next
    case False
    then have loop: "pivot_loop (flat kvs) idx start end = ?p"
      by (subst pivot_loop.simps) (auto simp: Let_def)
    have "below idx kvs = (if fst (kvs ! ?p) < idx then ?p + 1 else ?p)"
    proof (cases "1 < ?s")
      case True
      then have eq: "fst (kvs ! ?p) = idx" using False key by simp
      then have "\<not> ?p < below idx kvs" using lt by simp
      moreover have "?p \<le> below idx kvs"
      proof (rule ccontr)
        assume "\<not> ?p \<le> below idx kvs"
        then have b: "below idx kvs < ?p" by simp
        then have "\<not> fst (kvs ! below idx kvs) < idx" using below_iff [OF assms(1), of "below idx kvs" idx] p(1) by simp
        moreover have "fst (kvs ! below idx kvs) < fst (kvs ! ?p)"
          using assms(1) b p(1) by (simp add: sorted_keys_def sorted_wrt_iff_nth_less)
        ultimately show False using eq by simp
      qed
      ultimately show ?thesis using eq by simp
    next
      case one: False
      then have "?p = start" "end = start + 1" using "1.prems"(1) by auto
      then show ?thesis using "1.prems"(3,4) lt by auto
    qed
    then show ?thesis using loop p(1) by (simp add: Let_def)
  qed
qed

lemma position_below:
  assumes "elements v = flat kvs" "sorted_keys kvs"
  shows "positionForIndex v idx = 2 * below idx kvs"
proof (cases "kvs = []")
  case False
  let ?p = "pivot_loop (flat kvs) idx 0 (length kvs)"
  have p: "?p < length kvs" "below idx kvs = (if fst (kvs ! ?p) < idx then ?p + 1 else ?p)"
    using pivot_loop_below [OF assms(2), of 0 "length kvs" idx] False below_le [of idx kvs] by (auto simp: Let_def)
  then show ?thesis
    using assms(1) False nth_flat [OF p(1)] by (auto simp: positionForIndex_def Let_def)
qed (simp add: positionForIndex_def assms below_def)

lemma map_of_below:
  assumes "sorted_keys kvs"
  shows "map_of kvs k =
    (if below k kvs < length kvs \<and> fst (kvs ! below k kvs) = k then Some (snd (kvs ! below k kvs)) else None)"
  using assms
proof (induction kvs)
  case (Cons kv kvs)
  obtain k' v' where kv: "kv = (k', v')" by fastforce
  have sorted: "sorted_keys kvs" "\<forall>x \<in> set kvs. k' < fst x" using Cons.prems kv by (auto simp: sorted_keys_def)
  then have "k \<le> k' \<Longrightarrow> map_of kvs k = None" by (force simp: map_of_eq_None_iff)
  then show ?case using Cons.IH [OF sorted(1)] kv by (auto simp: below_def)
qed (simp add: below_def)

lemma upd_at:
  "sorted_keys kvs \<Longrightarrow>
   upd k v kvs = take (below k kvs) kvs @ (k, v) #
     drop (below k kvs + (if below k kvs < length kvs \<and> fst (kvs ! below k kvs) = k then 1 else 0)) kvs"
proof (induction k v kvs rule: upd.induct)
  case (2 k v k' v' kvs)
  then have "sorted_keys kvs" by (simp add: sorted_keys_def)
  then show ?case using 2 by (auto simp: below_def)
qed (simp add: below_def)

lemma flat_update:
  "i < length kvs \<Longrightarrow> (flat kvs)[Suc (2 * i) := w] = flat (take i kvs @ (fst (kvs ! i), w) # drop (Suc i) kvs)"
proof (induction kvs arbitrary: i rule: flat.induct)
  case (2 k v kvs)
  then show ?case by (cases i) auto
qed simp

lemma fst_upd: "set (map fst (upd k v kvs)) = insert k (set (map fst kvs))"
  by (induction k v kvs rule: upd.induct) auto

lemma sorted_upd: "sorted_keys kvs \<Longrightarrow> sorted_keys (upd k v kvs)"
proof (induction k v kvs rule: upd.induct)
  case (2 k v k' v' kvs)
  then have *: "sorted_keys kvs" "\<forall>x \<in> set (map fst kvs). k' < x" by (auto simp: sorted_keys_def)
  then have "k' < k \<Longrightarrow> \<forall>x \<in> set (map fst (upd k v kvs)). k' < x" using fst_upd [of k v kvs] by auto
  then show ?case using 2 * by (auto simp: sorted_keys_def)
qed (simp add: sorted_keys_def)

lemma map_of_upd: "sorted_keys kvs \<Longrightarrow> map_of (upd k v kvs) = (map_of kvs)(k \<mapsto> v)"
proof (induction k v kvs rule: upd.induct)
  case (2 k v k' v' kvs)
  then have "sorted_keys kvs" by (simp add: sorted_keys_def)
  then show ?case using 2 by auto
qed simp

text \<open>What \<open>upsert\<close> does, on the list of pairs.\<close>
lemma upsert_pairs:
  assumes "elements vec = flat kvs" "sorted_keys kvs"
  shows "upsert k v fn vec =
    (case map_of kvs k of
       None \<Rightarrow> Inr (vec\<lparr>magnitude_cache := 0, elements := flat (upd k v kvs)\<rparr>)
     | Some w \<Rightarrow> mapr (\<lambda>x. vec\<lparr>magnitude_cache := 0, elements := flat (upd k x kvs)\<rparr>) (fn w v))"
proof -
  let ?b = "below k kvs"
  have pos: "positionForIndex vec k = 2 * ?b" by (rule position_below [OF assms])
  show ?thesis
  proof (cases "?b < length kvs \<and> fst (kvs ! ?b) = k")
    case True
    then have "flat kvs ! (2 * ?b) = k" "flat kvs ! Suc (2 * ?b) = snd (kvs ! ?b)"
      using nth_flat [of ?b kvs] by (simp_all add: mult.commute)
    moreover have "flat (upd k x kvs) = (flat kvs)[Suc (2 * ?b) := x]" for x
      using True flat_update [of ?b kvs x] upd_at [OF assms(2), of k x] by simp
    ultimately show ?thesis
      using True pos assms map_of_below [OF assms(2), of k] by (simp add: upsert_def Let_def)
  next
    case False
    then have "\<not> (2 * ?b < length (flat kvs) \<and> flat kvs ! (2 * ?b) = k)"
      using nth_flat [of ?b kvs] by (auto simp: mult.commute)
    moreover have "flat (upd k v kvs) = splice2 (2 * ?b) k v (flat kvs)"
      using False by (auto simp: splice2_def upd_at [OF assms(2), of k v])
    moreover have "map_of kvs k = None"
      using False map_of_below [OF assms(2), of k] by auto
    ultimately show ?thesis
      using pos assms by (auto simp: upsert_def Let_def)
  qed
qed

section \<open>Interface: a map with accumulating insertion\<close>

text \<open>What the index relies on: adding at an index combines with what is there and touches nothing
  else.  Adding a list of contributions then gives, at every index, their combination in order.\<close>
locale accumulating_map =
  fixes look :: "'m \<Rightarrow> 'k \<Rightarrow> 'v option"
    and add_at :: "('v \<Rightarrow> 'v \<Rightarrow> 'v) \<Rightarrow> 'k \<Rightarrow> 'v \<Rightarrow> 'm \<Rightarrow> 'm"
    and inv :: "'m \<Rightarrow> bool"
  assumes add_look: "inv m \<Longrightarrow> look (add_at f k v m) k' =
      (if k' = k then Some (case look m k of None \<Rightarrow> v | Some w \<Rightarrow> f w v) else look m k')"
    and add_inv: "inv m \<Longrightarrow> inv (add_at f k v m)"
begin

definition add_all :: "('v \<Rightarrow> 'v \<Rightarrow> 'v) \<Rightarrow> ('k \<times> 'v) list \<Rightarrow> 'm \<Rightarrow> 'm" where
  "add_all f kvs m = foldl (\<lambda>m (k, v). add_at f k v m) m kvs"

lemma add_all_inv: "inv m \<Longrightarrow> inv (add_all f kvs m)"
  by (induction kvs arbitrary: m) (auto simp: add_all_def add_inv)

lemma add_all_look:
  "inv m \<Longrightarrow> look (add_all f kvs m) k =
     foldl (\<lambda>acc v. Some (case acc of None \<Rightarrow> v | Some w \<Rightarrow> f w v)) (look m k)
       (map snd (filter (\<lambda>kv. fst kv = k) kvs))"
proof (induction kvs arbitrary: m)
  case (Cons kv kvs)
  obtain k' v where kv: "kv = (k', v)" by fastforce
  have "look (add_all f (kv # kvs) m) k = look (add_all f kvs (add_at f k' v m)) k"
    by (simp add: add_all_def kv)
  then show ?case
    using Cons.IH [OF add_inv [OF Cons.prems]] by (auto simp: add_look [OF Cons.prems] kv)
qed (simp add: add_all_def)

end

text \<open>\<open>upsert\<close> with a combining function that does not throw.\<close>
definition vec_add_at :: "(rat \<Rightarrow> rat \<Rightarrow> rat) \<Rightarrow> rat \<Rightarrow> rat \<Rightarrow> vec \<Rightarrow> vec" where
  "vec_add_at f k v vec = (case upsert k v (\<lambda>a b. Inr (f a b)) vec of Inr w \<Rightarrow> w | Inl _ \<Rightarrow> vec)"

lemma vec_add_at_pairs:
  assumes "elements vec = flat kvs" "sorted_keys kvs"
  shows "vec_add_at f k v vec = vec\<lparr>magnitude_cache := 0,
    elements := flat (upd k (case map_of kvs k of None \<Rightarrow> v | Some w \<Rightarrow> f w v) kvs)\<rparr>"
  by (simp add: vec_add_at_def upsert_pairs [OF assms] split: option.splits)

interpretation vec: accumulating_map component vec_add_at vec_ok
proof unfold_locales
  fix m f k v k'
  assume "vec_ok m"
  then obtain kvs where kvs: "elements m = flat kvs" "sorted_keys kvs" by (auto simp: vec_ok_def)
  show "component (vec_add_at f k v m) k' =
      (if k' = k then Some (case component m k of None \<Rightarrow> v | Some w \<Rightarrow> f w v) else component m k')"
    by (simp add: vec_add_at_pairs [OF kvs] component_def map_of_upd [OF kvs(2)] kvs(1))
  show "vec_ok (vec_add_at f k v m)"
    using sorted_upd [OF kvs(2)] by (auto simp: vec_add_at_pairs [OF kvs] vec_ok_def)
qed

section \<open>Products\<close>

fun dot_pairs :: "(rat \<times> rat) list \<Rightarrow> (rat \<times> rat) list \<Rightarrow> rat" where
  "dot_pairs [] b = 0"
| "dot_pairs a [] = 0"
| "dot_pairs ((k, v) # a) ((k', w) # b) =
     (if k < k' then dot_pairs a ((k', w) # b)
      else if k' < k then dot_pairs ((k, v) # a) b
      else v * w + dot_pairs a b)"

lemma dot_loop_pairs:
  "dot_loop (flat a) (flat b) (2 * i) (2 * j) d = d + dot_pairs (drop i a) (drop j b)"
proof (induction "(length a - i) + (length b - j)" arbitrary: i j d rule: less_induct)
  case less
  show ?case
  proof (cases "i < length a \<and> j < length b")
    case True
    obtain k v where a: "a ! i = (k, v)" by fastforce
    obtain k' w where b: "b ! j = (k', w)" by fastforce
    have drops: "drop i a = (k, v) # drop (Suc i) a" "drop j b = (k', w) # drop (Suc j) b"
      using True a b by (simp_all flip: Cons_nth_drop_Suc)
    have nth: "flat a ! (2 * i) = k" "flat a ! Suc (2 * i) = v" "flat b ! (2 * j) = k'" "flat b ! Suc (2 * j) = w"
      using nth_flat [of i a] nth_flat [of j b] True a b by (simp_all add: mult.commute)
    have IH1: "dot_loop (flat a) (flat b) (2 * Suc i) (2 * j) d = d + dot_pairs (drop (Suc i) a) (drop j b)"
      using True by (intro less) linarith
    have IH2: "dot_loop (flat a) (flat b) (2 * i) (2 * Suc j) d = d + dot_pairs (drop i a) (drop (Suc j) b)"
      using True by (intro less) linarith
    have IH3: "dot_loop (flat a) (flat b) (2 * Suc i) (2 * Suc j) (d + v * w) =
           d + v * w + dot_pairs (drop (Suc i) a) (drop (Suc j) b)"
      using True by (intro less) linarith
    show ?thesis
      using True IH1 IH2 IH3 by (subst dot_loop.simps) (simp add: Let_def nth drops)
  next
    case False
    then have "drop i a = [] \<or> drop j b = []" by auto
    then have "dot_pairs (drop i a) (drop j b) = 0" by (cases "drop i a") auto
    then show ?thesis using False by (subst dot_loop.simps) auto
  qed
qed

lemma dot_pairs_sum:
  "sorted_keys a \<Longrightarrow> sorted_keys b \<Longrightarrow>
   dot_pairs a b = (\<Sum>k \<in> fst ` set a \<inter> fst ` set b. the (map_of a k) * the (map_of b k))"
proof (induction a b rule: dot_pairs.induct)
  case (3 k v a k' w b)
  have a: "sorted_keys a" "\<forall>x \<in> fst ` set a. k < x" and b: "sorted_keys b" "\<forall>x \<in> fst ` set b. k' < x"
    using "3.prems" by (auto simp: sorted_keys_def)
  consider "k < k'" | "k' < k" | "k = k'" by fastforce
  then show ?case
  proof cases
    case 1
    then have "fst ` set ((k, v) # a) \<inter> fst ` set ((k', w) # b) = fst ` set a \<inter> fst ` set ((k', w) # b)"
      using b(2) by auto
    moreover have "map_of ((k, v) # a) x = map_of a x" if "x \<in> fst ` set a" for x using a(2) that by auto
    ultimately show ?thesis
      using "3.IH"(1) [OF 1 a(1) "3.prems"(2)] 1 by (simp cong: sum.cong_simp)
  next
    case 2
    then have "fst ` set ((k, v) # a) \<inter> fst ` set ((k', w) # b) = fst ` set ((k, v) # a) \<inter> fst ` set b"
      using a(2) by auto
    moreover have "map_of ((k', w) # b) x = map_of b x" if "x \<in> fst ` set b" for x using b(2) that by auto
    ultimately show ?thesis
      using "3.IH"(2) [OF _ 2 "3.prems"(1) b(1)] 2 by (simp cong: sum.cong_simp)
  next
    case 3
    let ?f = "\<lambda>x. the (map_of ((k, v) # a) x) * the (map_of ((k', w) # b) x)"
    have set: "fst ` set ((k, v) # a) \<inter> fst ` set ((k', w) # b) = insert k (fst ` set a \<inter> fst ` set b)"
      using a(2) b(2) 3 by auto
    have fresh: "k \<notin> fst ` set a \<inter> fst ` set b" using a(2) by auto
    have "(\<Sum>x \<in> fst ` set a \<inter> fst ` set b. ?f x) = (\<Sum>x \<in> fst ` set a \<inter> fst ` set b. the (map_of a x) * the (map_of b x))"
      using a(2) b(2) 3 by (intro sum.cong) auto
    then show ?thesis
      unfolding set using 3 fresh "3.IH"(3) [OF _ _ a(1) b(1)] by simp
  qed
qed simp_all

lemma square_loop_pairs:
  "square_loop (flat kvs) (Suc (2 * i)) acc = acc + (\<Sum>kv \<leftarrow> drop i kvs. snd kv * snd kv)"
proof (induction "length kvs - i" arbitrary: i acc)
  case 0
  then show ?case by (subst square_loop.simps) simp
next
  case (Suc n)
  then have i: "i < length kvs" "drop i kvs = kvs ! i # drop (Suc i) kvs" by (simp_all add: Cons_nth_drop_Suc)
  have "square_loop (flat kvs) (Suc (2 * Suc i)) (acc + snd (kvs ! i) * snd (kvs ! i)) =
      acc + snd (kvs ! i) * snd (kvs ! i) + (\<Sum>kv \<leftarrow> drop (Suc i) kvs. snd kv * snd kv)"
    using Suc.hyps(2) by (intro Suc.hyps(1)) simp
  then show ?case
    using i nth_flat [of i kvs] by (subst square_loop.simps) (simp add: mult.commute)
qed

lemma array_loop_pairs: "array_loop (flat kvs) (Suc (2 * i)) = map snd (drop i kvs)"
proof (induction "length kvs - i" arbitrary: i)
  case 0
  then show ?case by (subst array_loop.simps) simp
next
  case (Suc n)
  then have i: "i < length kvs" "drop i kvs = kvs ! i # drop (Suc i) kvs" by (simp_all add: Cons_nth_drop_Suc)
  have "array_loop (flat kvs) (Suc (2 * Suc i)) = map snd (drop (Suc i) kvs)"
    using Suc.hyps(2) by (intro Suc.hyps(1)) simp
  then show ?case using i nth_flat [of i kvs] by (subst array_loop.simps) (simp add: mult.commute)
qed

text \<open>The cache holds the magnitude or is empty.\<close>
definition cache_ok :: "(rat \<Rightarrow> rat) \<Rightarrow> vec \<Rightarrow> bool" where
  "cache_ok Math_sqrt v \<longleftrightarrow>
     magnitude_cache v = 0 \<or> magnitude_cache v = Math_sqrt (square_loop (elements v) 1 0)"

section \<open>Properties\<close>

text \<open>The binary search finds the place of an index: in a vector with increasing indices it answers the
  position right after the entries with smaller indices, whether the index is present or not, and
  the search always ends.\<close>
theorem positionForIndex_correct:
  assumes "elements v = flat kvs" "sorted_keys kvs"
  shows "positionForIndex v idx = 2 * length (takeWhile (\<lambda>kv. fst kv < idx) kvs) \<and>
    (idx \<in> fst ` set kvs \<longleftrightarrow>
      positionForIndex v idx < length (elements v) \<and> elements v ! positionForIndex v idx = idx)"
proof -
  have "positionForIndex v idx = 2 * below idx kvs" by (rule position_below [OF assms])
  moreover have "idx \<in> fst ` set kvs \<longleftrightarrow> below idx kvs < length kvs \<and> fst (kvs ! below idx kvs) = idx"
    using map_of_below [OF assms(2), of idx] map_of_eq_None_iff [of kvs idx] by (auto split: if_splits)
  ultimately show ?thesis
    using assms(1) nth_flat [of "below idx kvs" kvs] by (auto simp: below_def mult.commute)
qed

theorem positionForIndex_correct_witness:
  "positionForIndex (new_Vector [1, 10, 3, 30]) 2 = 2"
  using positionForIndex_correct [of "new_Vector [1, 10, 3, 30]" "[(1, 10), (3, 30)]" 2]
  by (simp add: new_Vector_def sorted_keys_def)

text \<open>C33. Inserting into a vector: an index that is not there is added in order, with all other entries
  untouched; an index that is there is combined with the old value by \<open>upsert\<close> and refused by
  \<open>insert\<close>; the indices stay in increasing order and the cached magnitude is dropped.\<close>
theorem upsert_insert_spec:
  assumes "elements vec = flat kvs" "sorted_keys kvs"
  shows "(\<exists>vec'. upsert k v (\<lambda>a b. Inr (f a b)) vec = Inr vec' \<and> vec_ok vec' \<and> magnitude_cache vec' = 0 \<and>
      component vec' = (component vec)(k \<mapsto> (case component vec k of None \<Rightarrow> v | Some w \<Rightarrow> f w v))) \<and>
    vec_insert k v vec =
      (if k \<in> fst ` set kvs then Inl duplicate_index
       else Inr (vec\<lparr>magnitude_cache := 0, elements := flat (upd k v kvs)\<rparr>))"
proof -
  let ?w = "case map_of kvs k of None \<Rightarrow> v | Some w \<Rightarrow> f w v"
  have "upsert k v (\<lambda>a b. Inr (f a b)) vec = Inr (vec\<lparr>magnitude_cache := 0, elements := flat (upd k ?w kvs)\<rparr>)"
    by (simp add: upsert_pairs [OF assms] split: option.splits)
  moreover have "vec_insert k v vec =
      (if k \<in> fst ` set kvs then Inl duplicate_index
       else Inr (vec\<lparr>magnitude_cache := 0, elements := flat (upd k v kvs)\<rparr>))"
    using map_of_eq_None_iff [of kvs k] by (auto simp: vec_insert_def upsert_pairs [OF assms] split: option.splits)
  ultimately show ?thesis
    using assms sorted_upd [OF assms(2)] map_of_upd [OF assms(2)]
    by (auto simp: vec_ok_def component_def)
qed

theorem upsert_insert_spec_witness:
  "vec_insert 3 7 (new_Vector [1, 10, 3, 30]) = Inl duplicate_index"
  using upsert_insert_spec [of "new_Vector [1, 10, 3, 30]" "[(1, 10), (3, 30)]" 3 7]
  by (simp add: new_Vector_def sorted_keys_def)

text \<open>C34. The merge loop computes the dot product: over well-formed vectors it is the sum, over the indices
  both have, of the products of their values; the magnitude is the root of the sum of squares
  whether or not it comes from the cache, and similarity is their quotient (0 for a zero vector).\<close>
theorem dot_similarity_spec:
  assumes "elements v = flat a" "sorted_keys a" "elements w = flat b" "sorted_keys b" "cache_ok Math_sqrt v"
  shows "dot v w = (\<Sum>k \<in> fst ` set a \<inter> fst ` set b. the (map_of a k) * the (map_of b k)) \<and>
    fst (magnitude Math_sqrt v) = Math_sqrt (\<Sum>kv \<leftarrow> a. snd kv * snd kv) \<and>
    cache_ok Math_sqrt (snd (magnitude Math_sqrt v)) \<and>
    fst (similarity Math_sqrt v w) = dot v w / fst (magnitude Math_sqrt v) \<and>
    toArray v = map snd a"
proof -
  have "dot v w = dot_pairs a b"
    using dot_loop_pairs [of a b 0 0 0] by (simp add: dot_def assms(1,3))
  moreover have sq: "square_loop (elements v) 1 0 = (\<Sum>kv \<leftarrow> a. snd kv * snd kv)"
    using square_loop_pairs [of a 0 0] by (simp add: assms(1))
  moreover have "toArray v = map snd a"
    using array_loop_pairs [of a 0] by (simp add: toArray_def assms(1))
  ultimately show ?thesis
    using assms(5) dot_pairs_sum [OF assms(2,4)]
    by (auto simp: magnitude_def similarity_def cache_ok_def Let_def split: prod.splits)
qed

theorem dot_similarity_spec_witness:
  "dot (new_Vector [1, 2, 3, 4]) (new_Vector [3, 5]) = 20"
  using dot_similarity_spec [of "new_Vector [1, 2, 3, 4]" "[(1, 2), (3, 4)]" "new_Vector [3, 5]" "[(3, 5)]" id]
  by (simp add: new_Vector_def sorted_keys_def cache_ok_def)

end
