(* ===== verification/Lunr_Core.thy ===== *)
theory Lunr_Core
  imports Js_Value
begin

text \<open>
  The small classes of the documentation search (\<open>search/lunr.js\<close>): \<open>lunr.utils\<close>, \<open>lunr.FieldRef\<close>,
  \<open>lunr.Set\<close>, \<open>lunr.Token\<close>, \<open>lunr.tokenizer\<close>, \<open>lunr.Pipeline\<close>, the stop word filter and the trimmer.

  An object used as a dictionary is an association list with distinct keys in insertion order;
  \<open>Object.keys\<close> is \<open>js_keys\<close>, which lists the array indices first.  The separator of the tokenizer is a
  regular expression of the site configuration: a predicate on characters here.  A pipeline function is
  known by an identity \<open>'f\<close> (functions are compared by identity, and carry a label); what it does is the
  parameter \<open>call\<close>, a function of the token, its index and the list.
\<close>

section \<open>Dictionaries\<close>

type_synonym 'v obj = "(string \<times> 'v) list"

text \<open>The keys the standard calls array indices: canonical decimals below \<open>2 ^ 32 - 1\<close>.\<close>
definition array_index :: "string \<Rightarrow> bool" where
  "array_index k \<longleftrightarrow> k \<noteq> [] \<and> list_all is_digit k \<and> (k = ''0'' \<or> hd k \<noteq> CHR ''0'') \<and> read_nat k < 2 ^ 32 - 1"

text \<open>\<open>Object.keys(o)\<close>\<close>
definition js_keys :: "'v obj \<Rightarrow> string list" where
  "js_keys kvs = (let ks = map fst kvs in
     sort_key read_nat (filter array_index ks) @ filter (\<lambda>k. \<not> array_index k) ks)"

section \<open>Utilities\<close>

text \<open>\<open>v.toString()\<close>: an own property of that name hides the method and cannot be called.\<close>
definition js_toString :: "jsval \<Rightarrow> string jsr" where
  "js_toString v =
     (case v of
        Undef \<Rightarrow> Inl type_error
      | Null \<Rightarrow> Inl type_error
      | Obj kvs \<Rightarrow> if map_of kvs ''toString'' = None then Inr (to_str v) else Inl type_error
      | _ \<Rightarrow> Inr (to_str v))"

definition asString :: "jsval \<Rightarrow> string jsr" where
  "asString v = (if v = Undef \<or> v = Null then Inr [] else js_toString v)"

definition clone_error :: js_error where
  "clone_error = Exn ''TypeError'' ''clone is not deep and does not support nested objects''"

fun clonable :: "jsval \<Rightarrow> bool" where
  "clonable (Arr _) = True"
| "clonable (Str _) = True"
| "clonable (Num _) = True"
| "clonable NaN = True"
| "clonable (Bool _) = True"
| "clonable _ = False"

text \<open>\<open>lunr.utils.clone\<close>; \<open>None\<close> is \<open>undefined\<close>.\<close>
definition clone :: "jsval obj option \<Rightarrow> jsval obj option jsr" where
  "clone ob =
     (case ob of
        None \<Rightarrow> Inr None
      | Some kvs \<Rightarrow>
          mapr Some (foldl (\<lambda>r key. bindr r (\<lambda>c.
              let v = (case map_of kvs key of Some v \<Rightarrow> v | None \<Rightarrow> Undef) in
              if clonable v then Inr (AList.update key v c) else Inl clone_error))
            (Inr []) (js_keys kvs)))"

section \<open>Field references\<close>

record FieldRef =
  docRef :: string
  fieldName :: string
  stringValue :: "string option"

definition new_FieldRef :: "string \<Rightarrow> string \<Rightarrow> FieldRef" where
  "new_FieldRef d f = \<lparr>docRef = d, fieldName = f, stringValue = None\<rparr>"

definition joiner :: char where
  "joiner = CHR ''/''"

text \<open>\<open>throw "malformed field ref string"\<close>: a thrown string, not an \<open>Error\<close>.\<close>
definition malformed_ref :: js_error where
  "malformed_ref = Exn [] ''malformed field ref string''"

definition FieldRef_fromString :: "string \<Rightarrow> FieldRef jsr" where
  "FieldRef_fromString s =
     (case index_of joiner s of
        None \<Rightarrow> Inl malformed_ref
      | Some n \<Rightarrow> Inr \<lparr>docRef = drop (n + 1) s, fieldName = take n s, stringValue = Some s\<rparr>)"

definition FieldRef_toString :: "FieldRef \<Rightarrow> string" where
  "FieldRef_toString r =
     (case stringValue r of
        None \<Rightarrow> fieldName r @ [joiner] @ docRef r
      | Some s \<Rightarrow> s)"

section \<open>Sets\<close>

text \<open>The two constant sets and the sets with elements; \<open>set_length\<close> is the length of the array the set
  was built from, duplicates included.\<close>
datatype lset =
    Set_complete
  | Set_empty
  | Set_of (set_elements: "bool obj") (set_length: nat)

definition new_Set :: "string list \<Rightarrow> lset" where
  "new_Set xs = Set_of (foldl (\<lambda>els x. AList.update x True els) [] xs) (length xs)"

fun set_contains :: "lset \<Rightarrow> string \<Rightarrow> bool" where
  "set_contains Set_complete x = True"
| "set_contains Set_empty x = False"
| "set_contains (Set_of els _) x = (map_of els x = Some True)"

fun set_intersect :: "lset \<Rightarrow> lset \<Rightarrow> lset" where
  "set_intersect Set_complete other = other"
| "set_intersect Set_empty other = Set_empty"
| "set_intersect this Set_complete = this"
| "set_intersect this Set_empty = Set_empty"
| "set_intersect (Set_of els n) (Set_of els' n') =
     (let (a, b) = (if n < n' then (els, els') else (els', els)) in
      new_Set (filter (\<lambda>x. map_of b x \<noteq> None) (js_keys a)))"

fun set_union :: "lset \<Rightarrow> lset \<Rightarrow> lset" where
  "set_union Set_complete other = Set_complete"
| "set_union Set_empty other = other"
| "set_union this Set_complete = Set_complete"
| "set_union this Set_empty = this"
| "set_union (Set_of els n) (Set_of els' n') = new_Set (js_keys els @ js_keys els')"

section \<open>Tokens\<close>

record token =
  tok_str :: string
  tok_metadata :: "jsval obj"

definition new_Token :: "string \<Rightarrow> jsval obj option \<Rightarrow> token" where
  "new_Token s md = \<lparr>tok_str = s, tok_metadata = (case md of None \<Rightarrow> [] | Some m \<Rightarrow> m)\<rparr>"

definition Token_toString :: "token \<Rightarrow> string" where
  "Token_toString t = tok_str t"

definition Token_update :: "(string \<Rightarrow> jsval obj \<Rightarrow> string) \<Rightarrow> token \<Rightarrow> token" where
  "Token_update fn t = t\<lparr>tok_str := fn (tok_str t) (tok_metadata t)\<rparr>"

definition Token_clone :: "(string \<Rightarrow> jsval obj \<Rightarrow> string) option \<Rightarrow> token \<Rightarrow> token" where
  "Token_clone fn t =
     (let f = (case fn of None \<Rightarrow> (\<lambda>s _. s) | Some f \<Rightarrow> f) in
      new_Token (f (tok_str t) (tok_metadata t)) (Some (tok_metadata t)))"

section \<open>Tokenizer\<close>

text \<open>The default \<open>lunr.tokenizer.separator\<close>, \<open>/[\s\-]+/\<close>, on one character.\<close>
definition separator :: "char \<Rightarrow> bool" where
  "separator c \<longleftrightarrow> is_js_space c \<or> c = CHR ''-''"

text \<open>The metadata of one token of a string.\<close>
definition token_metadata :: "jsval obj option \<Rightarrow> nat \<Rightarrow> nat \<Rightarrow> nat \<Rightarrow> jsval obj" where
  "token_metadata cloned sliceStart sliceLength idx =
     AList.update ''index'' (Num (of_nat idx))
       (AList.update ''position'' (Arr [Num (of_nat sliceStart), Num (of_nat sliceLength)])
         (case cloned of None \<Rightarrow> [] | Some m \<Rightarrow> m))"

text \<open>The loop over the characters, with \<open>sliceEnd\<close>, \<open>sliceStart\<close> and the tokens so far.\<close>
function slice_loop ::
  "(char \<Rightarrow> bool) \<Rightarrow> jsval obj option \<Rightarrow> string \<Rightarrow> nat \<Rightarrow> nat \<Rightarrow> token list \<Rightarrow> token list jsr" where
  "slice_loop sep md s sliceEnd sliceStart tokens =
     (if length s < sliceEnd then Inr tokens
      else
        let sliceLength = sliceEnd - sliceStart in
        if sliceEnd = length s \<or> sep (s ! sliceEnd)
        then bindr
            (if 0 < sliceLength
             then mapr (\<lambda>m. tokens @ [new_Token (take sliceLength (drop sliceStart s))
                 (Some (token_metadata m sliceStart sliceLength (length tokens)))]) (clone md)
             else Inr tokens)
            (\<lambda>tokens'. slice_loop sep md s (sliceEnd + 1) (sliceEnd + 1) tokens')
        else slice_loop sep md s (sliceEnd + 1) sliceStart tokens)"
  by pat_completeness auto
termination
  by (relation "measure (\<lambda>(sep, md, s, sliceEnd, sliceStart, tokens). length s + 1 - sliceEnd)") auto

declare slice_loop.simps [simp del]

definition tokenizer :: "(char \<Rightarrow> bool) \<Rightarrow> jsval \<Rightarrow> jsval obj option \<Rightarrow> token list jsr" where
  "tokenizer sep v md =
     (case v of
        Undef \<Rightarrow> Inr []
      | Null \<Rightarrow> Inr []
      | Arr vs \<Rightarrow> traverse (\<lambda>t. bindr (asString t) (\<lambda>s. mapr (new_Token (toLowerCase s)) (clone md))) vs
      | _ \<Rightarrow> bindr (js_toString v) (\<lambda>s. slice_loop sep md (toLowerCase s) 0 0 []))"

section \<open>Pipeline\<close>

text \<open>What a pipeline function answers: nothing (\<open>null\<close>, \<open>undefined\<close>, the empty string), a token, an
  array of tokens.\<close>
datatype pl_result = Dropped | One token | Many "token list"

text \<open>The labels that functions carry, the registered functions and the warnings printed.\<close>
record 'f registry =
  labels :: "('f \<times> string) list"
  registeredFunctions :: "'f obj"
  warnings :: "string list"

definition warn :: "string \<Rightarrow> 'f registry \<Rightarrow> 'f registry" where
  "warn msg R = R\<lparr>warnings := warnings R @ [msg]\<rparr>"

definition registerFunction :: "'f \<Rightarrow> string \<Rightarrow> 'f registry \<Rightarrow> 'f registry" where
  "registerFunction fn label R =
     (let R' = (if map_of (registeredFunctions R) label \<noteq> None
                then warn (''Overwriting existing registered function: '' @ label) R else R)
      in R'\<lparr>labels := AList.update fn label (labels R'),
            registeredFunctions := AList.update label fn (registeredFunctions R')\<rparr>)"

definition warnIfFunctionNotRegistered :: "'f \<Rightarrow> 'f registry \<Rightarrow> 'f registry" where
  "warnIfFunctionNotRegistered fn R =
     (let isRegistered = (case map_of (labels R) fn of
            None \<Rightarrow> False
          | Some l \<Rightarrow> l \<noteq> [] \<and> map_of (registeredFunctions R) l \<noteq> None)
      in if \<not> isRegistered
         then warn (''Function is not registered with pipeline. This may cause problems when serialising the index.'' @ [char_nl]) R
         else R)"

text \<open>A pipeline is its \<open>_stack\<close>.\<close>
definition Pipeline_add :: "'f list \<Rightarrow> 'f registry \<times> 'f list \<Rightarrow> 'f registry \<times> 'f list" where
  "Pipeline_add fns RP = foldl (\<lambda>(R, stack) fn. (warnIfFunctionNotRegistered fn R, stack @ [fn])) RP fns"

definition Pipeline_load :: "string list \<Rightarrow> 'f registry \<Rightarrow> ('f registry \<times> 'f list) jsr" where
  "Pipeline_load serialised R =
     foldl (\<lambda>r fnName. bindr r (\<lambda>(R, stack).
         case map_of (registeredFunctions R) fnName of
           Some fn \<Rightarrow> Inr (Pipeline_add [fn] (R, stack))
         | None \<Rightarrow> Inl (mk_Error (''Cannot load unregistered function: '' @ fnName))))
       (Inr (R, [])) serialised"

definition Pipeline_after :: "'f \<Rightarrow> 'f \<Rightarrow> 'f registry \<times> 'f list \<Rightarrow> ('f registry \<times> 'f list) jsr" where
  "Pipeline_after existingFn newFn RP =
     (let R = warnIfFunctionNotRegistered newFn (fst RP) in
      case index_of existingFn (snd RP) of
        None \<Rightarrow> Inl (mk_Error ''Cannot find existingFn'')
      | Some pos \<Rightarrow> Inr (R, take (pos + 1) (snd RP) @ [newFn] @ drop (pos + 1) (snd RP)))"

definition Pipeline_before :: "'f \<Rightarrow> 'f \<Rightarrow> 'f registry \<times> 'f list \<Rightarrow> ('f registry \<times> 'f list) jsr" where
  "Pipeline_before existingFn newFn RP =
     (let R = warnIfFunctionNotRegistered newFn (fst RP) in
      case index_of existingFn (snd RP) of
        None \<Rightarrow> Inl (mk_Error ''Cannot find existingFn'')
      | Some pos \<Rightarrow> Inr (R, take pos (snd RP) @ [newFn] @ drop pos (snd RP)))"

definition Pipeline_remove :: "'f \<Rightarrow> 'f list \<Rightarrow> 'f list" where
  "Pipeline_remove fn stack =
     (case index_of fn stack of None \<Rightarrow> stack | Some pos \<Rightarrow> take pos stack @ drop (pos + 1) stack)"

definition result_tokens :: "pl_result \<Rightarrow> token list" where
  "result_tokens r = (case r of Dropped \<Rightarrow> [] | One t \<Rightarrow> [t] | Many ts \<Rightarrow> ts)"

text \<open>The inner loop: one function over all tokens.\<close>
fun memo_loop ::
  "(token \<Rightarrow> nat \<Rightarrow> token list \<Rightarrow> pl_result) \<Rightarrow> token list \<Rightarrow> nat \<Rightarrow> token list \<Rightarrow> token list \<Rightarrow> token list" where
  "memo_loop fn tokens j [] memo = memo"
| "memo_loop fn tokens j (t # ts) memo = memo_loop fn tokens (j + 1) ts (memo @ result_tokens (fn t j tokens))"

fun Pipeline_run ::
  "('f \<Rightarrow> token \<Rightarrow> nat \<Rightarrow> token list \<Rightarrow> pl_result) \<Rightarrow> 'f list \<Rightarrow> token list \<Rightarrow> token list" where
  "Pipeline_run call [] tokens = tokens"
| "Pipeline_run call (fn # stack) tokens = Pipeline_run call stack (memo_loop (call fn) tokens 0 tokens [])"

definition Pipeline_runString ::
  "('f \<Rightarrow> token \<Rightarrow> nat \<Rightarrow> token list \<Rightarrow> pl_result) \<Rightarrow> 'f list \<Rightarrow> string \<Rightarrow> jsval obj option \<Rightarrow> string list" where
  "Pipeline_runString call stack s md = map Token_toString (Pipeline_run call stack [new_Token s md])"

definition Pipeline_reset :: "'f list \<Rightarrow> 'f list" where
  "Pipeline_reset stack = []"

definition Pipeline_toJSON :: "'f registry \<times> 'f list \<Rightarrow> 'f registry \<times> string option list" where
  "Pipeline_toJSON RP =
     (fold warnIfFunctionNotRegistered (snd RP) (fst RP), map (map_of (labels (fst RP))) (snd RP))"

section \<open>Stop words and trimming\<close>

text \<open>The object of stop words starts as \<open>{}\<close>, so \<open>memo['__proto__'] = s\<close> sets nothing; a read that
  misses gives \<open>undefined\<close> or a function of \<open>Object.prototype\<close>, and neither is the string.\<close>
definition stop_object :: "string list \<Rightarrow> string obj" where
  "stop_object stopWords =
     foldl (\<lambda>memo w. if w = ''__proto__'' then memo else AList.update w w memo) [] stopWords"

definition generateStopWordFilter :: "string list \<Rightarrow> token \<Rightarrow> pl_result" where
  "generateStopWordFilter stopWords =
     (let words = stop_object stopWords in
      (\<lambda>t. if map_of words (Token_toString t) \<noteq> Some (Token_toString t) then One t else Dropped))"

definition stop_words :: "string list" where
  "stop_words =
    [''a'', ''able'', ''about'', ''across'', ''after'', ''all'', ''almost'', ''also'', ''am'',
     ''among'', ''an'', ''and'', ''any'', ''are'', ''as'', ''at'', ''be'', ''because'',
     ''been'', ''but'', ''by'', ''can'', ''cannot'', ''could'', ''dear'', ''did'', ''do'',
     ''does'', ''either'', ''else'', ''ever'', ''every'', ''for'', ''from'', ''get'', ''got'',
     ''had'', ''has'', ''have'', ''he'', ''her'', ''hers'', ''him'', ''his'', ''how'',
     ''however'', ''i'', ''if'', ''in'', ''into'', ''is'', ''it'', ''its'', ''just'',
     ''least'', ''let'', ''like'', ''likely'', ''may'', ''me'', ''might'', ''most'', ''must'',
     ''my'', ''neither'', ''no'', ''nor'', ''not'', ''of'', ''off'', ''often'', ''on'',
     ''only'', ''or'', ''other'', ''our'', ''own'', ''rather'', ''said'', ''say'', ''says'',
     ''she'', ''should'', ''since'', ''so'', ''some'', ''than'', ''that'', ''the'', ''their'',
     ''them'', ''then'', ''there'', ''these'', ''they'', ''this'', ''tis'', ''to'', ''too'',
     ''twas'', ''us'', ''wants'', ''was'', ''we'', ''were'', ''what'', ''when'', ''where'',
     ''which'', ''while'', ''who'', ''whom'', ''why'', ''will'', ''with'', ''would'', ''yet'',
     ''you'', ''your'']"

definition stopWordFilter :: "token \<Rightarrow> pl_result" where
  "stopWordFilter = generateStopWordFilter stop_words"

text \<open>The class \<open>\w\<close>.\<close>
definition is_word_char :: "char \<Rightarrow> bool" where
  "is_word_char c \<longleftrightarrow> (let n = (of_char c :: nat) in
     is_digit c \<or> n = 95 \<or> (n \<in> {65..90}) \<or> (n \<in> {97..122}))"

text \<open>\<open>s.replace(/^\W+/, '').replace(/\W+$/, '')\<close>\<close>
definition trim_nonword :: "string \<Rightarrow> string" where
  "trim_nonword s =
     rev (dropWhile (\<lambda>c. \<not> is_word_char c) (rev (dropWhile (\<lambda>c. \<not> is_word_char c) s)))"

definition trimmer :: "token \<Rightarrow> pl_result" where
  "trimmer t = One (Token_update (\<lambda>s _. trim_nonword s) t)"

section \<open>Facts on dictionaries\<close>

lemma set_js_keys [simp]: "set (js_keys kvs) = fst ` set kvs"
  by (auto simp: js_keys_def Let_def)

lemma distinct_js_keys: "distinct (map fst kvs) \<Longrightarrow> distinct (js_keys kvs)"
  by (auto simp: js_keys_def Let_def)

lemma js_keys_Nil [simp]: "js_keys [] = []"
  by (simp add: js_keys_def)

lemma in_js_keys: "k \<in> set (js_keys kvs) \<longleftrightarrow> map_of kvs k \<noteq> None"
  by (simp add: map_of_eq_None_iff)

lemma map_of_update [simp]: "map_of (AList.update k v kvs) = (map_of kvs)(k \<mapsto> v)"
  by (rule update_conv')

lemma distinct_keys_foldl_update:
  "distinct (map fst kvs) \<Longrightarrow> distinct (map fst (foldl (\<lambda>o' x. AList.update (f x) (g x) o') kvs xs))"
  by (induction xs arbitrary: kvs) (auto simp: distinct_update)

lemma map_of_foldl_update:
  "map_of (foldl (\<lambda>o' x. AList.update x (g x) o') kvs xs) k =
     (if k \<in> set xs then Some (g k) else map_of kvs k)"
  by (induction xs arbitrary: kvs) auto

section \<open>Field references read back\<close>

lemma index_of_append_sep: "c \<notin> set w \<Longrightarrow> index_of c (w @ c # s) = Some (length w)"
  by (induction w) auto

lemma index_of_eq_None [simp]: "index_of c s = None \<longleftrightarrow> c \<notin> set s"
  by (induction s) auto

lemma index_of_Some:
  "index_of c s = Some n \<Longrightarrow> n < length s \<and> s ! n = c \<and> c \<notin> set (take n s)"
  by (induction s arbitrary: n) (auto split: if_splits)

text \<open>A field reference prints to a string that reads back to the same document and field, provided the
  field name has no slash (the document reference may have any number of them); a string is refused
  exactly when it has no slash, and one that is read prints as itself.\<close>
theorem fieldref_roundtrip:
  "joiner \<notin> set f \<Longrightarrow>
     (\<exists>r. FieldRef_fromString (FieldRef_toString (new_FieldRef d f)) = Inr r \<and> docRef r = d \<and> fieldName r = f) \<and>
     (FieldRef_fromString s = Inl malformed_ref \<longleftrightarrow> joiner \<notin> set s) \<and>
     (\<forall>r. FieldRef_fromString s = Inr r \<longrightarrow> FieldRef_toString r = s \<and> s = fieldName r @ [joiner] @ docRef r)"
proof (intro conjI)
  assume "joiner \<notin> set f"
  then show "\<exists>r. FieldRef_fromString (FieldRef_toString (new_FieldRef d f)) = Inr r \<and> docRef r = d \<and> fieldName r = f"
    by (simp add: FieldRef_fromString_def FieldRef_toString_def new_FieldRef_def index_of_append_sep)
  show "FieldRef_fromString s = Inl malformed_ref \<longleftrightarrow> joiner \<notin> set s"
    by (auto simp: FieldRef_fromString_def split: option.splits) (metis index_of_eq_None option.distinct(1))
  show "\<forall>r. FieldRef_fromString s = Inr r \<longrightarrow> FieldRef_toString r = s \<and> s = fieldName r @ [joiner] @ docRef r"
    by (auto simp: FieldRef_fromString_def FieldRef_toString_def
        dest!: index_of_Some split: option.splits) (metis id_take_nth_drop)
qed

theorem fieldref_roundtrip_witness:
  "\<exists>r. FieldRef_fromString (FieldRef_toString (new_FieldRef ''guide/setup/'' ''title'')) = Inr r \<and>
     docRef r = ''guide/setup/'' \<and> fieldName r = ''title''"
  using fieldref_roundtrip [of "''title''" "''guide/setup/''" "''x''"] by (simp add: joiner_def)

section \<open>Interface: sets of document references\<close>

text \<open>What a query needs of the set class: membership in the constants, in built sets, in intersections
  and unions.  Folding the two operations over many sets then gives membership in all and in some.\<close>
locale set_algebra =
  fixes contains :: "'s \<Rightarrow> 'a \<Rightarrow> bool"
    and ok :: "'s \<Rightarrow> bool"
    and complete :: 's and empty :: 's
    and of_list :: "'a list \<Rightarrow> 's"
    and inter :: "'s \<Rightarrow> 's \<Rightarrow> 's" and union :: "'s \<Rightarrow> 's \<Rightarrow> 's"
  assumes ok_const: "ok complete" "ok empty"
    and ok_of_list: "ok (of_list xs)"
    and ok_inter: "ok a \<Longrightarrow> ok b \<Longrightarrow> ok (inter a b)"
    and ok_union: "ok a \<Longrightarrow> ok b \<Longrightarrow> ok (union a b)"
    and in_const: "contains complete x" "\<not> contains empty x"
    and in_of_list: "contains (of_list xs) x \<longleftrightarrow> x \<in> set xs"
    and in_inter: "ok a \<Longrightarrow> ok b \<Longrightarrow> contains (inter a b) x \<longleftrightarrow> contains a x \<and> contains b x"
    and in_union: "ok a \<Longrightarrow> ok b \<Longrightarrow> contains (union a b) x \<longleftrightarrow> contains a x \<or> contains b x"
begin

lemma in_foldl_inter:
  "ok a \<Longrightarrow> list_all ok bs \<Longrightarrow> ok (foldl inter a bs) \<and>
     (contains (foldl inter a bs) x \<longleftrightarrow> contains a x \<and> (\<forall>b \<in> set bs. contains b x))"
  by (induction bs arbitrary: a) (auto simp: in_inter ok_inter)

lemma in_foldl_union:
  "ok a \<Longrightarrow> list_all ok bs \<Longrightarrow> ok (foldl union a bs) \<and>
     (contains (foldl union a bs) x \<longleftrightarrow> contains a x \<or> (\<exists>b \<in> set bs. contains b x))"
  by (induction bs arbitrary: a) (auto simp: in_union ok_union)

lemma in_all: "list_all ok bs \<Longrightarrow> contains (foldl inter complete bs) x \<longleftrightarrow> (\<forall>b \<in> set bs. contains b x)"
  by (simp add: in_foldl_inter ok_const in_const)

lemma in_some: "list_all ok bs \<Longrightarrow> contains (foldl union empty bs) x \<longleftrightarrow> (\<exists>b \<in> set bs. contains b x)"
  by (simp add: in_foldl_union ok_const in_const)

end

text \<open>A set the class builds maps its elements to \<open>true\<close> and nothing else.\<close>
definition set_ok :: "lset \<Rightarrow> bool" where
  "set_ok s = (case s of Set_of els _ \<Rightarrow> \<forall>kv \<in> set els. snd kv | _ \<Rightarrow> True)"

lemma new_Set_elements: "map_of (set_elements (new_Set xs)) k = (if k \<in> set xs then Some True else None)"
  by (simp add: new_Set_def map_of_foldl_update)

lemma contains_new_Set [simp]: "set_contains (new_Set xs) x \<longleftrightarrow> x \<in> set xs"
  by (simp add: new_Set_def map_of_foldl_update)

lemma values_foldl_True:
  "\<forall>kv \<in> set els. snd kv \<Longrightarrow> \<forall>kv \<in> set (foldl (\<lambda>els x. AList.update x True els) els xs). snd kv"
proof (induction xs arbitrary: els)
  case (Cons x xs)
  have "\<forall>kv \<in> set (AList.update x True els). snd kv"
    using Cons.prems by (induction els) auto
  then show ?case using Cons.IH by simp
qed simp

lemma set_ok_new_Set [simp]: "set_ok (new_Set xs)"
  using values_foldl_True [of "[]" xs] by (auto simp: set_ok_def new_Set_def)

lemma set_ok_const [simp]: "set_ok Set_complete" "set_ok Set_empty"
  by (simp_all add: set_ok_def)

lemma set_ok_map_of: "\<forall>kv \<in> set els. snd kv \<Longrightarrow> map_of els x = Some True \<longleftrightarrow> x \<in> fst ` set els"
  by (induction els) auto

interpretation lset: set_algebra set_contains set_ok Set_complete Set_empty new_Set set_intersect set_union
proof unfold_locales
  fix a b :: lset and x
  assume ok: "set_ok a" "set_ok b"
  show "set_ok (set_intersect a b)" "set_ok (set_union a b)"
    using ok by (cases a; cases b; simp add: Let_def)+
  show "set_contains (set_intersect a b) x \<longleftrightarrow> set_contains a x \<and> set_contains b x"
    using ok by (cases a; cases b) (auto simp: Let_def set_ok_def set_ok_map_of map_of_eq_None_iff)
  show "set_contains (set_union a b) x \<longleftrightarrow> set_contains a x \<or> set_contains b x"
    using ok by (cases a; cases b) (auto simp: Let_def set_ok_def set_ok_map_of)
qed auto

text \<open>The set operations are intersection and union whatever order and sizes the operands have, and
  intersecting or uniting any number of built sets, as a query does per field, is membership in all and
  in some of the arrays they were built from.\<close>
theorem set_operations:
  "(set_contains (foldl set_intersect Set_complete (map new_Set xss)) x \<longleftrightarrow> (\<forall>xs \<in> set xss. x \<in> set xs)) \<and>
   (set_contains (foldl set_union Set_empty (map new_Set xss)) x \<longleftrightarrow> (\<exists>xs \<in> set xss. x \<in> set xs)) \<and>
   (set_contains (set_intersect (new_Set xs) (set_union (new_Set ys) (new_Set zs))) x \<longleftrightarrow>
     x \<in> set xs \<and> (x \<in> set ys \<or> x \<in> set zs))"
  by (simp add: lset.in_all lset.in_some list_all_iff lset.in_inter lset.in_union lset.ok_union)

theorem set_operations_witness:
  "set_contains (foldl set_intersect Set_complete (map new_Set [[''a'', ''b''], [''b'', ''c'', ''b'']])) ''b''"
  using set_operations [of "[[''a'', ''b''], [''b'', ''c'', ''b'']]" "''b''" "[]" "[]" "[]"] by simp

section \<open>What the tokenizer cuts\<close>

text \<open>The reference: the pieces between separators, the empty ones left out.\<close>
fun split_where :: "(char \<Rightarrow> bool) \<Rightarrow> string \<Rightarrow> string list" where
  "split_where sep [] = [[]]"
| "split_where sep (c # s) =
     (if sep c then [] # split_where sep s
      else (case split_where sep s of [] \<Rightarrow> [[c]] | w # ws \<Rightarrow> (c # w) # ws))"

definition words_of :: "(char \<Rightarrow> bool) \<Rightarrow> string \<Rightarrow> string list" where
  "words_of sep s = filter (\<lambda>w. w \<noteq> []) (split_where sep s)"

lemma split_where_not_Nil [simp]: "split_where sep s \<noteq> []"
  by (induction s) (auto split: list.splits)

lemma split_where_run: "\<forall>c \<in> set w. \<not> sep c \<Longrightarrow> split_where sep (w @ s) =
    (w @ hd (split_where sep s)) # tl (split_where sep s)"
  by (induction w) (auto split: list.splits)

lemma words_of_run:
  "\<forall>c \<in> set w. \<not> sep c \<Longrightarrow> words_of sep (w @ c # s) =
     (if sep c then (if w = [] then [] else [w]) @ words_of sep s else words_of sep ((w @ [c]) @ s))"
  by (auto simp: words_of_def split_where_run)

lemma words_of_end: "\<forall>c \<in> set w. \<not> sep c \<Longrightarrow> words_of sep w = (if w = [] then [] else [w])"
  using split_where_run [of w sep "[]"] by (auto simp: words_of_def)

text \<open>The tokens so far are right: numbered in order, each with the place of its string.\<close>
definition tokens_placed :: "string \<Rightarrow> token list \<Rightarrow> bool" where
  "tokens_placed s ts \<longleftrightarrow> (\<forall>i < length ts. \<exists>p.
     map_of (tok_metadata (ts ! i)) ''index'' = Some (Num (of_nat i)) \<and>
     map_of (tok_metadata (ts ! i)) ''position'' =
       Some (Arr [Num (of_nat p), Num (of_nat (length (tok_str (ts ! i))))]) \<and>
     p + length (tok_str (ts ! i)) \<le> length s \<and>
     take (length (tok_str (ts ! i))) (drop p s) = tok_str (ts ! i))"

lemma tokens_placed_snoc:
  assumes "tokens_placed s ts" "p + n \<le> length s"
  shows "tokens_placed s (ts @ [new_Token (take n (drop p s)) (Some (token_metadata m p n (length ts)))])"
  unfolding tokens_placed_def
proof (intro allI impI)
  fix i
  let ?t = "new_Token (take n (drop p s)) (Some (token_metadata m p n (length ts)))"
  let ?ts = "ts @ [?t]"
  assume "i < length ?ts"
  then consider "i < length ts" | "i = length ts" by fastforce
  then show "\<exists>p. map_of (tok_metadata (?ts ! i)) ''index'' = Some (Num (of_nat i)) \<and>
     map_of (tok_metadata (?ts ! i)) ''position'' = Some (Arr [Num (of_nat p), Num (of_nat (length (tok_str (?ts ! i))))]) \<and>
     p + length (tok_str (?ts ! i)) \<le> length s \<and> take (length (tok_str (?ts ! i))) (drop p s) = tok_str (?ts ! i)"
  proof cases
    case 1
    then show ?thesis using assms(1) by (simp add: tokens_placed_def nth_append)
  next
    case 2
    then show ?thesis
      using assms(2) by (intro exI [of _ p]) (auto simp: new_Token_def token_metadata_def nth_append)
  qed
qed

lemma slice_extend: "b \<le> e \<Longrightarrow> e < length s \<Longrightarrow> take (e - b) (drop b s) @ [s ! e] = take (Suc e - b) (drop b s)"
  by (simp add: Suc_diff_le take_Suc_conv_app_nth)

lemma slice_loop_spec:
  assumes "clone md = Inr m" "b \<le> e" "e \<le> length s" "tokens_placed s ts"
    and "\<forall>c \<in> set (take (e - b) (drop b s)). \<not> sep c"
  shows "\<exists>ts'. slice_loop sep md s e b ts = Inr ts' \<and> tokens_placed s ts' \<and>
    map tok_str ts' = map tok_str ts @ words_of sep (drop b s)"
  using assms(2-)
proof (induction "length s - e" arbitrary: e b ts)
  case 0
  then have e: "e = length s" by simp
  let ?t = "new_Token (take (e - b) (drop b s)) (Some (token_metadata m b (e - b) (length ts)))"
  have "slice_loop sep md s (e + 1) (e + 1) ts' = Inr ts'" for ts'
    using e by (subst slice_loop.simps) simp
  then have "slice_loop sep md s e b ts = Inr (if b < e then ts @ [?t] else ts)"
    using e by (subst slice_loop.simps) (simp add: assms(1) Let_def)
  moreover have "tokens_placed s (ts @ [?t])"
    using 0 e by (intro tokens_placed_snoc) auto
  moreover have "words_of sep (drop b s) = (if b < e then [drop b s] else [])"
    using 0 e by (subst words_of_end) auto
  ultimately show ?case using 0 e by (auto simp: new_Token_def)
next
  case (Suc n)
  then have e: "e < length s" by simp
  let ?w = "take (e - b) (drop b s)"
  let ?t = "new_Token ?w (Some (token_metadata m b (e - b) (length ts)))"
  have split: "drop b s = ?w @ s ! e # drop (Suc e) s"
    using e Suc.prems(1) by (metis Cons_nth_drop_Suc append_take_drop_id drop_drop le_add_diff_inverse2)
  have len: "?w = [] \<longleftrightarrow> b = e" using e Suc.prems(1) by auto
  have n: "n = length s - (e + 1)" using Suc.hyps(2) by simp
  show ?case
  proof (cases "sep (s ! e)")
    case True
    define ts0 where "ts0 = (if b < e then ts @ [?t] else ts)"
    have "slice_loop sep md s e b ts = slice_loop sep md s (e + 1) (e + 1) ts0"
      using e True by (subst slice_loop.simps) (simp add: assms(1) Let_def ts0_def)
    moreover have "tokens_placed s ts0"
      using Suc.prems e by (auto simp: ts0_def intro!: tokens_placed_snoc)
    moreover have "map tok_str ts0 @ words_of sep (drop (e + 1) s) = map tok_str ts @ words_of sep (drop b s)"
      using True Suc.prems(1,4) len words_of_run [of ?w sep "s ! e" "drop (Suc e) s"]
      by (simp add: ts0_def flip: split) (auto simp: new_Token_def)
    ultimately show ?thesis
      using Suc.hyps(1) [OF n, of "e + 1" ts0] e by simp
  next
    case False
    have "slice_loop sep md s e b ts = slice_loop sep md s (e + 1) b ts"
      using e False by (subst slice_loop.simps) (simp add: Let_def)
    moreover have "\<forall>c \<in> set (take (e + 1 - b) (drop b s)). \<not> sep c"
      using Suc.prems(1,4) False by (simp flip: slice_extend [OF Suc.prems(1) e])
    ultimately show ?thesis
      using Suc.hyps(1) [OF n, of b ts] Suc.prems e by simp
  qed
qed

text \<open>C30. A field that is a string is cut into exactly the maximal pieces without a separator, in order and
  in lower case, each token numbered and carrying the place of its string in the text; the tokenizer
  never fails on metadata that can be cloned.\<close>
theorem tokenizer_splits:
  assumes "clone md = Inr m"
  shows "\<exists>ts. tokenizer sep (Str s) md = Inr ts \<and>
    map tok_str ts = words_of sep (toLowerCase s) \<and> tokens_placed (toLowerCase s) ts"
proof -
  have "tokens_placed (toLowerCase s) []" by (simp add: tokens_placed_def)
  then show ?thesis
    using slice_loop_spec [OF assms, of 0 0 "toLowerCase s" "[]" sep]
    by (auto simp: tokenizer_def js_toString_def)
qed

theorem tokenizer_splits_witness:
  "\<exists>ts. tokenizer separator (Str ''Set-up  a'') (Some [(''fields'', Arr [Str ''text''])]) = Inr ts \<and>
    map tok_str ts = [''set'', ''up'', ''a''] \<and> tokens_placed ''set-up  a'' ts"
proof -
  have "clone (Some [(''fields'', Arr [Str ''text''])]) = Inr (Some [(''fields'', Arr [Str ''text''])])"
    by code_simp
  moreover have "toLowerCase ''Set-up  a'' = ''set-up  a''" by code_simp
  moreover have "words_of separator ''set-up  a'' = [''set'', ''up'', ''a'']" by code_simp
  ultimately show ?thesis
    using tokenizer_splits [of "Some [(''fields'', Arr [Str ''text''])]" _ separator "''Set-up  a''"] by simp
qed

section \<open>Pipelines\<close>

lemma Pipeline_add_stack: "snd (Pipeline_add fns (R, stack)) = stack @ fns"
  by (induction fns arbitrary: R stack) (auto simp: Pipeline_add_def)

lemma warn_keeps [simp]: "labels (warn m R) = labels R" "registeredFunctions (warn m R) = registeredFunctions R"
  by (simp_all add: warn_def)

lemma warnIf_keeps [simp]:
  "labels (warnIfFunctionNotRegistered f R) = labels R"
  "registeredFunctions (warnIfFunctionNotRegistered f R) = registeredFunctions R"
  by (simp_all add: warnIfFunctionNotRegistered_def Let_def)

definition registered :: "'f registry \<Rightarrow> 'f \<Rightarrow> bool" where
  "registered R f \<longleftrightarrow> (\<exists>l. l \<noteq> [] \<and> map_of (labels R) f = Some l \<and> map_of (registeredFunctions R) l = Some f)"

lemma warnIf_registered [simp]: "registered R f \<Longrightarrow> warnIfFunctionNotRegistered f R = R"
  by (auto simp: registered_def warnIfFunctionNotRegistered_def)

lemma registered_registerFunction:
  "l \<noteq> [] \<Longrightarrow> registered (registerFunction f l R) f"
  by (simp add: registered_def registerFunction_def Let_def)

lemma load_loop:
  "list_all (registered R) fs \<Longrightarrow>
   foldl (\<lambda>r fnName. bindr r (\<lambda>(R, stack).
         case map_of (registeredFunctions R) fnName of
           Some fn \<Rightarrow> Inr (Pipeline_add [fn] (R, stack))
         | None \<Rightarrow> Inl (mk_Error (''Cannot load unregistered function: '' @ fnName))))
       (Inr (R, stack)) (map (\<lambda>f. the (map_of (labels R) f)) fs) = Inr (R, stack @ fs)"
proof (induction fs arbitrary: stack)
  case (Cons f fs)
  obtain l where l: "map_of (labels R) f = Some l" "map_of (registeredFunctions R) l = Some f"
    using Cons.prems by (auto simp: registered_def)
  have "Pipeline_add [f] (R, stack) = (R, stack @ [f])"
    using Cons.prems by (simp add: Pipeline_add_def)
  then show ?case using Cons.IH [of "stack @ [f]"] Cons.prems l by simp
qed simp

text \<open>A pipeline of registered functions survives serialisation: loading the labels that \<open>toJSON\<close> gives
  rebuilds the same functions in the same order and prints no warning; one unregistered label makes the
  load fail.\<close>
lemma pipeline_labels:
  assumes "list_all (registered R) fs"
  shows "Pipeline_toJSON (R, fs) = (R, map Some (map (\<lambda>f. the (map_of (labels R) f)) fs))"
proof -
  have "fold warnIfFunctionNotRegistered fs R = R"
    using assms(1) by (induction fs) auto
  moreover have "map (map_of (labels R)) fs = map Some (map (\<lambda>f. the (map_of (labels R) f)) fs)"
    using assms(1) by (auto simp: list_all_iff registered_def)
  ultimately show ?thesis by (simp add: Pipeline_toJSON_def)
qed

lemma pipeline_loads:
  assumes "list_all (registered R) fs"
  shows "Pipeline_load (map (\<lambda>f. the (map_of (labels R) f)) fs) R = Inr (R, fs)"
  using load_loop [OF assms, of "[]"] by (simp add: Pipeline_load_def)

lemma pipeline_load_unregistered:
  assumes "list_all (registered R) fs" "l \<notin> fst ` set (registeredFunctions R)"
  shows "Pipeline_load (map (\<lambda>f. the (map_of (labels R) f)) fs @ [l]) R =
    Inl (mk_Error (''Cannot load unregistered function: '' @ l))"
proof -
  have "map_of (registeredFunctions R) l = None" using assms(2) by (simp add: map_of_eq_None_iff)
  then show ?thesis using load_loop [OF assms(1), of "[]"] by (simp add: Pipeline_load_def)
qed

text \<open>Inserting next to an existing function.\<close>
lemma pipeline_insertions:
  assumes "f \<notin> set xs"
  shows "mapr snd (Pipeline_after f g (R, xs @ f # ys)) = Inr (xs @ f # g # ys)"
    "mapr snd (Pipeline_before f g (R, xs @ f # ys)) = Inr (xs @ g # f # ys)"
    "Pipeline_remove f (xs @ f # ys) = xs @ ys"
  using assms by (simp_all add: Pipeline_after_def Pipeline_before_def Pipeline_remove_def
      index_of_append_sep Let_def)

section \<open>Interface: pipeline functions that look at one token\<close>

lemma memo_loop_local:
  "(\<And>t j ts. fn t j ts = step t) \<Longrightarrow>
     memo_loop fn tokens j rest memo = memo @ concat (map (\<lambda>t. result_tokens (step t)) rest)"
  by (induction fn tokens j rest memo rule: memo_loop.induct) auto

text \<open>If no function looks at the position or the other tokens, the pipeline treats each token alone:
  its output is the concatenation of the outputs for the single tokens.\<close>
locale token_functions =
  fixes call :: "'f \<Rightarrow> token \<Rightarrow> nat \<Rightarrow> token list \<Rightarrow> pl_result"
    and step :: "'f \<Rightarrow> token \<Rightarrow> pl_result"
  assumes call_step: "call f t j ts = step f t"
begin

fun run_one :: "'f list \<Rightarrow> token \<Rightarrow> token list" where
  "run_one [] t = [t]"
| "run_one (f # fs) t = concat (map (run_one fs) (result_tokens (step f t)))"

lemma run_concat: "Pipeline_run call fs ts = concat (map (run_one fs) ts)"
proof (induction fs arbitrary: ts)
  case Nil
  show ?case by (induction ts) auto
next
  case (Cons f fs)
  have "memo_loop (call f) ts 0 ts [] = concat (map (\<lambda>t. result_tokens (step f t)) ts)"
    by (simp add: memo_loop_local [of "call f" "step f"] call_step)
  moreover have "concat (map g (concat (map h ts))) = concat (map (\<lambda>t. concat (map g (h t))) ts)"
    for g :: "token \<Rightarrow> token list" and h ts
    by (induction ts) auto
  ultimately show ?case by (simp add: Cons.IH)
qed

lemma run_append: "Pipeline_run call fs (ts @ ts') = Pipeline_run call fs ts @ Pipeline_run call fs ts'"
  by (simp add: run_concat)

lemma run_single: "Pipeline_run call fs [t] = run_one fs t"
  by (simp add: run_concat)

end

section \<open>Stop words\<close>

lemma stop_object_lookup:
  "map_of (stop_object ws) s = (if s \<in> set ws \<and> s \<noteq> ''__proto__'' then Some s else None)"
proof -
  have "map_of (foldl (\<lambda>memo w. if w = ''__proto__'' then memo else AList.update w w memo) kvs ws) s =
      (if s \<in> set ws \<and> s \<noteq> ''__proto__'' then Some s else map_of kvs s)" for kvs :: "string obj"
    by (induction ws arbitrary: kvs) auto
  then show ?thesis by (simp add: stop_object_def)
qed

lemma generateStopWordFilter_spec:
  "generateStopWordFilter ws t =
     (if tok_str t \<in> set ws \<and> tok_str t \<noteq> ''__proto__'' then Dropped else One t)"
  by (simp add: generateStopWordFilter_def stop_object_lookup Token_toString_def)

lemma stopWordFilter_spec: "stopWordFilter t = (if tok_str t \<in> set stop_words then Dropped else One t)"
proof -
  have "''__proto__'' \<notin> set stop_words" by (simp add: stop_words_def)
  then show ?thesis by (auto simp: stopWordFilter_def generateStopWordFilter_spec)
qed

lemma trim_nonword_ends:
  "trim_nonword s = [] \<or> is_word_char (hd (trim_nonword s)) \<and> is_word_char (last (trim_nonword s))"
proof (cases "trim_nonword s")
  case (Cons c u)
  let ?d = "dropWhile (\<lambda>c. \<not> is_word_char c) s"
  have "?d = trim_nonword s @ rev (takeWhile (\<lambda>c. \<not> is_word_char c) (rev ?d))"
    by (metis rev_append rev_rev_ident takeWhile_dropWhile_id trim_nonword_def)
  then have "hd (trim_nonword s) = hd ?d" "?d \<noteq> []"
    using Cons by (metis append_Cons list.sel(1), metis Cons append_Cons list.distinct(1))
  moreover have "is_word_char (hd ?d)" if "?d \<noteq> []" using hd_dropWhile [OF that] by simp
  moreover have "is_word_char (last (trim_nonword s))"
    using Cons hd_dropWhile [of "\<lambda>c. \<not> is_word_char c" "rev ?d"]
    by (metis last_rev list.distinct(1) rev_is_Nil_conv trim_nonword_def)
  ultimately show ?thesis by simp
qed simp

end
