(* ===== verification/Lunr_Stemmer.thy ===== *)
theory Lunr_Stemmer
  imports Lunr_Core
begin

text \<open>
  \<open>lunr.stemmer\<close> (\<open>search/lunr.js\<close>): Porter's stemming algorithm on regular expressions, and the three
  functions of the default pipeline.

  A pattern is a list of items; \<open>rests\<close> lists what a match at the start of a string can leave over, so an
  unanchored pattern matches when the list is not empty and one ending in \<open>$\<close> when it contains the empty
  string.  The patterns \<open>/^(.+?)(a|b|...)$/\<close> are \<open>lazy_split\<close>: the shortest non-empty start without a
  line terminator whose rest is one of the alternatives.
\<close>

section \<open>Patterns\<close>

datatype pat = One_of "char \<Rightarrow> bool" | Many_of "char \<Rightarrow> bool" | Opt "pat list"

function rests :: "pat list \<Rightarrow> string \<Rightarrow> string list" where
  "rests [] s = [s]"
| "rests (One_of p # r) s = (case s of [] \<Rightarrow> [] | c # s' \<Rightarrow> if p c then rests r s' else [])"
| "rests (Many_of p # r) s =
     (case s of [] \<Rightarrow> [] | c # s' \<Rightarrow> if p c then rests (Many_of p # r) s' else []) @ rests r s"
| "rests (Opt q # r) s = rests (q @ r) s @ rests r s"
  by pat_completeness auto
termination
  by (relation "measures [\<lambda>(ps, s). size_list size ps, \<lambda>(ps, s). length s]") (auto simp: size_list_append)

declare rests.simps [simp del]

definition matches :: "pat list \<Rightarrow> string \<Rightarrow> bool" where
  "matches ps s \<longleftrightarrow> rests ps s \<noteq> []"

definition matches_all :: "pat list \<Rightarrow> string \<Rightarrow> bool" where
  "matches_all ps s \<longleftrightarrow> [] \<in> set (rests ps s)"

text \<open>The class \<open>.\<close>: no line terminator.\<close>
definition dot_char :: "char \<Rightarrow> bool" where
  "dot_char c \<longleftrightarrow> c \<noteq> char_nl \<and> c \<noteq> char_cr"

definition lazy_split :: "string list \<Rightarrow> string \<Rightarrow> (string \<times> string) option" where
  "lazy_split alts w =
     map_option (\<lambda>k. (take k w, drop k w))
       (List.find (\<lambda>k. drop k w \<in> set alts \<and> list_all dot_char (take k w)) [1..<length w + 1])"

definition ends_with :: "string \<Rightarrow> string \<Rightarrow> bool" where
  "ends_with w suf \<longleftrightarrow> suffix suf w"

text \<open>\<open>w.replace(/.$/, "")\<close>\<close>
definition drop_last :: "string \<Rightarrow> string" where
  "drop_last w = (if w \<noteq> [] \<and> dot_char (last w) then butlast w else w)"

section \<open>The expressions of the stemmer\<close>

definition step2list :: "(string \<times> string) list" where
  "step2list =
     [(''ational'', ''ate''), (''tional'', ''tion''), (''enci'', ''ence''), (''anci'', ''ance''),
      (''izer'', ''ize''), (''bli'', ''ble''), (''alli'', ''al''), (''entli'', ''ent''), (''eli'', ''e''),
      (''ousli'', ''ous''), (''ization'', ''ize''), (''ation'', ''ate''), (''ator'', ''ate''),
      (''alism'', ''al''), (''iveness'', ''ive''), (''fulness'', ''ful''), (''ousness'', ''ous''),
      (''aliti'', ''al''), (''iviti'', ''ive''), (''biliti'', ''ble''), (''logi'', ''log'')]"

definition step3list :: "(string \<times> string) list" where
  "step3list =
     [(''icate'', ''ic''), (''ative'', ''''), (''alize'', ''al''), (''iciti'', ''ic''), (''ical'', ''ic''),
      (''ful'', ''''), (''ness'', '''')]"

definition aeiou :: "char \<Rightarrow> bool" where
  "aeiou c \<longleftrightarrow> c \<in> set ''aeiou''"

definition aeiouy :: "char \<Rightarrow> bool" where
  "aeiouy c \<longleftrightarrow> c \<in> set ''aeiouy''"

definition consonant_seq :: "pat list" where
  "consonant_seq = [One_of (\<lambda>c. \<not> aeiou c), Many_of (\<lambda>c. \<not> aeiouy c)]"

definition vowel_seq :: "pat list" where
  "vowel_seq = [One_of aeiouy, Many_of aeiou]"

definition re_mgr0 :: "string \<Rightarrow> bool" where
  "re_mgr0 s = matches ([Opt consonant_seq] @ vowel_seq @ consonant_seq) s"

definition re_meq1 :: "string \<Rightarrow> bool" where
  "re_meq1 s = matches_all ([Opt consonant_seq] @ vowel_seq @ consonant_seq @ [Opt vowel_seq]) s"

definition re_mgr1 :: "string \<Rightarrow> bool" where
  "re_mgr1 s = matches ([Opt consonant_seq] @ vowel_seq @ consonant_seq @ vowel_seq @ consonant_seq) s"

definition re_s_v :: "string \<Rightarrow> bool" where
  "re_s_v s = matches [Opt consonant_seq, One_of aeiouy] s"

text \<open>\<open>re4_1b_2\<close> and \<open>re3_5\<close>, the same expression: consonants, one vowel, one consonant other than w, x, y.\<close>
definition re_cvc :: "string \<Rightarrow> bool" where
  "re_cvc s = matches_all (consonant_seq @ [One_of aeiouy, One_of (\<lambda>c. c \<notin> set ''aeiouwxy'')]) s"

text \<open>\<open>([^aeiouylsz])\1$\<close>\<close>
definition re_double :: "string \<Rightarrow> bool" where
  "re_double w \<longleftrightarrow> 2 \<le> length w \<and> w ! (length w - 2) = last w \<and> last w \<notin> set ''aeiouylsz''"

section \<open>The algorithm\<close>

text \<open>\<open>/^(.+?)(ss|i)es$/\<close> and \<open>/^(.+?)([^s])s$/\<close>, replaced by their two groups.\<close>
definition step1a :: "string \<Rightarrow> string" where
  "step1a w =
     (case lazy_split [''sses'', ''ies''] w of
        Some (stem, suf) \<Rightarrow> stem @ take (length suf - 2) suf
      | None \<Rightarrow>
          if 3 \<le> length w \<and> last w = CHR ''s'' \<and> w ! (length w - 2) \<noteq> CHR ''s'' \<and>
             list_all dot_char (take (length w - 2) w)
          then butlast w else w)"

definition step1b :: "string \<Rightarrow> string" where
  "step1b w =
     (case lazy_split [''eed''] w of
        Some (stem, _) \<Rightarrow> if re_mgr0 stem then drop_last w else w
      | None \<Rightarrow>
          (case lazy_split [''ed'', ''ing''] w of
             None \<Rightarrow> w
           | Some (stem, _) \<Rightarrow>
               if re_s_v stem
               then (if ends_with stem ''at'' \<or> ends_with stem ''bl'' \<or> ends_with stem ''iz'' then stem @ ''e''
                     else if re_double stem then drop_last stem
                     else if re_cvc stem then stem @ ''e''
                     else stem)
               else w))"

text \<open>\<open>/^(.+?[^aeiou])y$/\<close>\<close>
definition step1c :: "string \<Rightarrow> string" where
  "step1c w =
     (if 3 \<le> length w \<and> last w = CHR ''y'' \<and> \<not> aeiou (w ! (length w - 2)) \<and>
         list_all dot_char (take (length w - 2) w)
      then butlast w @ ''i'' else w)"

text \<open>Steps 2 and 3: a suffix of the list is replaced if the stem has a positive measure.\<close>
definition suffix_step :: "(string \<times> string) list \<Rightarrow> string \<Rightarrow> string" where
  "suffix_step lst w =
     (case lazy_split (map fst lst) w of
        None \<Rightarrow> w
      | Some (stem, suf) \<Rightarrow> if re_mgr0 stem then stem @ the (map_of lst suf) else w)"

definition re_4_suffixes :: "string list" where
  "re_4_suffixes =
     [''al'', ''ance'', ''ence'', ''er'', ''ic'', ''able'', ''ible'', ''ant'', ''ement'', ''ment'', ''ent'',
      ''ou'', ''ism'', ''ate'', ''iti'', ''ous'', ''ive'', ''ize'']"

definition step4 :: "string \<Rightarrow> string" where
  "step4 w =
     (case lazy_split re_4_suffixes w of
        Some (stem, _) \<Rightarrow> if re_mgr1 stem then stem else w
      | None \<Rightarrow>
          (case lazy_split [''sion'', ''tion''] w of
             None \<Rightarrow> w
           | Some (fp1, suf) \<Rightarrow>
               let stem = fp1 @ take 1 suf in if re_mgr1 stem then stem else w))"

definition step5 :: "string \<Rightarrow> string" where
  "step5 w =
     (let w' = (case lazy_split [''e''] w of
            None \<Rightarrow> w
          | Some (stem, _) \<Rightarrow> if re_mgr1 stem \<or> (re_meq1 stem \<and> \<not> re_cvc stem) then stem else w)
      in if ends_with w' ''ll'' \<and> re_mgr1 w' then drop_last w' else w')"

definition porterStemmer :: "string \<Rightarrow> string" where
  "porterStemmer w0 =
     (if length w0 < 3 then w0
      else
        let firstch = take 1 w0;
            w1 = (if firstch = ''y'' then ''Y'' @ drop 1 w0 else w0);
            w2 = step5 (step4 (suffix_step step3list (suffix_step step2list (step1c (step1b (step1a w1))))))
        in if firstch = ''y'' then firstch @ drop 1 w2 else w2)"

definition stemmer :: "token \<Rightarrow> pl_result" where
  "stemmer t = One (Token_update (\<lambda>s _. porterStemmer s) t)"

section \<open>The functions of the library\<close>

text \<open>The pipeline functions \<open>lunr()\<close> installs, by identity.\<close>
datatype pl_fun = Pf_trimmer | Pf_stopWordFilter | Pf_stemmer

fun default_step :: "pl_fun \<Rightarrow> token \<Rightarrow> pl_result" where
  "default_step Pf_trimmer = trimmer"
| "default_step Pf_stopWordFilter = stopWordFilter"
| "default_step Pf_stemmer = stemmer"

definition default_call :: "pl_fun \<Rightarrow> token \<Rightarrow> nat \<Rightarrow> token list \<Rightarrow> pl_result" where
  "default_call f t j ts = default_step f t"

interpretation default: token_functions default_call default_step
  by unfold_locales (simp add: default_call_def)

text \<open>The three calls of \<open>registerFunction\<close>, in the order of the file.\<close>
definition default_registry :: "pl_fun registry" where
  "default_registry =
     registerFunction Pf_trimmer ''trimmer''
       (registerFunction Pf_stopWordFilter ''stopWordFilter''
         (registerFunction Pf_stemmer ''stemmer'' \<lparr>labels = [], registeredFunctions = [], warnings = []\<rparr>))"

section \<open>The patterns count vowel-consonant groups\<close>

text \<open>Porter's measure: a letter is a vowel if it is one of aeiou, or a y after a consonant; the measure is
  the number of places where a consonant follows a vowel.  \<open>prev\<close> says whether the letter before was a
  vowel.\<close>
definition vowel_after :: "bool \<Rightarrow> char \<Rightarrow> bool" where
  "vowel_after prev c \<longleftrightarrow> aeiou c \<or> (c = CHR ''y'' \<and> \<not> prev)"

fun measure_from :: "bool \<Rightarrow> string \<Rightarrow> nat" where
  "measure_from prev [] = 0"
| "measure_from prev (c # s) =
     (if prev \<and> \<not> vowel_after prev c then 1 else 0) + measure_from (vowel_after prev c) s"

definition porter_measure :: "string \<Rightarrow> nat" where
  "porter_measure s = measure_from False s"

lemma vowel_after_simps: "vowel_after False c = aeiouy c" "vowel_after True c = aeiou c"
  by (auto simp: vowel_after_def aeiou_def aeiouy_def)

lemma aeiou_aeiouy: "aeiou c \<Longrightarrow> aeiouy c"
  by (auto simp: aeiou_def aeiouy_def)

lemma rests_step:
  "rests [] s = [s]"
  "rests (One_of p # r) [] = []"
  "rests (One_of p # r) (c # s) = (if p c then rests r s else [])"
  "rests (Many_of p # r) [] = rests r []"
  "rests (Many_of p # r) (c # s) = (if p c then rests (Many_of p # r) s else []) @ rests r (c # s)"
  "rests (Opt q # r) s = rests (q @ r) s @ rests r s"
  by (simp_all add: rests.simps)

lemmas pat_simps = rests_step consonant_seq_def vowel_seq_def

abbreviation more_cons :: pat where "more_cons \<equiv> Many_of (\<lambda>c. \<not> aeiouy c)"
abbreviation more_vowels :: pat where "more_vowels \<equiv> Many_of aeiou"

text \<open>Inside a run the next letter decides: no two ways to go on.\<close>
lemma rests_in_consonants:
  "rests (more_cons # One_of aeiouy # q) s =
     (case s of [] \<Rightarrow> [] | c # s' \<Rightarrow> if aeiouy c then rests q s' else rests (more_cons # One_of aeiouy # q) s')"
  by (cases s) (auto simp: rests_step)

lemma rests_in_vowels:
  "rests (more_vowels # One_of (\<lambda>c. \<not> aeiou c) # q) s =
     (case s of [] \<Rightarrow> [] | c # s' \<Rightarrow>
        if aeiou c then rests (more_vowels # One_of (\<lambda>c. \<not> aeiou c) # q) s' else rests q s')"
  by (cases s) (auto simp: rests_step)

text \<open>What is left of a pattern inside a consonant run with \<open>k\<close> groups to go, ending in \<open>q\<close>.\<close>
fun groups_left :: "pat list \<Rightarrow> nat \<Rightarrow> pat list" where
  "groups_left q 0 = more_cons # q"
| "groups_left q (Suc k) = more_cons # One_of aeiouy # more_vowels # One_of (\<lambda>c. \<not> aeiou c) # groups_left q k"

lemma matches_groups_left:
  "(rests (groups_left [] k) s \<noteq> [] \<longleftrightarrow> k \<le> measure_from False s) \<and>
   (rests (more_vowels # One_of (\<lambda>c. \<not> aeiou c) # groups_left [] k) s \<noteq> [] \<longleftrightarrow> Suc k \<le> measure_from True s)"
proof (induction s arbitrary: k)
  case Nil
  show ?case by (cases k) (simp_all add: rests_step)
next
  case (Cons c s)
  have "rests (groups_left [] k) (c # s) \<noteq> [] \<longleftrightarrow> k \<le> measure_from False (c # s)"
  proof (cases k)
    case 0
    then show ?thesis by (simp add: rests_step)
  next
    case (Suc n)
    then show ?thesis
      using Cons.IH [of k] Cons.IH [of n] by (simp add: rests_in_consonants vowel_after_simps)
  qed
  then show ?case
    using Cons.IH [of k] by (simp add: rests_in_vowels vowel_after_simps)
qed

lemma measure_True_0: "measure_from True s = 0 \<longleftrightarrow> list_all aeiou s"
  by (induction s) (auto simp: vowel_after_simps)

lemma all_vowels: "[] \<in> set (rests [more_vowels] s) \<longleftrightarrow> list_all aeiou s"
  by (induction s) (auto simp: rests_step)

lemma all_groups_left:
  "([] \<in> set (rests (groups_left [Opt vowel_seq] k) s) \<longleftrightarrow> measure_from False s = k) \<and>
   ([] \<in> set (rests (more_vowels # One_of (\<lambda>c. \<not> aeiou c) # groups_left [Opt vowel_seq] k) s) \<longleftrightarrow>
     measure_from True s = Suc k)"
proof (induction s arbitrary: k)
  case Nil
  show ?case by (cases k) (simp_all add: pat_simps)
next
  case (Cons c s)
  have "[] \<in> set (rests (groups_left [Opt vowel_seq] k) (c # s)) \<longleftrightarrow> measure_from False (c # s) = k"
  proof (cases k)
    case 0
    have "rests [more_cons, Opt vowel_seq] (c # s) =
        (if \<not> aeiouy c then rests [more_cons, Opt vowel_seq] s else rests [more_vowels] s) @ [c # s]"
      by (simp add: pat_simps)
    then show ?thesis
      using 0 Cons.IH [of 0] by (auto simp: all_vowels vowel_after_simps measure_True_0)
  next
    case (Suc n)
    then show ?thesis
      using Cons.IH [of k] Cons.IH [of n] by (simp add: rests_in_consonants vowel_after_simps)
  qed
  then show ?case
    using Cons.IH [of k] by (simp add: rests_in_vowels vowel_after_simps)
qed

text \<open>The optional first consonants: the first letter decides, unless it is a small y.\<close>
lemma rests_start:
  assumes "s = [] \<or> hd s \<noteq> CHR ''y''"
  shows "rests (Opt consonant_seq # One_of aeiouy # q) s =
    (case s of [] \<Rightarrow> [] | c # s' \<Rightarrow> if aeiouy c then rests q s' else rests (more_cons # One_of aeiouy # q) s')"
proof (cases s)
  case (Cons c s')
  then have "aeiouy c = aeiou c" using assms by (auto simp: aeiou_def aeiouy_def)
  then show ?thesis by (simp add: Cons pat_simps)
qed (simp add: pat_simps)

lemma matches_vowel: "rests [more_cons, One_of aeiouy] s \<noteq> [] \<longleftrightarrow> (\<exists>c \<in> set s. aeiouy c)"
  by (induction s) (auto simp: rests_step)

text \<open>C31. On a word that does not begin with a small y (the stemmer writes it as a capital first), the four
  expressions built from character classes test exactly Porter's measure and the presence of a vowel.\<close>
theorem stemmer_patterns_measure:
  assumes "s = [] \<or> hd s \<noteq> CHR ''y''"
  shows "(re_mgr0 s \<longleftrightarrow> 0 < porter_measure s) \<and> (re_mgr1 s \<longleftrightarrow> 1 < porter_measure s) \<and>
    (re_meq1 s \<longleftrightarrow> porter_measure s = 1) \<and> (re_s_v s \<longleftrightarrow> (\<exists>c \<in> set s. aeiouy c))"
proof (cases s)
  case Nil
  then show ?thesis
    by (simp add: re_mgr0_def re_mgr1_def re_meq1_def re_s_v_def matches_def matches_all_def
        vowel_seq_def rests_start porter_measure_def)
next
  case (Cons c s')
  have m: "porter_measure (c # s') = measure_from (aeiouy c) s'"
    by (simp add: porter_measure_def vowel_after_simps)
  note start = rests_start [OF assms, unfolded Cons consonant_seq_def]
  note pats = consonant_seq_def vowel_seq_def start Cons m
  have "re_mgr0 s \<longleftrightarrow> 0 < porter_measure s"
    using matches_groups_left [of 1 s'] matches_groups_left [of 0 s']
    by (simp add: re_mgr0_def matches_def pats Suc_le_eq)
  moreover have "re_mgr1 s \<longleftrightarrow> 1 < porter_measure s"
    using matches_groups_left [of "Suc 1" s'] matches_groups_left [of 1 s']
    by (simp add: re_mgr1_def matches_def pats Suc_le_eq)
  moreover have "re_meq1 s \<longleftrightarrow> porter_measure s = 1"
    using all_groups_left [of 1 s'] all_groups_left [of 0 s']
    by (simp add: re_meq1_def matches_all_def pats)
  moreover have "re_s_v s \<longleftrightarrow> (\<exists>c \<in> set s. aeiouy c)"
    using matches_vowel [of s'] aeiou_aeiouy [of c] by (auto simp: re_s_v_def matches_def pats rests_step)
  ultimately show ?thesis by blast
qed

theorem stemmer_patterns_measure_witness:
  "re_mgr1 ''syzyg'' \<longleftrightarrow> 1 < porter_measure ''syzyg''"
  using stemmer_patterns_measure [of "''syzyg''"] by simp

section \<open>What stemming keeps\<close>

definition shortens :: "string \<Rightarrow> string \<Rightarrow> bool" where
  "shortens w w' \<longleftrightarrow> w' \<noteq> [] \<and> hd w' = hd w \<and> length w' \<le> length w"

lemma shortens_refl [simp]: "w \<noteq> [] \<Longrightarrow> shortens w w"
  by (simp add: shortens_def)

lemma shortens_trans: "shortens w w' \<Longrightarrow> shortens w' w'' \<Longrightarrow> shortens w w''"
  by (auto simp: shortens_def)

lemma shortens_stem: "w = a @ b \<Longrightarrow> a \<noteq> [] \<Longrightarrow> length r \<le> length b \<Longrightarrow> shortens w (a @ r)"
  by (simp add: shortens_def)

lemma find_SomeD: "List.find P xs = Some x \<Longrightarrow> x \<in> set xs \<and> P x"
  by (induction xs) (auto split: if_splits)

lemma lazy_split_Some:
  assumes "lazy_split alts w = Some (a, b)"
  shows "w = a @ b \<and> a \<noteq> [] \<and> b \<in> set alts"
proof -
  obtain k where k: "List.find (\<lambda>k. drop k w \<in> set alts \<and> list_all dot_char (take k w)) [1..<length w + 1] = Some k"
    and ab: "a = take k w" "b = drop k w"
    using assms by (auto simp: lazy_split_def)
  have "k \<in> set [1..<length w + 1] \<and> drop k w \<in> set alts"
    using find_SomeD [OF k] by blast
  then show ?thesis using ab by (auto simp del: upt_Suc)
qed

lemma shortens_butlast: "2 \<le> length w \<Longrightarrow> length r \<le> 1 \<Longrightarrow> shortens w (butlast w @ r)"
  by (cases w rule: rev_cases) (auto intro!: shortens_stem)

lemma shortens_drop_last: "2 \<le> length w \<Longrightarrow> shortens w (drop_last w)"
  using shortens_butlast [of w "[]"] by (cases w) (auto simp: drop_last_def)

lemma shortens_step1a: "w \<noteq> [] \<Longrightarrow> shortens w (step1a w)"
  using shortens_butlast [of w "[]"]
  by (auto simp: step1a_def intro!: shortens_stem dest!: lazy_split_Some split: option.splits)

lemma shortens_step1b: "w \<noteq> [] \<Longrightarrow> shortens w (step1b w)"
proof -
  assume w: "w \<noteq> []"
  show ?thesis
  proof (cases "lazy_split [''eed''] w")
    case (Some p)
    then have "2 \<le> length w" by (cases p) (auto dest!: lazy_split_Some)
    then show ?thesis
      using w shortens_drop_last [of w] by (cases p) (simp add: step1b_def Some)
  next
    case None
    show ?thesis
    proof (cases "lazy_split [''ed'', ''ing''] w")
      case (Some p)
      obtain a b where p: "p = (a, b)" by fastforce
      have ab: "w = a @ b" "a \<noteq> []" "b = ''ed'' \<or> b = ''ing''" using lazy_split_Some [OF Some [unfolded p]] by auto
      have stem: "shortens w (a @ r)" if "length r \<le> 1" for r
        using ab that by (intro shortens_stem) auto
      have "shortens w a" using stem [of "[]"] by simp
      then have "shortens w (drop_last a)" if "re_double a"
        using that shortens_drop_last [of a] by (auto simp: re_double_def intro: shortens_trans)
      then show ?thesis
        using w stem [of "''e''"] \<open>shortens w a\<close> by (simp add: step1b_def None Some p)
    qed (simp add: step1b_def None w)
  qed
qed

lemma shortens_step1c: "w \<noteq> [] \<Longrightarrow> shortens w (step1c w)"
  using shortens_butlast [of w "''i''"] by (simp add: step1c_def)

lemma shortens_suffix_step:
  assumes "w \<noteq> []" "list_all (\<lambda>(s, r). length r \<le> length s) lst"
  shows "shortens w (suffix_step lst w)"
proof (cases "lazy_split (map fst lst) w")
  case (Some p)
  obtain a b where p: "p = (a, b)" by fastforce
  have ab: "w = a @ b" "a \<noteq> []" "b \<in> fst ` set lst" using lazy_split_Some [OF Some [unfolded p]] by auto
  then obtain r where r: "map_of lst b = Some r" by (metis map_of_eq_None_iff not_None_eq)
  then have "length r \<le> length b" using assms(2) map_of_SomeD [OF r] by (auto simp: list_all_iff)
  then have "shortens w (a @ r)" using ab by (intro shortens_stem)
  then show ?thesis using assms(1) r by (simp add: suffix_step_def Some p)
qed (simp add: suffix_step_def assms)

lemma shortens_step4: "w \<noteq> [] \<Longrightarrow> shortens w (step4 w)"
  using shortens_stem [of w _ _ "[]"]
  by (auto simp: step4_def Let_def intro!: shortens_stem dest!: lazy_split_Some split: option.splits)

lemma shortens_step5: "w \<noteq> [] \<Longrightarrow> shortens w (step5 w)"
proof -
  assume w: "w \<noteq> []"
  define w' where "w' = (case lazy_split [''e''] w of
            None \<Rightarrow> w
          | Some (stem, _) \<Rightarrow> if re_mgr1 stem \<or> (re_meq1 stem \<and> \<not> re_cvc stem) then stem else w)"
  have "shortens w w'"
    using w shortens_stem [of w _ _ "[]"] by (auto simp: w'_def dest!: lazy_split_Some split: option.splits)
  moreover have "shortens w' (drop_last w')" if "ends_with w' ''ll''"
    using that by (intro shortens_drop_last) (auto simp: ends_with_def suffix_def)
  moreover have "step5 w = (if ends_with w' ''ll'' \<and> re_mgr1 w' then drop_last w' else w')"
    by (simp add: step5_def Let_def w'_def)
  ultimately show ?thesis using shortens_trans by simp
qed

lemma shortens_then: "(\<And>v. v \<noteq> [] \<Longrightarrow> shortens v (f v)) \<Longrightarrow> shortens w v \<Longrightarrow> shortens w (f v)"
  by (rule shortens_trans, assumption) (simp add: shortens_def)

lemma shortens_stemmer:
  assumes w: "w \<noteq> []"
  shows "shortens w (porterStemmer w)"
proof (cases "length w < 3")
  case False
  define w1 where "w1 = (if take 1 w = ''y'' then ''Y'' @ drop 1 w else w)"
  define w2 where "w2 = step5 (step4 (suffix_step step3list (suffix_step step2list (step1c (step1b (step1a w1))))))"
  have lists: "list_all (\<lambda>(s, r). length r \<le> length s) step2list" "list_all (\<lambda>(s, r). length r \<le> length s) step3list"
    by (simp_all add: step2list_def step3list_def)
  have w1: "w1 \<noteq> []" "length w1 = length w" using w False by (auto simp: w1_def)
  have w2: "shortens w1 w2"
    unfolding w2_def
    by (rule shortens_then [OF shortens_step5 shortens_then [OF shortens_step4
          shortens_then [OF shortens_suffix_step [OF _ lists(2)] shortens_then [OF shortens_suffix_step [OF _ lists(1)]
          shortens_then [OF shortens_step1c shortens_then [OF shortens_step1b shortens_step1a [OF w1(1)]]]]]]])
  have out: "porterStemmer w = (if take 1 w = ''y'' then take 1 w @ drop 1 w2 else w2)"
    using False by (simp add: porterStemmer_def Let_def w2_def w1_def)
  show ?thesis
  proof (cases "take 1 w = ''y''")
    case True
    then have "hd w = CHR ''y''" by (cases w) auto
    then show ?thesis using True out w2 w1(2) False by (auto simp: shortens_def)
  next
    case False
    then show ?thesis using out w2 w1(2) \<open>\<not> length w < 3\<close> by (simp add: shortens_def w1_def)
  qed
qed (simp add: porterStemmer_def w shortens_def)

text \<open>C32. Stemming never lengthens a word, never empties it and keeps its first letter, so the stems of a
  text sort under the letters of its words; words of one or two letters stay as they are.\<close>
theorem stemmer_keeps_start:
  "w \<noteq> [] \<Longrightarrow> porterStemmer w \<noteq> [] \<and> hd (porterStemmer w) = hd w \<and>
     length (porterStemmer w) \<le> length w \<and> (length w < 3 \<longrightarrow> porterStemmer w = w)"
  using shortens_stemmer [of w] by (simp add: shortens_def porterStemmer_def)

theorem stemmer_keeps_start_witness:
  "porterStemmer ''yearly'' = ''yearli'' \<and> hd (porterStemmer ''yearly'') = CHR ''y''"
proof -
  have "porterStemmer ''yearly'' = ''yearli''" by code_simp
  then show ?thesis using stemmer_keeps_start [of "''yearly''"] by simp
qed

section \<open>Letters of stems\<close>

text \<open>A step drops letters at the end or puts small letters there, so a stem has no other new character.\<close>
lemma no_new_butlast: "c \<notin> set w \<Longrightarrow> c \<notin> set (butlast w)" "c \<notin> set w \<Longrightarrow> c \<notin> set (drop_last w)"
  by (auto simp: drop_last_def dest: in_set_butlastD in_set_takeD)

lemma no_new_steps:
  assumes "c \<notin> set ''abcefiloustz''" "c \<notin> set w"
  shows "c \<notin> set (step1a w)" "c \<notin> set (step1b w)" "c \<notin> set (step1c w)" "c \<notin> set (step4 w)" "c \<notin> set (step5 w)"
proof -
  show "c \<notin> set (step1a w)" "c \<notin> set (step4 w)" "c \<notin> set (step1b w)"
    using assms no_new_butlast
    by (auto simp: step1a_def step4_def step1b_def Let_def dest!: lazy_split_Some dest: in_set_takeD split: option.split)
  show "c \<notin> set (step1c w)" using assms no_new_butlast by (auto simp: step1c_def)
  show "c \<notin> set (step5 w)"
    using assms no_new_butlast by (auto simp: step5_def Let_def dest!: lazy_split_Some split: option.split)
qed

lemma no_new_suffix_step:
  assumes "list_all (\<lambda>(s, r). c \<notin> set r) lst" "c \<notin> set w"
  shows "c \<notin> set (suffix_step lst w)"
proof (cases "lazy_split (map fst lst) w")
  case (Some p)
  obtain a b where p: "p = (a, b)" by fastforce
  have ab: "w = a @ b" "b \<in> fst ` set lst" using lazy_split_Some [OF Some [unfolded p]] by auto
  then obtain r where r: "map_of lst b = Some r" by (metis map_of_eq_None_iff not_None_eq)
  then have "c \<notin> set r" using assms(1) map_of_SomeD [OF r] by (auto simp: list_all_iff)
  moreover have "c \<notin> set a" using assms(2) ab(1) by simp
  ultimately show ?thesis using assms(2) r by (simp add: suffix_step_def Some p)
qed (simp add: suffix_step_def assms)

lemma stem_no_star: "CHR ''*'' \<notin> set w \<Longrightarrow> CHR ''*'' \<notin> set (porterStemmer w)"
proof -
  have "CHR ''*'' \<notin> set ''abcefiloustz''" "list_all (\<lambda>(s, r). CHR ''*'' \<notin> set r) step2list"
      "list_all (\<lambda>(s, r). CHR ''*'' \<notin> set r) step3list"
    by code_simp+
  note steps = no_new_steps [OF this(1)] no_new_suffix_step [OF this(2)] no_new_suffix_step [OF this(3)]
  define st where "st v = step5 (step4 (suffix_step step3list (suffix_step step2list (step1c (step1b (step1a v))))))" for v
  have all: "CHR ''*'' \<notin> set (st v)" if "CHR ''*'' \<notin> set v" for v
    using that unfolding st_def by (intro steps)
  assume w: "CHR ''*'' \<notin> set w"
  then have parts: "CHR ''*'' \<notin> set (drop 1 w)" "CHR ''*'' \<notin> set (take 1 w)" by (metis in_set_dropD, metis in_set_takeD)
  then have "CHR ''*'' \<notin> set (drop 1 (st (''Y'' @ drop 1 w)))" using all [of "''Y'' @ drop 1 w"] by (auto dest: in_set_dropD)
  moreover have "porterStemmer w = (if length w < 3 then w else if take 1 w = ''y''
      then take 1 w @ drop 1 (st (''Y'' @ drop 1 w)) else st w)" unfolding porterStemmer_def Let_def st_def [symmetric] by simp
  ultimately show ?thesis using w all [OF w] parts by simp
qed

end
