(* ===== verification/Lunr_Query.thy ===== *)
theory Lunr_Query
  imports Lunr_Core
begin

text \<open>
  The query language of the documentation search (\<open>search/lunr.js\<close>): \<open>lunr.Query\<close>, \<open>lunr.QueryLexer\<close> and
  \<open>lunr.QueryParser\<close>.

  The lexer and the parser are state machines whose states are functions that return the next one; here a
  state is a value of a datatype and each function answers the next state.  Both drivers are loops that
  might not end, so they are partial functions into \<open>option\<close>, and that they always return is a theorem.
  The term separator of the lexer is a parameter: it is bound to the default separator of the tokenizer
  when the library loads.
\<close>

section \<open>Queries\<close>

datatype presence = OPTIONAL | REQUIRED | PROHIBITED

definition wildcard_NONE :: nat where "wildcard_NONE = 0"
definition wildcard_LEADING :: nat where "wildcard_LEADING = 1"
definition wildcard_TRAILING :: nat where "wildcard_TRAILING = 2"

text \<open>A clause as a caller builds it: \<open>None\<close> is a property that is absent.  The term is always given
  before the clause is added.\<close>
record clause_opts =
  o_term :: string
  o_fields :: "string list option"
  o_boost :: "rat option"
  o_usePipeline :: "bool option"
  o_wildcard :: "nat option"
  o_presence :: "presence option"
  o_editDistance :: "nat option"

text \<open>A clause of a query, with the defaults filled in.\<close>
record clause =
  c_term :: string
  c_fields :: "string list"
  c_boost :: rat
  c_usePipeline :: bool
  c_wildcard :: nat
  c_presence :: presence
  c_editDistance :: "nat option"

record query =
  clauses :: "clause list"
  allFields :: "string list"

definition new_Query :: "string list \<Rightarrow> query" where
  "new_Query fs = \<lparr>clauses = [], allFields = fs\<rparr>"

definition no_opts :: clause_opts where
  "no_opts = \<lparr>o_term = [], o_fields = None, o_boost = None, o_usePipeline = None, o_wildcard = None,
     o_presence = None, o_editDistance = None\<rparr>"

definition dflt :: "'a \<Rightarrow> 'a option \<Rightarrow> 'a" where
  "dflt d x = (case x of None \<Rightarrow> d | Some v \<Rightarrow> v)"

text \<open>The wildcards a clause asks for, as bits of a number.\<close>
definition add_leading :: "nat \<Rightarrow> string \<Rightarrow> string" where
  "add_leading w s = (if odd w \<and> take 1 s \<noteq> ''*'' then ''*'' @ s else s)"

definition add_trailing :: "nat \<Rightarrow> string \<Rightarrow> string" where
  "add_trailing w s = (if odd (w div 2) \<and> \<not> (s \<noteq> [] \<and> last s = CHR ''*'') then s @ ''*'' else s)"

definition Query_clause :: "clause_opts \<Rightarrow> query \<Rightarrow> query" where
  "Query_clause c q =
     (let w = dflt wildcard_NONE (o_wildcard c) in
      q\<lparr>clauses := clauses q @
        [\<lparr>c_term = add_trailing w (add_leading w (o_term c)),
          c_fields = dflt (allFields q) (o_fields c),
          c_boost = dflt 1 (o_boost c),
          c_usePipeline = dflt True (o_usePipeline c),
          c_wildcard = w,
          c_presence = dflt OPTIONAL (o_presence c),
          c_editDistance = o_editDistance c\<rparr>]\<rparr>)"

definition isNegated :: "query \<Rightarrow> bool" where
  "isNegated q \<longleftrightarrow> (\<forall>c \<in> set (clauses q). c_presence c = PROHIBITED)"

text \<open>\<open>query.term(term, options)\<close>, for one term or an array; the options are shallow, so cloning them
  succeeds.\<close>
fun Query_term :: "jsval \<Rightarrow> clause_opts \<Rightarrow> query \<Rightarrow> query jsr" where
  "Query_term (Arr ts) opts q = foldl (\<lambda>r t. bindr r (Query_term t opts)) (Inr q) ts"
| "Query_term t opts q = mapr (\<lambda>s. Query_clause (opts\<lparr>o_term := s\<rparr>) q) (js_toString t)"

section \<open>Lexer\<close>

datatype lex_type = LX_FIELD | LX_TERM | LX_EDIT_DISTANCE | LX_BOOST | LX_PRESENCE

fun type_name :: "lex_type \<Rightarrow> string" where
  "type_name LX_FIELD = ''FIELD''"
| "type_name LX_TERM = ''TERM''"
| "type_name LX_EDIT_DISTANCE = ''EDIT_DISTANCE''"
| "type_name LX_BOOST = ''BOOST''"
| "type_name LX_PRESENCE = ''PRESENCE''"

record lexeme =
  lx_type :: lex_type
  lx_str :: string
  lx_start :: nat
  lx_end :: nat

record lexer =
  lexemes :: "lexeme list"
  text_str :: string
  pos :: nat
  start :: nat
  escapeCharPositions :: "nat list"

definition new_QueryLexer :: "string \<Rightarrow> lexer" where
  "new_QueryLexer s = \<lparr>lexemes = [], text_str = s, pos = 0, start = 0, escapeCharPositions = []\<rparr>"

text \<open>\<open>s.slice(a, b)\<close> for places that are not negative\<close>
definition slice :: "string \<Rightarrow> nat \<Rightarrow> nat \<Rightarrow> string" where
  "slice s a b = take (b - a) (drop a s)"

fun sub_slices :: "string \<Rightarrow> nat \<Rightarrow> nat list \<Rightarrow> nat \<Rightarrow> string list" where
  "sub_slices s sliceStart [] p = [slice s sliceStart p]"
| "sub_slices s sliceStart (e # es) p = slice s sliceStart e # sub_slices s (e + 1) es p"

definition sliceString :: "lexer \<Rightarrow> string \<times> lexer" where
  "sliceString l =
     (concat (sub_slices (text_str l) (start l) (escapeCharPositions l) (pos l)), l\<lparr>escapeCharPositions := []\<rparr>)"

definition emit :: "lex_type \<Rightarrow> lexer \<Rightarrow> lexer" where
  "emit ty l =
     (let (s, l') = sliceString l in
      l'\<lparr>lexemes := lexemes l' @ [\<lparr>lx_type = ty, lx_str = s, lx_start = start l', lx_end = pos l'\<rparr>],
         start := pos l'\<rparr>)"

definition escapeCharacter :: "lexer \<Rightarrow> lexer" where
  "escapeCharacter l = l\<lparr>escapeCharPositions := escapeCharPositions l @ [pos l - 1], pos := pos l + 1\<rparr>"

text \<open>\<open>None\<close> is \<open>EOS\<close>.\<close>
definition next_char :: "lexer \<Rightarrow> char option \<times> lexer" where
  "next_char l =
     (if length (text_str l) \<le> pos l then (None, l)
      else (Some (text_str l ! pos l), l\<lparr>pos := pos l + 1\<rparr>))"

definition width :: "lexer \<Rightarrow> nat" where
  "width l = pos l - start l"

definition ignore :: "lexer \<Rightarrow> lexer" where
  "ignore l = (let l' = (if start l = pos l then l\<lparr>pos := pos l + 1\<rparr> else l) in l'\<lparr>start := pos l'\<rparr>)"

definition backup :: "lexer \<Rightarrow> lexer" where
  "backup l = l\<lparr>pos := pos l - 1\<rparr>"

function acceptDigitRun :: "lexer \<Rightarrow> lexer" where
  "acceptDigitRun l =
     (case next_char l of
        (None, l') \<Rightarrow> l'
      | (Some c, l') \<Rightarrow> if is_digit c then acceptDigitRun l' else backup l')"
  by pat_completeness auto
termination
  by (relation "measure (\<lambda>l. length (text_str l) - pos l)") (auto simp: next_char_def split: if_splits)

declare acceptDigitRun.simps [simp del]

definition more_text :: "lexer \<Rightarrow> bool" where
  "more_text l \<longleftrightarrow> pos l < length (text_str l)"

datatype lex_state = LexText | LexField | LexTerm | LexEditDistance | LexBoost | LexEOS

definition lexField :: "lexer \<Rightarrow> lex_state option \<times> lexer" where
  "lexField l = (Some LexText, ignore (emit LX_FIELD (backup l)))"

definition lexTerm :: "lexer \<Rightarrow> lex_state option \<times> lexer" where
  "lexTerm l =
     (let l1 = (if 1 < width l then emit LX_TERM (backup l) else l);
          l2 = ignore l1
      in (if more_text l2 then Some LexText else None, l2))"

definition lexEditDistance :: "lexer \<Rightarrow> lex_state option \<times> lexer" where
  "lexEditDistance l = (Some LexText, emit LX_EDIT_DISTANCE (acceptDigitRun (ignore l)))"

definition lexBoost :: "lexer \<Rightarrow> lex_state option \<times> lexer" where
  "lexBoost l = (Some LexText, emit LX_BOOST (acceptDigitRun (ignore l)))"

definition lexEOS :: "lexer \<Rightarrow> lex_state option \<times> lexer" where
  "lexEOS l = (None, if 0 < width l then emit LX_TERM l else l)"

definition emit_pending :: "lexer \<Rightarrow> lexer" where
  "emit_pending l = (if 0 < width l then emit LX_TERM l else l)"

text \<open>The loop of \<open>lexText\<close>.\<close>
function lexText :: "(char \<Rightarrow> bool) \<Rightarrow> lexer \<Rightarrow> lex_state option \<times> lexer" where
  "lexText sep l =
     (case next_char l of
        (None, l') \<Rightarrow> (Some LexEOS, l')
      | (Some c, l') \<Rightarrow>
          if of_char c = (92 :: nat) then lexText sep (escapeCharacter l')
          else if c = CHR '':'' then (Some LexField, l')
          else if c = CHR 126 then (Some LexEditDistance, emit_pending (backup l'))
          else if c = CHR ''^'' then (Some LexBoost, emit_pending (backup l'))
          else if c = CHR ''+'' \<and> width l' = 1 then (Some LexText, emit LX_PRESENCE l')
          else if c = CHR ''-'' \<and> width l' = 1 then (Some LexText, emit LX_PRESENCE l')
          else if sep c then (Some LexTerm, l')
          else lexText sep l')"
  by pat_completeness auto
termination
  by (relation "measure (\<lambda>(sep, l). length (text_str l) - pos l)")
    (auto simp: next_char_def escapeCharacter_def split: if_splits)

declare lexText.simps [simp del]

fun lex_step :: "(char \<Rightarrow> bool) \<Rightarrow> lex_state \<Rightarrow> lexer \<Rightarrow> lex_state option \<times> lexer" where
  "lex_step sep LexText = lexText sep"
| "lex_step sep LexField = lexField"
| "lex_step sep LexTerm = lexTerm"
| "lex_step sep LexEditDistance = lexEditDistance"
| "lex_step sep LexBoost = lexBoost"
| "lex_step sep LexEOS = lexEOS"

text \<open>\<open>while (state) { state = state(this) }\<close>\<close>
partial_function (option) lex_loop :: "(char \<Rightarrow> bool) \<Rightarrow> lex_state \<Rightarrow> lexer \<Rightarrow> lexer option" where
  "lex_loop sep st l =
     (case lex_step sep st l of
        (None, l') \<Rightarrow> Some l'
      | (Some st', l') \<Rightarrow> lex_loop sep st' l')"

declare lex_loop.simps [code]

definition lexer_run :: "(char \<Rightarrow> bool) \<Rightarrow> lexer \<Rightarrow> lexer option" where
  "lexer_run sep l = lex_loop sep LexText l"

section \<open>Parser\<close>

datatype parse_error = QueryParseError (pe_message: string) (pe_start: nat) (pe_end: nat)

record parser =
  p_lexemes :: "lexeme list"
  lexemeIdx :: nat
  p_query :: query
  currentClause :: clause_opts

definition peekLexeme :: "parser \<Rightarrow> lexeme option" where
  "peekLexeme p = (if lexemeIdx p < length (p_lexemes p) then Some (p_lexemes p ! lexemeIdx p) else None)"

definition consumeLexeme :: "parser \<Rightarrow> lexeme option \<times> parser" where
  "consumeLexeme p = (peekLexeme p, p\<lparr>lexemeIdx := lexemeIdx p + 1\<rparr>)"

definition nextClause :: "parser \<Rightarrow> parser" where
  "nextClause p = p\<lparr>p_query := Query_clause (currentClause p) (p_query p), currentClause := no_opts\<rparr>"

datatype parse_state = ParseClause | ParsePresence | ParseField | ParseTerm | ParseEditDistance | ParseBoost

type_synonym parse_result = "parse_error + (parse_state option \<times> parser)"

definition error_at :: "string \<Rightarrow> lexeme \<Rightarrow> parse_result" where
  "error_at msg lx = Inl (QueryParseError msg (lx_start lx) (lx_end lx))"

text \<open>A text in single quotes.\<close>
definition quoted :: "string \<Rightarrow> string" where
  "quoted s = [CHR 39] @ s @ [CHR 39]"

definition parseClause :: "parser \<Rightarrow> parse_result" where
  "parseClause p =
     (case peekLexeme p of
        None \<Rightarrow> Inr (None, p)
      | Some lx \<Rightarrow>
          (case lx_type lx of
             LX_PRESENCE \<Rightarrow> Inr (Some ParsePresence, p)
           | LX_FIELD \<Rightarrow> Inr (Some ParseField, p)
           | LX_TERM \<Rightarrow> Inr (Some ParseTerm, p)
           | ty \<Rightarrow> error_at (''expected either a field or a term, found '' @ type_name ty @
               (if 1 \<le> length (lx_str lx) then '' with value '' @ quoted (lx_str lx) else [])) lx))"

definition parsePresence :: "parser \<Rightarrow> parse_result" where
  "parsePresence p0 =
     (let (lxo, p1) = consumeLexeme p0 in
      case lxo of
        None \<Rightarrow> Inr (None, p1)
      | Some lx \<Rightarrow>
          let presence = (if lx_str lx = ''-'' then Some PROHIBITED
                          else if lx_str lx = ''+'' then Some REQUIRED else None) in
          if presence = None then error_at (''unrecognised presence operator'' @ quoted (lx_str lx)) lx
          else
            let p = p1\<lparr>currentClause := (currentClause p1)\<lparr>o_presence := presence\<rparr>\<rparr> in
            (case peekLexeme p of
               None \<Rightarrow> error_at ''expecting term or field, found nothing'' lx
             | Some nx \<Rightarrow>
                 (case lx_type nx of
                    LX_FIELD \<Rightarrow> Inr (Some ParseField, p)
                  | LX_TERM \<Rightarrow> Inr (Some ParseTerm, p)
                  | ty \<Rightarrow> error_at (''expecting term or field, found '' @ quoted (type_name ty)) nx)))"

definition parseField :: "parser \<Rightarrow> parse_result" where
  "parseField p0 =
     (let (lxo, p1) = consumeLexeme p0 in
      case lxo of
        None \<Rightarrow> Inr (None, p1)
      | Some lx \<Rightarrow>
          if index_of (lx_str lx) (allFields (p_query p1)) = None
          then error_at (''unrecognised field '' @ quoted (lx_str lx) @ '', possible fields: '' @
                 join_with '', '' (map quoted (allFields (p_query p1)))) lx
          else
            let p = p1\<lparr>currentClause := (currentClause p1)\<lparr>o_fields := Some [lx_str lx]\<rparr>\<rparr> in
            (case peekLexeme p of
               None \<Rightarrow> error_at ''expecting term, found nothing'' lx
             | Some nx \<Rightarrow>
                 (case lx_type nx of
                    LX_TERM \<Rightarrow> Inr (Some ParseTerm, p)
                  | ty \<Rightarrow> error_at (''expecting term, found '' @ quoted (type_name ty)) nx)))"

text \<open>How \<open>parseTerm\<close>, \<open>parseEditDistance\<close> and \<open>parseBoost\<close> go on: the clause ends unless a modifier
  follows.\<close>
definition after_term :: "parser \<Rightarrow> parse_result" where
  "after_term p =
     (case peekLexeme p of
        None \<Rightarrow> Inr (None, nextClause p)
      | Some nx \<Rightarrow>
          (case lx_type nx of
             LX_TERM \<Rightarrow> Inr (Some ParseTerm, nextClause p)
           | LX_FIELD \<Rightarrow> Inr (Some ParseField, nextClause p)
           | LX_EDIT_DISTANCE \<Rightarrow> Inr (Some ParseEditDistance, p)
           | LX_BOOST \<Rightarrow> Inr (Some ParseBoost, p)
           | LX_PRESENCE \<Rightarrow> Inr (Some ParsePresence, nextClause p)))"

definition parseTerm :: "parser \<Rightarrow> parse_result" where
  "parseTerm p0 =
     (let (lxo, p1) = consumeLexeme p0 in
      case lxo of
        None \<Rightarrow> Inr (None, p1)
      | Some lx \<Rightarrow>
          let c = (currentClause p1)\<lparr>o_term := toLowerCase (lx_str lx)\<rparr>;
              c' = (if index_of (CHR ''*'') (lx_str lx) \<noteq> None then c\<lparr>o_usePipeline := Some False\<rparr> else c)
          in after_term (p1\<lparr>currentClause := c'\<rparr>))"

text \<open>\<open>parseInt(s, 10)\<close> on a text of digits: \<open>NaN\<close>, here \<open>None\<close>, when it is empty.\<close>
definition parseInt :: "string \<Rightarrow> nat option" where
  "parseInt s = (let ds = takeWhile is_digit s in if ds = [] then None else Some (read_nat ds))"

definition parseEditDistance :: "parser \<Rightarrow> parse_result" where
  "parseEditDistance p0 =
     (let (lxo, p1) = consumeLexeme p0 in
      case lxo of
        None \<Rightarrow> Inr (None, p1)
      | Some lx \<Rightarrow>
          (case parseInt (lx_str lx) of
             None \<Rightarrow> error_at ''edit distance must be numeric'' lx
           | Some n \<Rightarrow> after_term (p1\<lparr>currentClause := (currentClause p1)\<lparr>o_editDistance := Some n\<rparr>\<rparr>)))"

definition parseBoost :: "parser \<Rightarrow> parse_result" where
  "parseBoost p0 =
     (let (lxo, p1) = consumeLexeme p0 in
      case lxo of
        None \<Rightarrow> Inr (None, p1)
      | Some lx \<Rightarrow>
          (case parseInt (lx_str lx) of
             None \<Rightarrow> error_at ''boost must be numeric'' lx
           | Some n \<Rightarrow> after_term (p1\<lparr>currentClause := (currentClause p1)\<lparr>o_boost := Some (of_nat n)\<rparr>\<rparr>)))"

fun parse_step :: "parse_state \<Rightarrow> parser \<Rightarrow> parse_result" where
  "parse_step ParseClause = parseClause"
| "parse_step ParsePresence = parsePresence"
| "parse_step ParseField = parseField"
| "parse_step ParseTerm = parseTerm"
| "parse_step ParseEditDistance = parseEditDistance"
| "parse_step ParseBoost = parseBoost"

partial_function (option) parse_loop :: "parse_state \<Rightarrow> parser \<Rightarrow> (parse_error + parser) option" where
  "parse_loop st p =
     (case parse_step st p of
        Inl e \<Rightarrow> Some (Inl e)
      | Inr (None, p') \<Rightarrow> Some (Inr p')
      | Inr (Some st', p') \<Rightarrow> parse_loop st' p')"

declare parse_loop.simps [code]

text \<open>\<open>new lunr.QueryParser(s, query).parse()\<close>: the query with the clauses added, or the error; the outer
  \<open>None\<close> is a run that never ends.\<close>
definition QueryParser_parse :: "(char \<Rightarrow> bool) \<Rightarrow> string \<Rightarrow> query \<Rightarrow> (parse_error + query) option" where
  "QueryParser_parse sep s q =
     (case lexer_run sep (new_QueryLexer s) of
        None \<Rightarrow> None
      | Some l \<Rightarrow>
          map_option (\<lambda>r. case r of Inl e \<Rightarrow> Inl e | Inr p \<Rightarrow> Inr (p_query p))
            (parse_loop ParseClause
              \<lparr>p_lexemes = lexemes l, lexemeIdx = 0, p_query = q, currentClause = no_opts\<rparr>))"

section \<open>What the lexer computes\<close>

text \<open>The specification: lexing the text that is left, without places.  \<open>pend\<close> says that a lexeme has been
  begun and \<open>cur\<close> is its text so far, the escapes removed.\<close>
function lex_spec :: "(char \<Rightarrow> bool) \<Rightarrow> bool \<Rightarrow> string \<Rightarrow> string \<Rightarrow> (lex_type \<times> string) list" where
  "lex_spec sep pend cur [] = (if pend then [(LX_TERM, cur)] else [])"
| "lex_spec sep pend cur (c # s) =
     (if of_char c = (92 :: nat) then lex_spec sep True (cur @ take 1 s) (drop 1 s)
      else if c = CHR '':'' then (LX_FIELD, cur) # lex_spec sep False [] s
      else if c = CHR 126 then
        (if pend then [(LX_TERM, cur)] else []) @
        (LX_EDIT_DISTANCE, takeWhile is_digit s) # lex_spec sep False [] (dropWhile is_digit s)
      else if c = CHR ''^'' then
        (if pend then [(LX_TERM, cur)] else []) @
        (LX_BOOST, takeWhile is_digit s) # lex_spec sep False [] (dropWhile is_digit s)
      else if (c = CHR ''+'' \<or> c = CHR ''-'') \<and> \<not> pend then (LX_PRESENCE, [c]) # lex_spec sep False [] s
      else if sep c then (if pend then [(LX_TERM, cur)] else []) @ lex_spec sep False [] s
      else lex_spec sep True (cur @ [c]) s)"
  by pat_completeness auto
termination
  by (relation "measure (\<lambda>(sep, pend, cur, s). length s)") (auto simp: le_imp_less_Suc length_dropWhile_le)

definition tag :: "lexeme \<Rightarrow> lex_type \<times> string" where
  "tag lx = (lx_type lx, lx_str lx)"

definition placed :: "nat \<Rightarrow> lexeme \<Rightarrow> bool" where
  "placed n lx \<longleftrightarrow> lx_start lx \<le> lx_end lx \<and> lx_end lx \<le> n + 1"

text \<open>Where the current slice begins.\<close>
definition slice_from :: "lexer \<Rightarrow> nat" where
  "slice_from l = (if escapeCharPositions l = [] then start l else last (escapeCharPositions l) + 1)"

text \<open>The text of the lexeme begun.\<close>
definition pending :: "lexer \<Rightarrow> string" where
  "pending l = concat (sub_slices (text_str l) (start l) (escapeCharPositions l) (pos l))"

definition lexer_ok :: "lexer \<Rightarrow> bool" where
  "lexer_ok l \<longleftrightarrow> start l \<le> pos l \<and> slice_from l \<le> pos l \<and> pos l \<le> length (text_str l) + 1 \<and>
     (escapeCharPositions l \<noteq> [] \<longrightarrow> start l + 2 \<le> pos l) \<and>
     list_all (placed (length (text_str l))) (lexemes l)"

lemma slice_Suc: "a \<le> p \<Longrightarrow> p < length s \<Longrightarrow> slice s a (Suc p) = slice s a p @ [s ! p]"
  by (simp add: slice_def Suc_diff_le take_Suc_conv_app_nth)

lemma slice_refl [simp]: "slice s a a = []"
  by (simp add: slice_def)

lemma sub_slices_Suc:
  "(if es = [] then a else last es + 1) \<le> p \<Longrightarrow> p < length s \<Longrightarrow>
     concat (sub_slices s a es (Suc p)) = concat (sub_slices s a es p) @ [s ! p]"
  by (induction es arbitrary: a) (auto simp: slice_Suc split: if_splits)

lemma sub_slices_snoc:
  "concat (sub_slices s a (es @ [e]) p) = concat (sub_slices s a es e) @ slice s (e + 1) p"
  by (induction es arbitrary: a) auto

lemma pending_start: "escapeCharPositions l = [] \<Longrightarrow> start l = pos l \<Longrightarrow> pending l = []"
  by (simp add: pending_def)

lemma emit_eq:
  "emit ty l = l\<lparr>lexemes := lexemes l @ [\<lparr>lx_type = ty, lx_str = pending l, lx_start = start l, lx_end = pos l\<rparr>],
     start := pos l, escapeCharPositions := []\<rparr>"
  by (simp add: emit_def sliceString_def pending_def)

lemma lexer_ok_emit: "lexer_ok l \<Longrightarrow> lexer_ok (emit ty l)"
  by (auto simp: lexer_ok_def emit_eq slice_from_def placed_def)

lemma acceptDigitRun_eq:
  "pos l \<le> length (text_str l) \<Longrightarrow>
     acceptDigitRun l = l\<lparr>pos := pos l + length (takeWhile is_digit (drop (pos l) (text_str l)))\<rparr>"
proof (induction l rule: acceptDigitRun.induct)
  case (1 l)
  show ?case
  proof (cases "pos l < length (text_str l)")
    case True
    then have "drop (pos l) (text_str l) = text_str l ! pos l # drop (Suc (pos l)) (text_str l)"
      by (simp add: Cons_nth_drop_Suc)
    moreover have "next_char l = (Some (text_str l ! pos l), l\<lparr>pos := pos l + 1\<rparr>)"
      using True by (simp add: next_char_def)
    ultimately show ?thesis
      using 1 True by (subst acceptDigitRun.simps) (auto simp: backup_def)
  next
    case False
    then show ?thesis by (subst acceptDigitRun.simps) (simp add: next_char_def)
  qed
qed

text \<open>One step of the driver.\<close>
lemma lex_loop_LexText: "lexText sep l = (Some st, l') \<Longrightarrow> lex_loop sep LexText l = lex_loop sep st l'"
  by (subst lex_loop.simps) simp

lemma lex_loop_same: "lexText sep l = lexText sep l' \<Longrightarrow> lex_loop sep LexText l = lex_loop sep LexText l'"
  by (simp add: lex_loop.simps [of sep LexText])

lemma lexText_char:
  assumes "pos l < length (text_str l)" "c = text_str l ! pos l" "l' = l\<lparr>pos := pos l + 1\<rparr>" "start l \<le> pos l"
  shows "lexText sep l =
     (if of_char c = (92 :: nat) then lexText sep (escapeCharacter l')
      else if c = CHR '':'' then (Some LexField, l')
      else if c = CHR 126 then (Some LexEditDistance, emit_pending l)
      else if c = CHR ''^'' then (Some LexBoost, emit_pending l)
      else if (c = CHR ''+'' \<or> c = CHR ''-'') \<and> start l = pos l then (Some LexText, emit LX_PRESENCE l')
      else if sep c then (Some LexTerm, l')
      else lexText sep l')"
proof -
  have "width l' = 1 \<longleftrightarrow> start l = pos l" using assms(4) by (auto simp: width_def assms(3))
  moreover have "backup l' = l" by (simp add: backup_def assms(3))
  ultimately show ?thesis
    using assms by (subst lexText.simps) (simp add: next_char_def)
qed

lemma lexText_end: "length (text_str l) \<le> pos l \<Longrightarrow> lexText sep l = (Some LexEOS, l)"
  by (subst lexText.simps) (simp add: next_char_def)

lemma emit_pending_eq:
  "lexer_ok l \<Longrightarrow> emit_pending l = l\<lparr>lexemes := lexemes (emit_pending l), start := pos l, escapeCharPositions := []\<rparr> \<and>
     map tag (lexemes (emit_pending l)) =
       map tag (lexemes l) @ (if start l < pos l then [(LX_TERM, pending l)] else [])"
  by (cases l) (auto simp: emit_pending_def width_def emit_eq tag_def lexer_ok_def)

lemma lexer_ok_emit_pending: "lexer_ok l \<Longrightarrow> lexer_ok (emit_pending l)"
  by (simp add: emit_pending_def lexer_ok_emit)

text \<open>Running on from \<open>l\<close> ends and adds lexemes with the given types and texts.\<close>
definition lexes :: "(char \<Rightarrow> bool) \<Rightarrow> lexer \<Rightarrow> (lex_type \<times> string) list \<Rightarrow> bool" where
  "lexes sep l out \<longleftrightarrow> (\<exists>l'. lex_loop sep LexText l = Some l' \<and> lexer_ok l' \<and> text_str l' = text_str l \<and>
     map tag (lexemes l') = map tag (lexemes l) @ out)"

lemma lexes_via:
  assumes "lex_loop sep LexText l = lex_loop sep LexText l2" "text_str l2 = text_str l"
    "map tag (lexemes l2) = map tag (lexemes l) @ o1" "lexes sep l2 o2"
  shows "lexes sep l (o1 @ o2)"
  using assms by (auto simp: lexes_def)

text \<open>A lexer between two lexemes.\<close>
definition fresh :: "lexer \<Rightarrow> bool" where
  "fresh l \<longleftrightarrow> start l = pos l \<and> escapeCharPositions l = []"

lemma fresh_pending: "fresh l \<Longrightarrow> pending l = [] \<and> \<not> start l < pos l"
  by (simp add: fresh_def pending_start)

text \<open>The step over a field name, a modifier or a separator ends between two lexemes again.\<close>
lemma lex_loop_field:
  assumes "lexer_ok l" "pos l < length (text_str l)"
  shows "\<exists>l2. lex_loop sep LexField (l\<lparr>pos := pos l + 1\<rparr>) = lex_loop sep LexText l2 \<and> lexer_ok l2 \<and> fresh l2 \<and>
    text_str l2 = text_str l \<and> pos l2 = pos l + 1 \<and> map tag (lexemes l2) = map tag (lexemes l) @ [(LX_FIELD, pending l)]"
  using assms lexer_ok_emit [OF assms(1), of LX_FIELD]
  by (intro exI [of _ "ignore (emit LX_FIELD l)"], subst lex_loop.simps)
    (simp add: lexField_def backup_def emit_eq ignore_def Let_def lexer_ok_def fresh_def slice_from_def tag_def)

lemma lex_loop_modifier:
  assumes "lexer_ok l" "pos l < length (text_str l)"
    and "(st, ty) = (LexEditDistance, LX_EDIT_DISTANCE) \<or> (st, ty) = (LexBoost, LX_BOOST)"
  shows "\<exists>l2. lex_loop sep st (emit_pending l) = lex_loop sep LexText l2 \<and> lexer_ok l2 \<and> fresh l2 \<and>
    text_str l2 = text_str l \<and> pos l < pos l2 \<and>
    drop (pos l2) (text_str l) = dropWhile is_digit (drop (pos l + 1) (text_str l)) \<and>
    map tag (lexemes l2) = map tag (lexemes l) @ (if start l < pos l then [(LX_TERM, pending l)] else []) @
      [(ty, takeWhile is_digit (drop (pos l + 1) (text_str l)))]"
proof -
  let ?ds = "takeWhile is_digit (drop (pos l + 1) (text_str l))"
  let ?e = "emit_pending l"
  define l1 where "l1 = acceptDigitRun (ignore ?e)"
  have e: "?e = l\<lparr>lexemes := lexemes ?e, start := pos l, escapeCharPositions := []\<rparr>"
    "map tag (lexemes ?e) = map tag (lexemes l) @ (if start l < pos l then [(LX_TERM, pending l)] else [])"
    using emit_pending_eq [OF assms(1)] by blast+
  have fields: "start ?e = pos l" "pos ?e = pos l" "text_str ?e = text_str l" "escapeCharPositions ?e = []"
    by (subst e, simp)+
  then have l1: "l1 = ?e\<lparr>pos := pos l + 1 + length ?ds, start := pos l + 1\<rparr>"
    using assms(2) by (simp add: l1_def ignore_def Let_def acceptDigitRun_eq)
  have len: "length ?ds \<le> length (text_str l) - (pos l + 1)"
    by (metis length_drop length_takeWhile_le)
  then have "lexer_ok l1"
    using lexer_ok_emit_pending [OF assms(1)] fields assms(2) by (auto simp: l1 lexer_ok_def slice_from_def)
  then have "lexer_ok (emit ty l1)" by (rule lexer_ok_emit)
  moreover have "lex_loop sep st ?e = lex_loop sep LexText (emit ty l1)"
    using assms(3) by (subst lex_loop.simps) (auto simp: lexEditDistance_def lexBoost_def l1_def)
  moreover have "pending l1 = ?ds"
    using fields by (simp add: pending_def l1 slice_def) (metis takeWhile_eq_take)
  moreover have "drop (pos l1) (text_str l) = dropWhile is_digit (drop (pos l + 1) (text_str l))"
    by (simp add: l1 dropWhile_eq_drop add.commute)
  ultimately show ?thesis
    using e(2) fields by (intro exI [of _ "emit ty l1"]) (auto simp: emit_eq l1 tag_def fresh_def)
qed

lemma lex_loop_separator:
  assumes "lexer_ok l" "pos l < length (text_str l)"
  shows "\<exists>l2. lex_loop sep LexTerm (l\<lparr>pos := pos l + 1\<rparr>) =
      (if pos l2 < length (text_str l) then lex_loop sep LexText l2 else Some l2) \<and>
    lexer_ok l2 \<and> fresh l2 \<and> text_str l2 = text_str l \<and> pos l2 = pos l + 1 \<and>
    map tag (lexemes l2) = map tag (lexemes l) @ (if start l < pos l then [(LX_TERM, pending l)] else [])"
proof -
  let ?e = "emit_pending l"
  let ?l2 = "?e\<lparr>pos := pos l + 1, start := pos l + 1\<rparr>"
  have e: "?e = l\<lparr>lexemes := lexemes ?e, start := pos l, escapeCharPositions := []\<rparr>"
    "map tag (lexemes ?e) = map tag (lexemes l) @ (if start l < pos l then [(LX_TERM, pending l)] else [])"
    using emit_pending_eq [OF assms(1)] by blast+
  have fields: "start ?e = pos l" "pos ?e = pos l" "text_str ?e = text_str l" "escapeCharPositions ?e = []"
    by (subst e, simp)+
  have "lexTerm (l\<lparr>pos := pos l + 1\<rparr>) = (if pos ?l2 < length (text_str l) then Some LexText else None, ?l2)"
  proof (cases "start l < pos l")
    case True
    then have "1 < width (l\<lparr>pos := pos l + 1\<rparr>)" "?e = emit LX_TERM l"
      by (simp_all add: width_def emit_pending_def)
    then show ?thesis
      using fields by (simp add: lexTerm_def Let_def backup_def ignore_def more_text_def)
  next
    case False
    then have "start l = pos l" "?e = l" using assms(1) by (auto simp: width_def emit_pending_def lexer_ok_def)
    then show ?thesis by (simp add: lexTerm_def Let_def ignore_def more_text_def width_def)
  qed
  moreover have "lexer_ok ?l2"
    using lexer_ok_emit_pending [OF assms(1)] fields assms(2) by (auto simp: lexer_ok_def slice_from_def)
  ultimately show ?thesis
    using e(2) fields by (intro exI [of _ ?l2], subst lex_loop.simps) (auto simp: fresh_def)
qed

lemma lexes_end: "lexer_ok l \<Longrightarrow> length (text_str l) \<le> pos l \<Longrightarrow>
    lexes sep l (lex_spec sep (start l < pos l) (pending l) [])"
proof -
  assume l: "lexer_ok l" "length (text_str l) \<le> pos l"
  have "lex_loop sep LexText l = lex_loop sep LexEOS l"
    by (rule lex_loop_LexText [OF lexText_end [OF l(2)]])
  also have "\<dots> = Some (emit_pending l)"
    by (subst lex_loop.simps) (simp add: lexEOS_def emit_pending_def)
  finally show ?thesis
    using lexer_ok_emit_pending [OF l(1)] emit_pending_eq [OF l(1)]
    by (auto simp: lexes_def emit_pending_def emit_eq)
qed

lemma lexer_ok_char: "lexer_ok l \<Longrightarrow> pos l < length (text_str l) \<Longrightarrow> lexer_ok (l\<lparr>pos := pos l + 1\<rparr>)"
  by (auto simp: lexer_ok_def slice_from_def)

lemma pending_char: "lexer_ok l \<Longrightarrow> pos l < length (text_str l) \<Longrightarrow>
    pending (l\<lparr>pos := pos l + 1\<rparr>) = pending l @ [text_str l ! pos l]"
  by (simp add: pending_def lexer_ok_def slice_from_def sub_slices_Suc)

lemma escape_char:
  assumes "lexer_ok l" "pos l < length (text_str l)" "l2 = escapeCharacter (l\<lparr>pos := pos l + 1\<rparr>)"
  shows "lexer_ok l2" "pos l2 = pos l + 2" "start l2 = start l" "text_str l2 = text_str l" "lexemes l2 = lexemes l"
    "pending l2 = pending l @ take 1 (drop (pos l + 1) (text_str l))"
  using assms(1,2)
  by (auto simp: assms(3) escapeCharacter_def lexer_ok_def slice_from_def pending_def sub_slices_snoc slice_def)

lemma lex_refines:
  "lexer_ok l \<Longrightarrow> lexes sep l (lex_spec sep (start l < pos l) (pending l) (drop (pos l) (text_str l)))"
proof (induction "length (text_str l) + 1 - pos l" arbitrary: l rule: less_induct)
  case less
  show ?case
  proof (cases "pos l < length (text_str l)")
    case False
    then show ?thesis using lexes_end [OF less.prems, of sep] by simp
  next
    case True
    define c where "c = text_str l ! pos l"
    define l' where "l' = l\<lparr>pos := pos l + 1\<rparr>"
    let ?r = "drop (pos l + 1) (text_str l)"
    have rest: "drop (pos l) (text_str l) = c # ?r" using True by (simp add: c_def Cons_nth_drop_Suc)
    have IH: "lexes sep m (lex_spec sep (start m < pos m) (pending m) (drop (pos m) (text_str m)))"
      if "lexer_ok m" "text_str m = text_str l" "pos l < pos m" for m
      using that True by (intro less.hyps) auto
    have IH_fresh: "lexes sep m (lex_spec sep False [] (drop (pos m) (text_str l)))"
      if "lexer_ok m" "fresh m" "text_str m = text_str l" "pos l < pos m" for m
      using IH [OF that(1,3,4)] fresh_pending [OF that(2)] that(3) by simp
    note char = lexText_char [OF True c_def l'_def, of sep]
    have "start l \<le> pos l" using less.prems by (simp add: lexer_ok_def)
    note char = char [OF this]
    consider (esc) "of_char c = (92 :: nat)" | (field) "c = CHR '':''" | (edit) "c = CHR 126" | (boost) "c = CHR ''^''"
      | (presence) "c = CHR ''+'' \<or> c = CHR ''-''" "start l = pos l"
      | (sep) "of_char c \<noteq> (92 :: nat)" "c \<noteq> CHR '':''" "c \<noteq> CHR 126" "c \<noteq> CHR ''^''"
          "\<not> ((c = CHR ''+'' \<or> c = CHR ''-'') \<and> start l = pos l)" "sep c"
      | (plain) "of_char c \<noteq> (92 :: nat)" "c \<noteq> CHR '':''" "c \<noteq> CHR 126" "c \<noteq> CHR ''^''"
          "\<not> ((c = CHR ''+'' \<or> c = CHR ''-'') \<and> start l = pos l)" "\<not> sep c"
      by blast
    then show ?thesis
    proof cases
      case esc
      note e = escape_char [OF less.prems True refl]
      have "lex_loop sep LexText l = lex_loop sep LexText (escapeCharacter l')"
        using esc char by (intro lex_loop_same) simp
      moreover have "lexes sep (escapeCharacter l') (lex_spec sep True (pending l @ take 1 ?r) (drop (pos l + 2) (text_str l)))"
        using IH [OF e(1)] e(2-4,6) \<open>start l \<le> pos l\<close> by (simp add: l'_def)
      ultimately have "lexes sep l (lex_spec sep True (pending l @ take 1 ?r) (drop (pos l + 2) (text_str l)))"
        using lexes_via [of sep l "escapeCharacter l'" "[]"] e(4,5) by (simp add: l'_def)
      then show ?thesis using esc by (simp add: rest)
    next
      case field
      obtain l2 where l2: "lex_loop sep LexField l' = lex_loop sep LexText l2" "lexer_ok l2" "fresh l2"
          "text_str l2 = text_str l" "pos l2 = pos l + 1"
          "map tag (lexemes l2) = map tag (lexemes l) @ [(LX_FIELD, pending l)]"
        using lex_loop_field [OF less.prems True, of sep] by (auto simp: l'_def)
      have "lex_loop sep LexText l = lex_loop sep LexText l2"
        using lex_loop_LexText [of sep l] char field l2(1) by simp
      from lexes_via [OF this l2(4,6) IH_fresh [OF l2(2-4)]] show ?thesis
        by (simp add: rest field l2(5))
    next
      case edit
      obtain l2 where l2: "lex_loop sep LexEditDistance (emit_pending l) = lex_loop sep LexText l2" "lexer_ok l2"
          "fresh l2" "text_str l2 = text_str l" "pos l < pos l2"
          "drop (pos l2) (text_str l) = dropWhile is_digit ?r"
          "map tag (lexemes l2) = map tag (lexemes l) @ (if start l < pos l then [(LX_TERM, pending l)] else []) @
            [(LX_EDIT_DISTANCE, takeWhile is_digit ?r)]"
        using lex_loop_modifier [OF less.prems True, of LexEditDistance LX_EDIT_DISTANCE sep] by blast
      have "lex_loop sep LexText l = lex_loop sep LexText l2"
        using lex_loop_LexText [of sep l] char edit l2(1) by simp
      from lexes_via [OF this l2(4,7) IH_fresh [OF l2(2-5)]] show ?thesis
        by (simp add: rest edit l2(6))
    next
      case boost
      obtain l2 where l2: "lex_loop sep LexBoost (emit_pending l) = lex_loop sep LexText l2" "lexer_ok l2"
          "fresh l2" "text_str l2 = text_str l" "pos l < pos l2"
          "drop (pos l2) (text_str l) = dropWhile is_digit ?r"
          "map tag (lexemes l2) = map tag (lexemes l) @ (if start l < pos l then [(LX_TERM, pending l)] else []) @
            [(LX_BOOST, takeWhile is_digit ?r)]"
        using lex_loop_modifier [OF less.prems True, of LexBoost LX_BOOST sep] by blast
      have "lex_loop sep LexText l = lex_loop sep LexText l2"
        using lex_loop_LexText [of sep l] char boost l2(1) by simp
      from lexes_via [OF this l2(4,7) IH_fresh [OF l2(2-5)]] show ?thesis
        by (simp add: rest boost l2(6))
    next
      case presence
      have fr: "fresh l" using presence(2) less.prems by (auto simp: fresh_def lexer_ok_def)
      let ?l2 = "emit LX_PRESENCE l'"
      have ok: "lexer_ok ?l2" using lexer_ok_emit lexer_ok_char [OF less.prems True] by (simp add: l'_def)
      have "lex_loop sep LexText l = lex_loop sep LexText ?l2"
        using lex_loop_LexText [of sep l] char presence by auto
      moreover have "fresh ?l2" "text_str ?l2 = text_str l" "pos ?l2 = pos l + 1"
        "map tag (lexemes ?l2) = map tag (lexemes l) @ [(LX_PRESENCE, [c])]"
        using pending_char [OF less.prems True] fresh_pending [OF fr]
        by (simp_all add: emit_eq fresh_def l'_def tag_def c_def)
      ultimately have "lexes sep l ([(LX_PRESENCE, [c])] @ lex_spec sep False [] ?r)"
        using IH_fresh [OF ok] by (intro lexes_via [of sep l ?l2]) simp_all
      then show ?thesis using presence by (auto simp: rest)
    next
      case sep
      obtain l2 where l2: "lex_loop sep LexTerm l' =
            (if pos l2 < length (text_str l) then lex_loop sep LexText l2 else Some l2)"
          "lexer_ok l2" "fresh l2" "text_str l2 = text_str l" "pos l2 = pos l + 1"
          "map tag (lexemes l2) = map tag (lexemes l) @ (if start l < pos l then [(LX_TERM, pending l)] else [])"
        using lex_loop_separator [OF less.prems True, of sep] by (auto simp: l'_def)
      have "lex_loop sep LexText l = lex_loop sep LexTerm l'"
        using char sep by (intro lex_loop_LexText) auto
      then have "lexes sep l ((if start l < pos l then [(LX_TERM, pending l)] else []) @ lex_spec sep False [] ?r)"
      proof (cases "pos l2 < length (text_str l)")
        case True
        then show ?thesis
          using lexes_via [OF _ l2(4,6) IH_fresh [OF l2(2-4)]] l2(1,5) \<open>lex_loop sep LexText l = _\<close> by simp
      qed (use l2 \<open>lex_loop sep LexText l = _\<close> in \<open>auto simp: lexes_def\<close>)
      then show ?thesis using sep \<open>start l \<le> pos l\<close> by (auto simp: rest)
    next
      case plain
      have "lex_loop sep LexText l = lex_loop sep LexText l'"
        using char plain by (intro lex_loop_same) auto
      moreover have "lexes sep l' (lex_spec sep True (pending l @ [c]) ?r)"
        using IH [OF lexer_ok_char [OF less.prems True]] pending_char [OF less.prems True] \<open>start l \<le> pos l\<close>
        by (simp add: l'_def c_def)
      ultimately have "lexes sep l (lex_spec sep True (pending l @ [c]) ?r)"
        using lexes_via [of sep l l' "[]"] by (simp add: l'_def)
      then show ?thesis using plain \<open>start l \<le> pos l\<close> by (auto simp: rest)
    qed
  qed
qed

lemma new_QueryLexer_ok: "lexer_ok (new_QueryLexer s)" "fresh (new_QueryLexer s)" "text_str (new_QueryLexer s) = s"
  by (simp_all add: new_QueryLexer_def lexer_ok_def slice_from_def fresh_def)

lemma lexer_meets_spec:
  "\<exists>l. lexer_run sep (new_QueryLexer s) = Some l \<and> map tag (lexemes l) = lex_spec sep False [] s \<and>
     list_all (placed (length s)) (lexemes l)"
proof -
  have "lexes sep (new_QueryLexer s) (lex_spec sep False [] s)"
    using lex_refines [OF new_QueryLexer_ok(1) [of s], of sep] fresh_pending [OF new_QueryLexer_ok(2) [of s]]
      new_QueryLexer_ok(3) [of s] by (simp add: new_QueryLexer_def)
  then show ?thesis
    by (auto simp: lexes_def lexer_run_def new_QueryLexer_def lexer_ok_def)
qed

text \<open>C28. On every text the lexer returns, and its lexemes are, type and text, what lexing the remaining text
  letter by letter gives: its bookkeeping of places, of the width of the lexeme and of escaped characters
  implements that specification.  Every lexeme ends at most one place after the text (an escape character
  at the very end).\<close>
theorem lexer_refines_spec:
  "\<exists>l. lexer_run sep (new_QueryLexer s) = Some l \<and> map tag (lexemes l) = lex_spec sep False [] s \<and>
     list_all (placed (length s)) (lexemes l)"
  by (rule lexer_meets_spec)

section \<open>What the parser accepts\<close>

lemma to_lower_idem [simp]: "toLowerCase (toLowerCase s) = toLowerCase s"
proof -
  have "to_lower_char (to_lower_char c) = to_lower_char c" for c
    by (auto simp: to_lower_char_def Let_def of_char_of take_bit_eq_mod)
  then show ?thesis by (simp add: toLowerCase_def)
qed

lemma to_lower_star: "to_lower_char c = CHR ''*'' \<longleftrightarrow> c = CHR ''*''"
proof -
  have "(of_char (to_lower_char c) :: nat) = 42 \<longleftrightarrow> (of_char c :: nat) = 42"
    by (auto simp: to_lower_char_def Let_def of_char_of take_bit_eq_mod)
  moreover have "(of_char (CHR ''*'') :: nat) = 42" by simp
  ultimately show ?thesis by (metis of_char_eq_iff)
qed

lemma star_in_lower [simp]: "CHR ''*'' \<in> set (toLowerCase s) \<longleftrightarrow> CHR ''*'' \<in> set s"
proof -
  have "CHR ''*'' = to_lower_char c \<longleftrightarrow> c = CHR ''*''" for c using to_lower_star [of c] by metis
  then show ?thesis by (simp only: toLowerCase_def set_map image_iff) blast
qed

text \<open>A clause as the query language can give it: a lower case term, all fields or one of them, the
  pipeline switched off exactly for wildcards, a whole number as boost.\<close>
definition clause_ok :: "string list \<Rightarrow> clause \<Rightarrow> bool" where
  "clause_ok flds c \<longleftrightarrow> toLowerCase (c_term c) = c_term c \<and>
     (c_fields c = flds \<or> (\<exists>f \<in> set flds. c_fields c = [f])) \<and>
     (c_usePipeline c \<longleftrightarrow> CHR ''*'' \<notin> set (c_term c)) \<and> c_wildcard c = wildcard_NONE \<and> c_boost c \<in> \<nat>"

definition opts_ok :: "string list \<Rightarrow> clause_opts \<Rightarrow> bool" where
  "opts_ok flds c \<longleftrightarrow> o_wildcard c = None \<and> (o_fields c = None \<or> (\<exists>f \<in> set flds. o_fields c = Some [f])) \<and>
     (o_boost c = None \<or> (\<exists>n. o_boost c = Some (of_nat n)))"

definition term_done :: "clause_opts \<Rightarrow> bool" where
  "term_done c \<longleftrightarrow> toLowerCase (o_term c) = o_term c \<and>
     o_usePipeline c = (if CHR ''*'' \<in> set (o_term c) then Some False else None)"

definition parser_ok :: "string list \<Rightarrow> nat \<Rightarrow> parse_state \<Rightarrow> parser \<Rightarrow> bool" where
  "parser_ok flds n st p \<longleftrightarrow> allFields (p_query p) = flds \<and> list_all (clause_ok flds) (clauses (p_query p)) \<and>
     opts_ok flds (currentClause p) \<and> list_all (placed n) (p_lexemes p) \<and>
     (if st = ParseEditDistance \<or> st = ParseBoost then term_done (currentClause p)
      else o_usePipeline (currentClause p) = None)"

lemma nextClause_ok:
  assumes "allFields (p_query p) = flds" "list_all (clause_ok flds) (clauses (p_query p))"
    "opts_ok flds (currentClause p)" "term_done (currentClause p)"
  shows "allFields (p_query (nextClause p)) = flds" "list_all (clause_ok flds) (clauses (p_query (nextClause p)))"
    "opts_ok flds (currentClause (nextClause p))" "o_usePipeline (currentClause (nextClause p)) = None"
  using assms
  by (auto simp: nextClause_def Query_clause_def Let_def clause_ok_def opts_ok_def term_done_def no_opts_def dflt_def
      add_leading_def add_trailing_def wildcard_NONE_def split: if_splits option.splits)

lemma peekLexeme_ok: "list_all (placed n) (p_lexemes p) \<Longrightarrow> peekLexeme p = Some lx \<Longrightarrow> placed n lx"
  by (auto simp: peekLexeme_def list_all_iff split: if_splits)

lemma peekLexeme_upd [simp]:
  "peekLexeme (p\<lparr>currentClause := c\<rparr>) = peekLexeme p" "peekLexeme (p\<lparr>p_query := q\<rparr>) = peekLexeme p"
  by (simp_all add: peekLexeme_def)

text \<open>What a step of the parser may answer: an error at a lexeme, or a parser that has moved on.\<close>
definition step_ok :: "string list \<Rightarrow> nat \<Rightarrow> nat \<Rightarrow> lexeme list \<Rightarrow> parse_result \<Rightarrow> bool" where
  "step_ok flds n idx lxs r \<longleftrightarrow>
     (case r of
        Inl e \<Rightarrow> pe_start e \<le> pe_end e \<and> pe_end e \<le> n + 1
      | Inr (sto, p) \<Rightarrow> p_lexemes p = lxs \<and> lexemeIdx p = idx \<and>
          (case sto of
             None \<Rightarrow> allFields (p_query p) = flds \<and> list_all (clause_ok flds) (clauses (p_query p))
           | Some st \<Rightarrow> st \<noteq> ParseClause \<and> parser_ok flds n st p))"

lemma error_at_ok: "placed n lx \<Longrightarrow> step_ok flds n idx lxs (error_at msg lx)"
  by (simp add: step_ok_def error_at_def placed_def)

lemma step_ok_go:
  "parser_ok flds n st p \<Longrightarrow> st \<noteq> ParseClause \<Longrightarrow> step_ok flds n (lexemeIdx p) (p_lexemes p) (Inr (Some st, p))"
  by (simp add: step_ok_def)

lemma after_term_ok:
  assumes "parser_ok flds n ParseBoost p"
  shows "step_ok flds n (lexemeIdx p) (p_lexemes p) (after_term p)"
proof -
  have ok: "allFields (p_query p) = flds" "list_all (clause_ok flds) (clauses (p_query p))"
    "opts_ok flds (currentClause p)" "term_done (currentClause p)" "list_all (placed n) (p_lexemes p)"
    using assms by (auto simp: parser_ok_def)
  note nc = nextClause_ok [OF ok(1-4)]
  have same: "p_lexemes (nextClause p) = p_lexemes p" "lexemeIdx (nextClause p) = lexemeIdx p"
    by (simp_all add: nextClause_def)
  show ?thesis
    using ok nc same
    by (auto simp: after_term_def step_ok_def parser_ok_def split: option.splits lex_type.splits)
qed

lemmas consume_simps = consumeLexeme_def Let_def prod.case

lemma parse_step_ok:
  assumes "parser_ok flds n st p" "st \<noteq> ParseClause"
  shows "step_ok flds n (lexemeIdx p + 1) (p_lexemes p) (parse_step st p)"
proof (cases "peekLexeme p")
  case None
  then show ?thesis
    using assms by (cases st) (auto simp: consume_simps step_ok_def parser_ok_def
        parsePresence_def parseField_def parseTerm_def parseEditDistance_def parseBoost_def)
next
  case (Some lx)
  have ok: "allFields (p_query p) = flds" "list_all (clause_ok flds) (clauses (p_query p))"
    "opts_ok flds (currentClause p)" "list_all (placed n) (p_lexemes p)"
    using assms by (auto simp: parser_ok_def)
  have lx: "placed n lx" by (rule peekLexeme_ok [OF ok(4) Some])
  let ?p = "p\<lparr>lexemeIdx := lexemeIdx p + 1\<rparr>"
  have nx: "placed n lx'" if "peekLexeme ?p = Some lx'" for lx'
    using peekLexeme_ok [OF _ that] ok(4) by simp
  show ?thesis
  proof (cases st)
    case ParseClause
    then show ?thesis using assms(2) by simp
  next
    case ParsePresence
    have "parser_ok flds n st' (?p\<lparr>currentClause := (currentClause p)\<lparr>o_presence := Some x\<rparr>\<rparr>)"
      if "st' = ParseField \<or> st' = ParseTerm" for st' x
      using assms(1) ok that ParsePresence by (auto simp: parser_ok_def opts_ok_def)
    note go = step_ok_go [OF this]
    show ?thesis
      using lx nx go [of ParseField] go [of ParseTerm]
      by (auto simp: ParsePresence Some consume_simps parsePresence_def error_at_ok split: option.splits lex_type.splits)
  next
    case ParseField
    have "parser_ok flds n ParseTerm (?p\<lparr>currentClause := (currentClause p)\<lparr>o_fields := Some [lx_str lx]\<rparr>\<rparr>)"
      if "index_of (lx_str lx) flds \<noteq> None"
      using assms(1) ok that ParseField by (auto simp: parser_ok_def opts_ok_def)
    note go = step_ok_go [OF this]
    show ?thesis
      using lx nx go ok(1)
      by (auto simp: ParseField Some consume_simps parseField_def error_at_ok split: option.splits lex_type.splits)
  next
    case ParseTerm
    define c where "c = (let c = (currentClause p)\<lparr>o_term := toLowerCase (lx_str lx)\<rparr> in
      if index_of (CHR ''*'') (lx_str lx) \<noteq> None then c\<lparr>o_usePipeline := Some False\<rparr> else c)"
    have "parse_step st p = after_term (?p\<lparr>currentClause := c\<rparr>)"
      using ParseTerm Some by (simp add: consume_simps parseTerm_def c_def)
    moreover have "parser_ok flds n ParseBoost (?p\<lparr>currentClause := c\<rparr>)"
      using assms(1) ok ParseTerm by (auto simp: parser_ok_def opts_ok_def term_done_def c_def Let_def)
    ultimately show ?thesis using after_term_ok [of flds n "?p\<lparr>currentClause := c\<rparr>"] by simp
  next
    case ParseEditDistance
    have "parser_ok flds n ParseBoost (?p\<lparr>currentClause := (currentClause p)\<lparr>o_editDistance := Some k\<rparr>\<rparr>)" for k
      using assms(1) ok ParseEditDistance by (auto simp: parser_ok_def opts_ok_def term_done_def)
    from after_term_ok [OF this] show ?thesis
      using ParseEditDistance Some lx by (auto simp: consume_simps parseEditDistance_def error_at_ok split: option.splits)
  next
    case ParseBoost
    have "parser_ok flds n ParseBoost (?p\<lparr>currentClause := (currentClause p)\<lparr>o_boost := Some (of_nat k)\<rparr>\<rparr>)" for k
      using assms(1) ok ParseBoost by (auto simp: parser_ok_def opts_ok_def term_done_def)
    from after_term_ok [OF this] show ?thesis
      using ParseBoost Some lx by (auto simp: consume_simps parseBoost_def error_at_ok split: option.splits)
  qed
qed

text \<open>What a run of the parser may answer.\<close>
definition answer_ok :: "string list \<Rightarrow> nat \<Rightarrow> parse_error + query \<Rightarrow> bool" where
  "answer_ok flds n r \<longleftrightarrow>
     (case r of
        Inl e \<Rightarrow> pe_start e \<le> pe_end e \<and> pe_end e \<le> n + 1
      | Inr q \<Rightarrow> allFields q = flds \<and> list_all (clause_ok flds) (clauses q))"

lemma parse_loop_ok:
  "parser_ok flds n st p \<Longrightarrow> st \<noteq> ParseClause \<Longrightarrow>
     \<exists>r. parse_loop st p = Some r \<and> answer_ok flds n (map_sum id p_query r)"
proof (induction "length (p_lexemes p) + 1 - lexemeIdx p" arbitrary: st p rule: less_induct)
  case less
  note ok = parse_step_ok [OF less.prems]
  show ?case
  proof (cases "parse_step st p")
    case (Inl e)
    then show ?thesis using ok by (subst parse_loop.simps) (simp add: step_ok_def answer_ok_def)
  next
    case (Inr r)
    obtain sto p' where r: "r = (sto, p')" by fastforce
    show ?thesis
    proof (cases sto)
      case None
      then show ?thesis using ok Inr r by (subst parse_loop.simps) (simp add: step_ok_def answer_ok_def)
    next
      case (Some st')
      have p': "p_lexemes p' = p_lexemes p" "lexemeIdx p' = lexemeIdx p + 1" "st' \<noteq> ParseClause" "parser_ok flds n st' p'"
        using ok Inr r Some by (auto simp: step_ok_def)
      show ?thesis
      proof (cases "lexemeIdx p \<le> length (p_lexemes p)")
        case True
        then have "\<exists>r. parse_loop st' p' = Some r \<and> answer_ok flds n (map_sum id p_query r)"
          using p' by (intro less.hyps) auto
        then show ?thesis using Inr r Some by (subst parse_loop.simps) simp
      next
        case False
        then have "peekLexeme p = None" by (simp add: peekLexeme_def)
        then have "fst r = None"
          using Inr less.prems(2) by (cases st) (auto simp: consume_simps parsePresence_def parseField_def
              parseTerm_def parseEditDistance_def parseBoost_def)
        then show ?thesis using r Some by simp
      qed
    qed
  qed
qed

lemma parse_loop_start_ok:
  assumes "parser_ok flds n ParseClause p"
  shows "\<exists>r. parse_loop ParseClause p = Some r \<and> answer_ok flds n (map_sum id p_query r)"
proof (cases "peekLexeme p")
  case None
  then show ?thesis
    using assms by (subst parse_loop.simps) (simp add: parseClause_def parser_ok_def answer_ok_def)
next
  case (Some lx)
  have lx: "placed n lx" using assms peekLexeme_ok [OF _ Some] by (auto simp: parser_ok_def)
  have ok: "parser_ok flds n st p" if "st = ParsePresence \<or> st = ParseField \<or> st = ParseTerm" for st
    using assms that by (auto simp: parser_ok_def)
  show ?thesis
    using Some lx parse_loop_ok [OF ok [of ParsePresence]] parse_loop_ok [OF ok [of ParseField]]
      parse_loop_ok [OF ok [of ParseTerm]]
    by (subst parse_loop.simps)
      (auto simp: parseClause_def error_at_def answer_ok_def placed_def split: lex_type.splits)
qed

lemma parse_answers:
  "\<exists>r. QueryParser_parse sep s (new_Query flds) = Some r \<and> answer_ok flds (length s) r"
proof -
  obtain l where l: "lexer_run sep (new_QueryLexer s) = Some l" "list_all (placed (length s)) (lexemes l)"
    using lexer_meets_spec [of sep s] by blast
  let ?p = "\<lparr>p_lexemes = lexemes l, lexemeIdx = 0, p_query = new_Query flds, currentClause = no_opts\<rparr>"
  have "parser_ok flds (length s) ParseClause ?p"
    using l(2) by (simp add: parser_ok_def new_Query_def opts_ok_def no_opts_def)
  then obtain r where r: "parse_loop ParseClause ?p = Some r" "answer_ok flds (length s) (map_sum id p_query r)"
    using parse_loop_start_ok by blast
  moreover have "(case r of Inl e \<Rightarrow> Inl e | Inr p \<Rightarrow> Inr (p_query p)) = map_sum id p_query r"
    by (cases r) auto
  ultimately show ?thesis by (simp add: QueryParser_parse_def l(1))
qed

text \<open>C29. Parsing a query string always returns: either a parse error that points into the text, or a query
  all of whose clauses are well formed, with a lower case term, restricted to all fields of the index or to
  one of them, the pipeline off exactly for terms with a wildcard.\<close>
theorem parse_total_valid:
  "\<exists>r. QueryParser_parse sep s (new_Query flds) = Some r \<and> answer_ok flds (length s) r"
  by (rule parse_answers)

section \<open>Printing a query and reading it back\<close>

definition escape :: "string \<Rightarrow> string" where
  "escape w = concat (map (\<lambda>c. [CHR 92, c]) w)"

text \<open>The query text of a clause: presence, field unless all fields are meant, the term with every
  character escaped, edit distance and boost.\<close>
definition print_clause :: "string list \<Rightarrow> clause \<Rightarrow> string" where
  "print_clause flds c =
     (case c_presence c of OPTIONAL \<Rightarrow> '''' | REQUIRED \<Rightarrow> ''+'' | PROHIBITED \<Rightarrow> ''-'') @
     (if c_fields c = flds then '''' else escape (hd (c_fields c)) @ '':'') @
     escape (c_term c) @
     (case c_editDistance c of None \<Rightarrow> '''' | Some n \<Rightarrow> [CHR 126] @ show_nat n) @
     ''^'' @ show_nat (nat \<lfloor>c_boost c\<rfloor>)"

definition print_query :: "string list \<Rightarrow> clause list \<Rightarrow> string" where
  "print_query flds cs = concat (map (\<lambda>c. print_clause flds c @ '' '') cs)"

definition clause_tags :: "string list \<Rightarrow> clause \<Rightarrow> (lex_type \<times> string) list" where
  "clause_tags flds c =
     (case c_presence c of OPTIONAL \<Rightarrow> [] | REQUIRED \<Rightarrow> [(LX_PRESENCE, ''+'')] | PROHIBITED \<Rightarrow> [(LX_PRESENCE, ''-'')]) @
     (if c_fields c = flds then [] else [(LX_FIELD, hd (c_fields c))]) @
     [(LX_TERM, c_term c)] @
     (case c_editDistance c of None \<Rightarrow> [] | Some n \<Rightarrow> [(LX_EDIT_DISTANCE, show_nat n)]) @
     [(LX_BOOST, show_nat (nat \<lfloor>c_boost c\<rfloor>))]"

lemma lex_spec_escape:
  "lex_spec sep pend cur (escape w @ r) = lex_spec sep (pend \<or> w \<noteq> []) (cur @ w) r"
  by (induction w arbitrary: pend cur) (simp_all add: escape_def)

lemma takeWhile_digits: "takeWhile is_digit (show_nat n @ c # s) = show_nat n @ takeWhile is_digit (c # s)"
  "dropWhile is_digit (show_nat n @ c # s) = dropWhile is_digit (c # s)"
  using show_nat_digits by (simp_all add: takeWhile_append2 dropWhile_append2)

lemma not_digits: "\<not> is_digit (CHR ''^'')" "\<not> is_digit (CHR '' '')"
  by (simp_all add: is_digit_def less_eq_char_def)

lemma lex_spec_clause:
  assumes "c_term c \<noteq> []" "sep (CHR '' '')"
  shows "lex_spec sep False [] (print_clause flds c @ '' '' @ r) = clause_tags flds c @ lex_spec sep False [] r"
proof -
  let ?b = "show_nat (nat \<lfloor>c_boost c\<rfloor>)"
  have blank: "lex_spec sep False [] (CHR '' '' # r) = lex_spec sep False [] r"
    using assms(2) by simp
  have boost: "lex_spec sep pend cur (CHR ''^'' # ?b @ CHR '' '' # r) =
      (if pend then [(LX_TERM, cur)] else []) @ (LX_BOOST, ?b) # lex_spec sep False [] r" for pend cur
    using blank by (simp add: takeWhile_digits not_digits del: lex_spec.simps(2)) (simp add: takeWhile_digits not_digits assms(2))
  have edit: "lex_spec sep True cur
        ((case c_editDistance c of None \<Rightarrow> '''' | Some n \<Rightarrow> [CHR 126] @ show_nat n) @ ''^'' @ ?b @ CHR '' '' # r) =
      [(LX_TERM, cur)] @ (case c_editDistance c of None \<Rightarrow> [] | Some n \<Rightarrow> [(LX_EDIT_DISTANCE, show_nat n)]) @
      (LX_BOOST, ?b) # lex_spec sep False [] r" for cur
    using boost [of True cur] boost [of False "[]"]
    by (cases "c_editDistance c") (simp_all add: takeWhile_digits not_digits)
  have "lex_spec sep False [] (escape (c_term c) @
        (case c_editDistance c of None \<Rightarrow> '''' | Some n \<Rightarrow> [CHR 126] @ show_nat n) @ ''^'' @ ?b @ CHR '' '' # r) =
      [(LX_TERM, c_term c)] @ (case c_editDistance c of None \<Rightarrow> [] | Some n \<Rightarrow> [(LX_EDIT_DISTANCE, show_nat n)]) @
      (LX_BOOST, ?b) # lex_spec sep False [] r"
    using edit [of "c_term c"] assms(1) by (simp only: lex_spec_escape) simp
  then have "lex_spec sep False [] ((if c_fields c = flds then '''' else escape (hd (c_fields c)) @ '':'') @
        escape (c_term c) @
        (case c_editDistance c of None \<Rightarrow> '''' | Some n \<Rightarrow> [CHR 126] @ show_nat n) @ ''^'' @ ?b @ CHR '' '' # r) =
      (if c_fields c = flds then [] else [(LX_FIELD, hd (c_fields c))]) @ [(LX_TERM, c_term c)] @
      (case c_editDistance c of None \<Rightarrow> [] | Some n \<Rightarrow> [(LX_EDIT_DISTANCE, show_nat n)]) @
      (LX_BOOST, ?b) # lex_spec sep False [] r"
    by (simp add: lex_spec_escape)
  then show ?thesis
    by (cases "c_presence c") (simp_all add: print_clause_def clause_tags_def)
qed

text \<open>The types and texts of the lexemes still to parse.\<close>
definition todo :: "parser \<Rightarrow> (lex_type \<times> string) list" where
  "todo p = map tag (drop (lexemeIdx p) (p_lexemes p))"

lemma todo_Nil: "todo p = [] \<Longrightarrow> peekLexeme p = None"
  by (simp add: todo_def peekLexeme_def)

lemma todo_Cons:
  assumes "todo p = (ty, s) # ts"
  obtains lx where "peekLexeme p = Some lx" "lx_type lx = ty" "lx_str lx = s"
    "todo (p\<lparr>lexemeIdx := lexemeIdx p + 1\<rparr>) = ts"
proof -
  have lt: "lexemeIdx p < length (p_lexemes p)"
    using assms by (metis drop_all list.distinct(1) list.map_disc_iff not_le todo_def)
  then have "todo p = tag (p_lexemes p ! lexemeIdx p) # todo (p\<lparr>lexemeIdx := lexemeIdx p + 1\<rparr>)"
    by (simp add: todo_def flip: Cons_nth_drop_Suc)
  then show ?thesis using that assms lt by (auto simp: tag_def peekLexeme_def)
qed

lemma todo_upd [simp]: "todo (p\<lparr>currentClause := c\<rparr>) = todo p" "todo (p\<lparr>p_query := q\<rparr>) = todo p"
  "todo (nextClause p) = todo p"
  by (simp_all add: todo_def nextClause_def)

text \<open>The next lexeme does not modify the clause before it.\<close>
definition clause_ends :: "(lex_type \<times> string) list \<Rightarrow> bool" where
  "clause_ends ts \<longleftrightarrow> (case ts of [] \<Rightarrow> True | (ty, _) # _ \<Rightarrow> ty \<noteq> LX_EDIT_DISTANCE \<and> ty \<noteq> LX_BOOST)"

lemma after_term_ends:
  assumes "clause_ends (todo p)"
  shows "after_term p = parseClause (nextClause p)"
proof (cases "todo p")
  case Nil
  then have "peekLexeme p = None" "peekLexeme (nextClause p) = None" by (auto intro: todo_Nil)
  then show ?thesis by (simp add: after_term_def parseClause_def)
next
  case (Cons t ts)
  obtain ty s where t: "t = (ty, s)" by fastforce
  then obtain lx where lx: "peekLexeme p = Some lx" "lx_type lx = ty" using todo_Cons [of p ty s ts] Cons by blast
  moreover have "peekLexeme (nextClause p) = Some lx" using lx by (simp add: nextClause_def)
  ultimately show ?thesis
    using assms Cons t by (auto simp: after_term_def parseClause_def clause_ends_def split: lex_type.splits)
qed

lemma parse_loop_step: "parse_step st p = Inr (Some st', p') \<Longrightarrow> parse_loop st p = parse_loop st' p'"
  by (subst parse_loop.simps) simp

lemma parse_loop_same: "parse_step st p = parse_step st' p' \<Longrightarrow> parse_loop st p = parse_loop st' p'"
  by (simp add: parse_loop.simps [of st] parse_loop.simps [of st'])

lemma parseInt_show [simp]: "parseInt (show_nat n) = Some n"
proof -
  have "takeWhile is_digit (show_nat n) = show_nat n" using show_nat_digits by (simp add: takeWhile_eq_all_conv)
  then show ?thesis unfolding parseInt_def Let_def by (simp only: show_nat_not_Nil read_show_nat if_False)
qed

lemma parse_boost:
  assumes "todo p = (LX_BOOST, show_nat n) # ts" "clause_ends ts"
  shows "\<exists>p'. parse_loop ParseBoost p = parse_loop ParseClause p' \<and> todo p' = ts \<and> currentClause p' = no_opts \<and>
    p_query p' = Query_clause ((currentClause p)\<lparr>o_boost := Some (of_nat n)\<rparr>) (p_query p)"
proof -
  obtain lx where lx: "peekLexeme p = Some lx" "lx_str lx = show_nat n" "todo (p\<lparr>lexemeIdx := lexemeIdx p + 1\<rparr>) = ts"
    using todo_Cons [OF assms(1)] by metis
  let ?p = "p\<lparr>lexemeIdx := lexemeIdx p + 1, currentClause := (currentClause p)\<lparr>o_boost := Some (of_nat n)\<rparr>\<rparr>"
  have "parseBoost p = after_term ?p"
    using lx by (simp add: parseBoost_def consume_simps)
  also have "\<dots> = parseClause (nextClause ?p)"
    using assms(2) lx(3) by (intro after_term_ends) (simp add: todo_def)
  finally have "parse_loop ParseBoost p = parse_loop ParseClause (nextClause ?p)"
    by (intro parse_loop_same) simp
  then show ?thesis using lx(3) by (intro exI [of _ "nextClause ?p"]) (simp add: nextClause_def todo_def)
qed

lemma parse_edit:
  assumes "todo p = (LX_EDIT_DISTANCE, show_nat n) # (LX_BOOST, b) # ts"
  shows "\<exists>p'. parse_loop ParseEditDistance p = parse_loop ParseBoost p' \<and> todo p' = (LX_BOOST, b) # ts \<and>
    p_query p' = p_query p \<and> currentClause p' = (currentClause p)\<lparr>o_editDistance := Some n\<rparr>"
proof -
  obtain lx where lx: "peekLexeme p = Some lx" "lx_str lx = show_nat n"
    "todo (p\<lparr>lexemeIdx := lexemeIdx p + 1\<rparr>) = (LX_BOOST, b) # ts"
    using todo_Cons [OF assms] by metis
  let ?p = "p\<lparr>lexemeIdx := lexemeIdx p + 1, currentClause := (currentClause p)\<lparr>o_editDistance := Some n\<rparr>\<rparr>"
  obtain nx where "peekLexeme ?p = Some nx" "lx_type nx = LX_BOOST"
    using todo_Cons [of ?p LX_BOOST b ts] lx(3) by (auto simp: todo_def)
  then have "parseEditDistance p = Inr (Some ParseBoost, ?p)"
    using lx by (simp add: parseEditDistance_def consume_simps after_term_def)
  then show ?thesis using lx(3) parse_loop_step [of ParseEditDistance p] by (intro exI [of _ ?p]) (simp add: todo_def)
qed

text \<open>From a term on: an optional edit distance and a boost.\<close>
lemma parse_term:
  assumes "todo p = (LX_TERM, w) # (case ed of None \<Rightarrow> [] | Some n \<Rightarrow> [(LX_EDIT_DISTANCE, show_nat n)]) @
      (LX_BOOST, show_nat b) # ts" "clause_ends ts" "o_usePipeline (currentClause p) = None" "o_editDistance (currentClause p) = None"
  shows "\<exists>p'. parse_loop ParseTerm p = parse_loop ParseClause p' \<and> todo p' = ts \<and> currentClause p' = no_opts \<and>
    p_query p' = Query_clause ((currentClause p)\<lparr>o_term := toLowerCase w,
      o_usePipeline := (if CHR ''*'' \<in> set w then Some False else None),
      o_editDistance := ed, o_boost := Some (of_nat b)\<rparr>) (p_query p)"
proof -
  let ?rest = "(case ed of None \<Rightarrow> [] | Some n \<Rightarrow> [(LX_EDIT_DISTANCE, show_nat n)]) @ (LX_BOOST, show_nat b) # ts"
  obtain lx where lx: "peekLexeme p = Some lx" "lx_str lx = w" "todo (p\<lparr>lexemeIdx := lexemeIdx p + 1\<rparr>) = ?rest"
    using todo_Cons [OF assms(1)] by metis
  define c where "c = (currentClause p)\<lparr>o_term := toLowerCase w, o_usePipeline := (if CHR ''*'' \<in> set w then Some False else None)\<rparr>"
  define p1 where "p1 = p\<lparr>lexemeIdx := lexemeIdx p + 1, currentClause := c\<rparr>"
  have "(currentClause p)\<lparr>o_term := toLowerCase w\<rparr> = c" if "CHR ''*'' \<notin> set w"
    using that assms(3) by (simp add: c_def)
  then have step: "parseTerm p = after_term p1"
    using lx by (auto simp: parseTerm_def consume_simps p1_def c_def)
  have todo1: "todo p1 = ?rest" using lx(3) by (simp add: p1_def todo_def)
  have p1: "p_query p1 = p_query p" "currentClause p1 = c" by (simp_all add: p1_def)
  show ?thesis
  proof (cases ed)
    case None
    then have t: "todo p1 = (LX_BOOST, show_nat b) # ts" using todo1 by simp
    then obtain nx where "peekLexeme p1 = Some nx" "lx_type nx = LX_BOOST" using todo_Cons [OF t] by metis
    then have "parse_loop ParseTerm p = parse_loop ParseBoost p1"
      by (intro parse_loop_step) (simp add: step after_term_def)
    moreover have "(currentClause p)\<lparr>o_term := t, o_usePipeline := u, o_editDistance := None, o_boost := v\<rparr> =
        (currentClause p)\<lparr>o_term := t, o_usePipeline := u, o_boost := v\<rparr>" for t u v
      using assms(4) by (cases "currentClause p") simp
    ultimately show ?thesis
      using parse_boost [OF t assms(2)] p1 None by (simp only: c_def)
  next
    case (Some n)
    then have t: "todo p1 = (LX_EDIT_DISTANCE, show_nat n) # (LX_BOOST, show_nat b) # ts" using todo1 by simp
    then obtain nx where "peekLexeme p1 = Some nx" "lx_type nx = LX_EDIT_DISTANCE" using todo_Cons [OF t] by metis
    then have "parse_loop ParseTerm p = parse_loop ParseEditDistance p1"
      by (intro parse_loop_step) (simp add: step after_term_def)
    moreover obtain p2 where p2: "parse_loop ParseEditDistance p1 = parse_loop ParseBoost p2"
        "todo p2 = (LX_BOOST, show_nat b) # ts" "p_query p2 = p_query p1"
        "currentClause p2 = (currentClause p1)\<lparr>o_editDistance := Some n\<rparr>"
      using parse_edit [OF t] by blast
    ultimately show ?thesis
      using parse_boost [OF p2(2) assms(2)] p1 p2 Some by (simp add: c_def split del: if_split)
  qed
qed

text \<open>A clause that the language can express.\<close>
definition printable :: "string list \<Rightarrow> clause \<Rightarrow> bool" where
  "printable flds c \<longleftrightarrow> clause_ok flds c \<and> c_term c \<noteq> []"

lemma Query_clause_printable:
  assumes "printable flds c" "allFields q = flds"
  shows "Query_clause (no_opts\<lparr>o_presence := (case c_presence c of OPTIONAL \<Rightarrow> None | x \<Rightarrow> Some x),
      o_fields := (if c_fields c = flds then None else Some [hd (c_fields c)]),
      o_term := c_term c, o_usePipeline := (if CHR ''*'' \<in> set (c_term c) then Some False else None),
      o_editDistance := c_editDistance c, o_boost := Some (of_nat (nat \<lfloor>c_boost c\<rfloor>))\<rparr>) q =
    q\<lparr>clauses := clauses q @ [c]\<rparr>"
proof -
  obtain n where n: "c_boost c = of_nat n" using assms(1) by (auto simp: printable_def clause_ok_def Nats_def)
  have "nat \<lfloor>rat_of_nat n\<rfloor> = n" by simp
  moreover have "dflt OPTIONAL (case c_presence c of OPTIONAL \<Rightarrow> None | x \<Rightarrow> Some x) = c_presence c"
    by (simp add: dflt_def split: presence.splits)
  moreover have "dflt flds (if c_fields c = flds then None else Some [hd (c_fields c)]) = c_fields c"
    using assms(1) by (auto simp: dflt_def printable_def clause_ok_def)
  moreover have "dflt True (if CHR ''*'' \<in> set (c_term c) then Some False else None) = c_usePipeline c"
    using assms(1) by (auto simp: dflt_def printable_def clause_ok_def)
  ultimately show ?thesis
    using assms n by (cases c) (simp add: Query_clause_def Let_def no_opts_def dflt_def wildcard_NONE_def
        add_leading_def add_trailing_def printable_def clause_ok_def)
qed

text \<open>Parsing the lexemes of one clause adds it.\<close>
lemma parse_clause:
  assumes "todo p = clause_tags flds c @ ts" "clause_ends ts" "printable flds c" "currentClause p = no_opts"
    "allFields (p_query p) = flds"
  shows "\<exists>p'. parse_loop ParseClause p = parse_loop ParseClause p' \<and> todo p' = ts \<and> currentClause p' = no_opts \<and>
    p_query p' = (p_query p)\<lparr>clauses := clauses (p_query p) @ [c]\<rparr>"
proof -
  let ?b = "nat \<lfloor>c_boost c\<rfloor>"
  let ?trm = "(LX_TERM, c_term c) # (case c_editDistance c of None \<Rightarrow> [] | Some n \<Rightarrow> [(LX_EDIT_DISTANCE, show_nat n)]) @
      (LX_BOOST, show_nat ?b) # ts"
  let ?field = "(if c_fields c = flds then [] else [(LX_FIELD, hd (c_fields c))]) @ ?trm"
  let ?fs = "if c_fields c = flds then None else Some [hd (c_fields c)]"
  let ?pr = "case c_presence c of OPTIONAL \<Rightarrow> None | x \<Rightarrow> Some x"
  have field_in: "c_fields c \<noteq> flds \<Longrightarrow> index_of (hd (c_fields c)) flds \<noteq> None"
    using assms(3) by (auto simp: printable_def clause_ok_def simp del: not_None_eq)
  have low: "toLowerCase (c_term c) = c_term c" using assms(3) by (simp add: printable_def clause_ok_def)
  have from_term: "\<exists>p'. parse_loop ParseTerm p1 = parse_loop ParseClause p' \<and> todo p' = ts \<and> currentClause p' = no_opts \<and>
      p_query p' = (p_query p)\<lparr>clauses := clauses (p_query p) @ [c]\<rparr>"
    if "todo p1 = ?trm" "p_query p1 = p_query p" "currentClause p1 = no_opts\<lparr>o_presence := ?pr, o_fields := ?fs\<rparr>" for p1
  proof -
    have none: "o_usePipeline (currentClause p1) = None" "o_editDistance (currentClause p1) = None"
      by (simp_all add: that(3) no_opts_def)
    show ?thesis
      using parse_term [OF that(1) assms(2) none] Query_clause_printable [OF assms(3,5)] by (simp only: that(2,3) low)
  qed
  have from_field: "\<exists>p'. parse_loop ParseClause p1 = parse_loop ParseClause p' \<and>
        parse_loop ParseClause p1 = parse_loop (if c_fields c = flds then ParseTerm else ParseField) p1 \<and>
        todo p' = ts \<and> currentClause p' = no_opts \<and>
        p_query p' = (p_query p)\<lparr>clauses := clauses (p_query p) @ [c]\<rparr>"
    if t: "todo p1 = ?field" and q: "p_query p1 = p_query p" and cl: "currentClause p1 = no_opts\<lparr>o_presence := ?pr\<rparr>" for p1
  proof (cases "c_fields c = flds")
    case True
    then have t1: "todo p1 = ?trm" using t by simp
    obtain lx where "peekLexeme p1 = Some lx" "lx_type lx = LX_TERM" using todo_Cons [OF t1] by blast
    then have "parse_loop ParseClause p1 = parse_loop ParseTerm p1"
      by (intro parse_loop_step) (simp add: parseClause_def)
    then show ?thesis using from_term [OF t1 q] cl True by (simp add: no_opts_def)
  next
    case False
    then have t': "todo p1 = (LX_FIELD, hd (c_fields c)) # ?trm" using t by simp
    obtain lx where lx: "peekLexeme p1 = Some lx" "lx_type lx = LX_FIELD" "lx_str lx = hd (c_fields c)"
        "todo (p1\<lparr>lexemeIdx := lexemeIdx p1 + 1\<rparr>) = ?trm" using todo_Cons [OF t'] by blast
    let ?p2 = "p1\<lparr>lexemeIdx := lexemeIdx p1 + 1, currentClause := (currentClause p1)\<lparr>o_fields := ?fs\<rparr>\<rparr>"
    have t2: "todo ?p2 = ?trm" using lx(4) by (simp add: todo_def)
    obtain nx where "peekLexeme ?p2 = Some nx" "lx_type nx = LX_TERM" using todo_Cons [OF t2] by blast
    then have "parse_loop ParseField p1 = parse_loop ParseTerm ?p2"
      using lx field_in [OF False] False q assms(5)
      by (intro parse_loop_step) (simp add: parseField_def consume_simps)
    moreover have "parse_loop ParseClause p1 = parse_loop ParseField p1"
      using lx by (intro parse_loop_step) (simp add: parseClause_def)
    ultimately show ?thesis using from_term [OF t2] q cl False by simp
  qed
  show ?thesis
  proof (cases "c_presence c = OPTIONAL")
    case True
    then show ?thesis using from_field [of p] assms(1,4) by (fastforce simp: clause_tags_def no_opts_def)
  next
    case False
    then obtain sgn where sgn: "todo p = (LX_PRESENCE, sgn) # ?field"
        "(if sgn = ''-'' then Some PROHIBITED else if sgn = ''+'' then Some REQUIRED else None) = ?pr" "?pr \<noteq> None"
      using assms(1) by (cases "c_presence c") (auto simp: clause_tags_def)
    obtain lx where lx: "peekLexeme p = Some lx" "lx_type lx = LX_PRESENCE" "lx_str lx = sgn"
        "todo (p\<lparr>lexemeIdx := lexemeIdx p + 1\<rparr>) = ?field" using todo_Cons [OF sgn(1)] by metis
    let ?p1 = "p\<lparr>lexemeIdx := lexemeIdx p + 1, currentClause := (currentClause p)\<lparr>o_presence := ?pr\<rparr>\<rparr>"
    let ?st = "if c_fields c = flds then ParseTerm else ParseField"
    have t1: "todo ?p1 = ?field" using lx(4) by (simp add: todo_def)
    then obtain nx where "peekLexeme ?p1 = Some nx" "lx_type nx = (if c_fields c = flds then LX_TERM else LX_FIELD)"
      using todo_Cons [of ?p1] by (cases "c_fields c = flds") (simp, metis)+
    then have "parsePresence p = Inr (Some ?st, ?p1)"
      unfolding parsePresence_def consume_simps lx(1) option.case lx(3) sgn(2)
      unfolding if_not_P [OF sgn(3)] by simp
    then have "parse_loop ParsePresence p = parse_loop ?st ?p1" by (intro parse_loop_step) simp
    moreover have "parse_loop ParseClause p = parse_loop ParsePresence p"
      using lx by (intro parse_loop_step) (simp add: parseClause_def)
    ultimately show ?thesis using from_field [OF t1] assms(4) by auto
  qed
qed

lemma clause_ends_tags: "clause_ends (clause_tags flds c @ ts)"
  by (auto simp: clause_ends_def clause_tags_def split: presence.splits)

lemma parse_clauses:
  assumes "todo p = concat (map (clause_tags flds) cs)" "list_all (printable flds) cs" "currentClause p = no_opts"
    "allFields (p_query p) = flds"
  shows "\<exists>p'. parse_loop ParseClause p = Some (Inr p') \<and> p_query p' = (p_query p)\<lparr>clauses := clauses (p_query p) @ cs\<rparr>"
  using assms
proof (induction cs arbitrary: p)
  case Nil
  then have "peekLexeme p = None" by (auto intro: todo_Nil)
  then show ?case by (subst parse_loop.simps) (simp add: parseClause_def)
next
  case (Cons c cs)
  have "clause_ends (concat (map (clause_tags flds) cs))"
    by (cases cs) (simp_all add: clause_ends_tags, simp add: clause_ends_def)
  then obtain p' where p': "parse_loop ParseClause p = parse_loop ParseClause p'"
      "todo p' = concat (map (clause_tags flds) cs)" "currentClause p' = no_opts"
      "p_query p' = (p_query p)\<lparr>clauses := clauses (p_query p) @ [c]\<rparr>"
    using parse_clause [of p flds c] Cons.prems by auto
  then show ?case using Cons.IH [of p'] Cons.prems by auto
qed

lemma parse_tags:
  assumes "\<And>l :: lexer. map tag (lexemes l) = lex_spec sep False [] s \<Longrightarrow>
    \<exists>p'. parse_loop ParseClause \<lparr>p_lexemes = lexemes l, lexemeIdx = 0, p_query = q, currentClause = no_opts\<rparr> = Some (Inr p') \<and>
      p_query p' = q'"
  shows "QueryParser_parse sep s q = Some (Inr q')"
proof -
  obtain l where l: "lexer_run sep (new_QueryLexer s) = Some l" "map tag (lexemes l) = lex_spec sep False [] s"
    using lexer_meets_spec [of sep s] by blast
  then show ?thesis using assms [OF l(2)] by (auto simp: QueryParser_parse_def)
qed

text \<open>C27. Every list of well-formed clauses with non-empty terms can be written as a query text, whatever
  characters the terms and field names contain, and parsing that text gives exactly these clauses back:
  presence, field, term, edit distance and boost.\<close>
theorem query_roundtrip:
  assumes "list_all (printable flds) cs" "sep (CHR '' '')"
  shows "QueryParser_parse sep (print_query flds cs) (new_Query flds) = Some (Inr \<lparr>clauses = cs, allFields = flds\<rparr>)"
proof (rule parse_tags)
  fix l :: lexer
  let ?p = "\<lparr>p_lexemes = lexemes l, lexemeIdx = 0, p_query = new_Query flds, currentClause = no_opts\<rparr>"
  assume l: "map tag (lexemes l) = lex_spec sep False [] (print_query flds cs)"
  have "lex_spec sep False [] (print_query flds cs) = concat (map (clause_tags flds) cs)"
    using assms
  proof (induction cs)
    case (Cons c cs)
    then show ?case
      using lex_spec_clause [of c sep flds "print_query flds cs"] by (simp add: print_query_def printable_def)
  qed (simp add: print_query_def)
  then have "todo ?p = concat (map (clause_tags flds) cs)" by (simp add: todo_def l)
  from parse_clauses [OF this assms(1)]
  show "\<exists>p'. parse_loop ParseClause ?p = Some (Inr p') \<and> p_query p' = \<lparr>clauses = cs, allFields = flds\<rparr>"
    by (simp add: new_Query_def)
qed

definition sample_clause :: clause where
  "sample_clause = \<lparr>c_term = ''a+b'', c_fields = [''text''], c_boost = 3, c_usePipeline = True,
     c_wildcard = wildcard_NONE, c_presence = REQUIRED, c_editDistance = Some 2\<rparr>"

theorem query_roundtrip_witness:
  "QueryParser_parse separator (print_query [''title'', ''text''] [sample_clause]) (new_Query [''title'', ''text'']) =
    Some (Inr \<lparr>clauses = [sample_clause], allFields = [''title'', ''text'']\<rparr>)"
proof -
  have "toLowerCase ''a+b'' = ''a+b''" by code_simp
  moreover have "(3 :: rat) \<in> \<nat>" by (metis Nats_numeral)
  ultimately have "list_all (printable [''title'', ''text'']) [sample_clause]"
    by (simp add: printable_def clause_ok_def sample_clause_def)
  moreover have "separator (CHR '' '')" by (simp add: separator_def is_js_space_def)
  ultimately show ?thesis by (rule query_roundtrip)
qed

section \<open>Plain text\<close>

text \<open>A character without a meaning in the query language.\<close>
definition plain_char :: "char \<Rightarrow> bool" where
  "plain_char c \<longleftrightarrow> c \<notin> {CHR 92, CHR '':'', CHR 126, CHR ''^'', CHR ''+'', CHR ''-''}"

lemma lex_spec_plain:
  "list_all plain_char s \<Longrightarrow> list_all (\<lambda>c. \<not> sep c) cur \<Longrightarrow>
     lex_spec sep (cur \<noteq> []) cur s = map (Pair LX_TERM) (words_of sep (cur @ s))"
proof (induction s arbitrary: cur)
  case Nil
  then show ?case by (simp add: words_of_end list_all_iff)
next
  case (Cons c s)
  have "of_char c \<noteq> (92 :: nat)"
  proof
    assume "of_char c = (92 :: nat)"
    moreover have "of_char (CHR 92) = (92 :: nat)" by simp
    ultimately have "c = CHR 92" by (metis of_char_eq_iff)
    then show False using Cons.prems by (simp add: plain_char_def)
  qed
  then have "lex_spec sep (cur \<noteq> []) cur (c # s) =
      (if sep c then (if cur = [] then [] else [(LX_TERM, cur)]) @ lex_spec sep False [] s
       else lex_spec sep True (cur @ [c]) s)"
    using Cons.prems by (simp add: plain_char_def)
  moreover have "lex_spec sep False [] s = map (Pair LX_TERM) (words_of sep s)"
    using Cons.IH [of "[]"] Cons.prems by simp
  moreover have "\<not> sep c \<Longrightarrow> lex_spec sep True (cur @ [c]) s = map (Pair LX_TERM) (words_of sep ((cur @ [c]) @ s))"
    using Cons.IH [of "cur @ [c]"] Cons.prems by simp
  moreover have "sep c \<Longrightarrow> words_of sep (cur @ c # s) = (if cur = [] then [] else [cur]) @ words_of sep s"
    using Cons.prems by (subst words_of_run) (simp_all add: list_all_iff)
  ultimately show ?case by (cases "sep c") simp_all
qed

text \<open>The clause of one plain word.\<close>
definition word_clause :: "string list \<Rightarrow> string \<Rightarrow> clause" where
  "word_clause flds w = \<lparr>c_term = toLowerCase w, c_fields = flds, c_boost = 1, c_usePipeline = (CHR ''*'' \<notin> set w),
     c_wildcard = wildcard_NONE, c_presence = OPTIONAL, c_editDistance = None\<rparr>"

lemma parse_words:
  assumes "todo p = map (Pair LX_TERM) ws" "currentClause p = no_opts" "allFields (p_query p) = flds"
  shows "\<exists>p'. parse_loop ParseClause p = Some (Inr p') \<and>
    p_query p' = (p_query p)\<lparr>clauses := clauses (p_query p) @ map (word_clause flds) ws\<rparr>"
  using assms
proof (induction ws arbitrary: p)
  case Nil
  then have "peekLexeme p = None" by (auto intro: todo_Nil)
  then show ?case by (subst parse_loop.simps) (simp add: parseClause_def)
next
  case (Cons w ws)
  then have "todo p = (LX_TERM, w) # map (Pair LX_TERM) ws" by simp
  then obtain lx where lx: "peekLexeme p = Some lx" "lx_type lx = LX_TERM" "lx_str lx = w"
      "todo (p\<lparr>lexemeIdx := lexemeIdx p + 1\<rparr>) = map (Pair LX_TERM) ws"
    using todo_Cons by metis
  define c where "c = (let c = (currentClause p)\<lparr>o_term := toLowerCase w\<rparr> in
    if CHR ''*'' \<in> set w then c\<lparr>o_usePipeline := Some False\<rparr> else c)"
  define p1 where "p1 = p\<lparr>lexemeIdx := lexemeIdx p + 1, currentClause := c\<rparr>"
  have "clause_ends (map (Pair LX_TERM) ws)" by (cases ws) (simp_all add: clause_ends_def)
  moreover have t1: "todo p1 = map (Pair LX_TERM) ws" using lx(4) by (simp add: p1_def todo_def)
  moreover have "parseTerm p = after_term p1"
    using lx by (simp add: parseTerm_def consume_simps p1_def c_def)
  ultimately have "parse_loop ParseTerm p = parse_loop ParseClause (nextClause p1)"
    by (intro parse_loop_same) (simp add: after_term_ends)
  moreover have "parse_loop ParseClause p = parse_loop ParseTerm p"
    using lx by (intro parse_loop_step) (simp add: parseClause_def)
  moreover have "p_query (nextClause p1) = (p_query p)\<lparr>clauses := clauses (p_query p) @ [word_clause flds w]\<rparr>"
    using Cons.prems(2,3)
    by (simp add: nextClause_def p1_def c_def Let_def Query_clause_def word_clause_def no_opts_def dflt_def
        wildcard_NONE_def add_leading_def add_trailing_def)
  ultimately show ?case
    using Cons.IH [of "nextClause p1"] t1 Cons.prems(3) by (auto simp: nextClause_def)
qed

text \<open>A query without special characters is cut at the separators like the text of a document, and asks
  for each of the words, as an optional term in all fields.  With the separator of the tokenizer, the terms
  are the strings of the tokens that the tokenizer makes of the same text.\<close>
lemma plain_query_terms:
  assumes "list_all plain_char s"
  shows "QueryParser_parse sep s (new_Query flds) =
      Some (Inr \<lparr>clauses = map (word_clause flds) (words_of sep s), allFields = flds\<rparr>)"
proof (rule parse_tags)
  fix l :: lexer
  let ?p = "\<lparr>p_lexemes = lexemes l, lexemeIdx = 0, p_query = new_Query flds, currentClause = no_opts\<rparr>"
  assume "map tag (lexemes l) = lex_spec sep False [] s"
  then have "todo ?p = map (Pair LX_TERM) (words_of sep s)"
    using lex_spec_plain [OF assms, of sep "[]"] by (simp add: todo_def)
  from parse_words [OF this]
  show "\<exists>p'. parse_loop ParseClause ?p = Some (Inr p') \<and>
      p_query p' = \<lparr>clauses = map (word_clause flds) (words_of sep s), allFields = flds\<rparr>"
    by (simp add: new_Query_def)
qed

end
