(* ===== verification/Lunr_TokenSet.thy ===== *)
theory Lunr_TokenSet
  imports Lunr_Query
begin

text \<open>
  \<open>lunr.TokenSet\<close> (\<open>search/lunr.js\<close>): sets of words as automata, built minimised from a sorted list, and
  the automata of query terms with wildcards and edit distances.

  The sources build graphs of objects that are shared and mutated.  Here a node is its identifier and
  \<open>ts_heap\<close> maps identifiers to the state of the objects, together with the counter \<open>_nextId\<close>; an operation
  that creates or changes nodes takes and returns the heap.  The label of an edge is one character.  The
  loops over a stack of frames are partial functions into \<open>option\<close>: on a cyclic set \<open>toArray\<close> runs forever.
\<close>

section \<open>Nodes\<close>

record tnode =
  final :: bool
  edges :: "(char \<times> nat) list"
  cached_str :: "string option"

record ts_heap =
  nextId :: nat
  node :: "nat \<Rightarrow> tnode"

definition blank_node :: tnode where
  "blank_node = \<lparr>final = False, edges = [], cached_str = None\<rparr>"

text \<open>The heap when the library is loaded.\<close>
definition empty_heap :: ts_heap where
  "empty_heap = \<lparr>nextId = 1, node = (\<lambda>_. blank_node)\<rparr>"

definition new_TokenSet :: "ts_heap \<Rightarrow> nat \<times> ts_heap" where
  "new_TokenSet h = (nextId h, h\<lparr>nextId := nextId h + 1, node := (node h)(nextId h := blank_node)\<rparr>)"

text \<open>\<open>n.edges[c] = m\<close> and \<open>n.final = b\<close>\<close>
definition set_edge :: "nat \<Rightarrow> char \<Rightarrow> nat \<Rightarrow> ts_heap \<Rightarrow> ts_heap" where
  "set_edge n c m h = h\<lparr>node := (node h)(n := (node h n)\<lparr>edges := AList.update c m (edges (node h n))\<rparr>)\<rparr>"

definition set_final :: "nat \<Rightarrow> bool \<Rightarrow> ts_heap \<Rightarrow> ts_heap" where
  "set_final n b h = h\<lparr>node := (node h)(n := (node h n)\<lparr>final := b\<rparr>)\<rparr>"

definition set_str :: "nat \<Rightarrow> string \<Rightarrow> ts_heap \<Rightarrow> ts_heap" where
  "set_str n s h = h\<lparr>node := (node h)(n := (node h n)\<lparr>cached_str := Some s\<rparr>)\<rparr>"

text \<open>\<open>n.edges[c]\<close>\<close>
definition edge :: "ts_heap \<Rightarrow> nat \<Rightarrow> char \<Rightarrow> nat option" where
  "edge h n c = map_of (edges (node h n)) c"

text \<open>\<open>Object.keys(n.edges)\<close>: digits are array indices and come first.\<close>
definition edge_keys :: "ts_heap \<Rightarrow> nat \<Rightarrow> char list" where
  "edge_keys h n =
     (let ks = map fst (edges (node h n)) in sort (filter is_digit ks) @ filter (\<lambda>c. \<not> is_digit c) ks)"

text \<open>\<open>if (c in n.edges) ... else n.edges[c] = new lunr.TokenSet\<close>\<close>
definition ensure_edge :: "nat \<Rightarrow> char \<Rightarrow> ts_heap \<Rightarrow> nat \<times> ts_heap" where
  "ensure_edge n c h =
     (case edge h n c of
        Some m \<Rightarrow> (m, h)
      | None \<Rightarrow> let (m, h') = new_TokenSet h in (m, set_edge n c m h'))"

section \<open>Printing\<close>

text \<open>The key of a node as it is now: finality, then label and identifier of the target for every edge, in
  the order of the labels.\<close>
definition fresh_key :: "ts_heap \<Rightarrow> nat \<Rightarrow> string" where
  "fresh_key h n =
     (if final (node h n) then ''1'' else ''0'') @
     concat (map (\<lambda>c. c # show_nat (the (edge h n c))) (sort (map fst (edges (node h n)))))"

definition TokenSet_toString :: "ts_heap \<Rightarrow> nat \<Rightarrow> string" where
  "TokenSet_toString h n =
     (case cached_str (node h n) of
        Some s \<Rightarrow> if s \<noteq> [] then s else fresh_key h n
      | None \<Rightarrow> fresh_key h n)"

section \<open>Builder\<close>

record ts_builder =
  previousWord :: string
  root :: nat
  uncheckedNodes :: "(nat \<times> char \<times> nat) list"
  minimizedNodes :: "(string \<times> nat) list"

definition new_Builder :: "ts_heap \<Rightarrow> ts_builder \<times> ts_heap" where
  "new_Builder h =
     (let (r, h') = new_TokenSet h in
      (\<lparr>previousWord = [], root = r, uncheckedNodes = [], minimizedNodes = []\<rparr>, h'))"

function Builder_minimize :: "nat \<Rightarrow> ts_builder \<Rightarrow> ts_heap \<Rightarrow> ts_builder \<times> ts_heap" where
  "Builder_minimize downTo b h =
     (if length (uncheckedNodes b) \<le> downTo then (b, h)
      else
        let (parent, c, child) = last (uncheckedNodes b);
            childKey = TokenSet_toString h child;
            (mins, h') =
              (case map_of (minimizedNodes b) childKey of
                 Some m \<Rightarrow> (minimizedNodes b, set_edge parent c m h)
               | None \<Rightarrow> (AList.update childKey child (minimizedNodes b), set_str child childKey h))
        in Builder_minimize downTo (b\<lparr>minimizedNodes := mins, uncheckedNodes := butlast (uncheckedNodes b)\<rparr>) h')"
  by pat_completeness auto
termination
  by (relation "measure (\<lambda>(d, b, h). length (uncheckedNodes b))") auto

declare Builder_minimize.simps [simp del]

fun commonPrefix :: "string \<Rightarrow> string \<Rightarrow> nat" where
  "commonPrefix (a # as) (b # bs) = (if a \<noteq> b then 0 else Suc (commonPrefix as bs))"
| "commonPrefix _ _ = 0"

text \<open>The loop that appends the rest of the word.\<close>
fun add_nodes :: "nat \<Rightarrow> string \<Rightarrow> ts_builder \<Rightarrow> ts_heap \<Rightarrow> nat \<times> ts_builder \<times> ts_heap" where
  "add_nodes n [] b h = (n, b, h)"
| "add_nodes n (c # cs) b h =
     (let (nextNode, h1) = new_TokenSet h;
          h2 = set_edge n c nextNode h1
      in add_nodes nextNode cs (b\<lparr>uncheckedNodes := uncheckedNodes b @ [(n, c, nextNode)]\<rparr>) h2)"

definition Builder_insert :: "string \<Rightarrow> ts_builder \<Rightarrow> ts_heap \<Rightarrow> (ts_builder \<times> ts_heap) jsr" where
  "Builder_insert word b h =
     (if word < previousWord b then Inl (mk_Error ''Out of order word insertion'')
      else
        let cp = commonPrefix word (previousWord b);
            (b1, h1) = Builder_minimize cp b h;
            n = (if uncheckedNodes b1 = [] then root b1 else snd (snd (last (uncheckedNodes b1))));
            (n', b2, h2) = add_nodes n (drop cp word) b1 h1
        in Inr (b2\<lparr>previousWord := word\<rparr>, set_final n' True h2))"

definition Builder_finish :: "ts_builder \<Rightarrow> ts_heap \<Rightarrow> ts_builder \<times> ts_heap" where
  "Builder_finish b h = Builder_minimize 0 b h"

fun insert_all :: "string list \<Rightarrow> ts_builder \<Rightarrow> ts_heap \<Rightarrow> (ts_builder \<times> ts_heap) jsr" where
  "insert_all [] b h = Inr (b, h)"
| "insert_all (w # ws) b h = bindr (Builder_insert w b h) (\<lambda>(b', h'). insert_all ws b' h')"

definition TokenSet_fromArray :: "string list \<Rightarrow> ts_heap \<Rightarrow> (nat \<times> ts_heap) jsr" where
  "TokenSet_fromArray arr h =
     (let (b, h1) = new_Builder h in
      bindr (insert_all arr b h1) (\<lambda>(b2, h2).
        let (b3, h3) = Builder_finish b2 h2 in Inr (root b3, h3)))"

section \<open>Query terms\<close>

text \<open>The loop of \<open>fromString\<close>; a character is final when it is the last one.\<close>
fun string_loop :: "nat \<Rightarrow> string \<Rightarrow> ts_heap \<Rightarrow> ts_heap" where
  "string_loop n [] h = h"
| "string_loop n (c # cs) h =
     (if c = CHR ''*''
      then string_loop n cs (set_final n (cs = []) (set_edge n c n h))
      else
        let (m, h1) = new_TokenSet h
        in string_loop m cs (set_edge n c m (set_final m (cs = []) h1)))"

definition TokenSet_fromString :: "string \<Rightarrow> ts_heap \<Rightarrow> nat \<times> ts_heap" where
  "TokenSet_fromString s h = (let (r, h1) = new_TokenSet h in (r, string_loop r s h1))"

record fuzzy_frame =
  fz_node :: nat
  editsRemaining :: nat
  fz_str :: string

text \<open>The body of the loop of \<open>fromFuzzyString\<close> for one frame: the frames to push, in order, and the heap.\<close>
definition fuzzy_step :: "fuzzy_frame \<Rightarrow> ts_heap \<Rightarrow> fuzzy_frame list \<times> ts_heap" where
  "fuzzy_step fr h0 =
     (let n = fz_node fr; s = fz_str fr; k = editsRemaining fr;
          (noEdit, h1) =
            (if s \<noteq> []
             then let (m, h') = ensure_edge n (hd s) h0
                  in ([\<lparr>fz_node = m, editsRemaining = k, fz_str = tl s\<rparr>],
                      if length s = 1 then set_final m True h' else h')
             else ([], h0))
      in if k = 0 then (noEdit, h1)
         else
           let (ins, h2) = ensure_edge n (CHR ''*'') h1;
               h3 = (if s = [] then set_final ins True h2 else h2);
               insertion = [\<lparr>fz_node = ins, editsRemaining = k - 1, fz_str = s\<rparr>];
               deletion = (if 1 < length s then [\<lparr>fz_node = n, editsRemaining = k - 1, fz_str = tl s\<rparr>] else []);
               h4 = (if length s = 1 then set_final n True h3 else h3);
               (substitution, h5) =
                 (if s \<noteq> []
                  then let (m, h') = ensure_edge n (CHR ''*'') h4
                       in ([\<lparr>fz_node = m, editsRemaining = k - 1, fz_str = tl s\<rparr>],
                           if length s = 1 then set_final m True h' else h')
                  else ([], h4));
               (transposition, h6) =
                 (if 1 < length s
                  then let (m, h') = ensure_edge n (s ! 1) h5
                       in ([\<lparr>fz_node = m, editsRemaining = k - 1, fz_str = hd s # drop 2 s\<rparr>], h')
                  else ([], h5))
           in (noEdit @ insertion @ deletion @ substitution @ transposition, h6))"

text \<open>The stack is a list with its top first.\<close>
partial_function (option) fuzzy_loop :: "fuzzy_frame list \<Rightarrow> ts_heap \<Rightarrow> ts_heap option" where
  "fuzzy_loop stack h =
     (case stack of
        [] \<Rightarrow> Some h
      | fr # rest \<Rightarrow> (case fuzzy_step fr h of (pushed, h') \<Rightarrow> fuzzy_loop (rev pushed @ rest) h'))"

declare fuzzy_loop.simps [code]

definition TokenSet_fromFuzzyString :: "string \<Rightarrow> nat \<Rightarrow> ts_heap \<Rightarrow> (nat \<times> ts_heap) option" where
  "TokenSet_fromFuzzyString s editDistance h =
     (let (r, h1) = new_TokenSet h in
      map_option (Pair r) (fuzzy_loop [\<lparr>fz_node = r, editsRemaining = editDistance, fz_str = s\<rparr>] h1))"

definition TokenSet_fromClause :: "clause \<Rightarrow> ts_heap \<Rightarrow> (nat \<times> ts_heap) option" where
  "TokenSet_fromClause c h =
     (case c_editDistance c of
        Some k \<Rightarrow> TokenSet_fromFuzzyString (c_term c) k h
      | None \<Rightarrow> Some (TokenSet_fromString (c_term c) h))"

section \<open>Listing and intersecting\<close>

partial_function (option) array_words :: "ts_heap \<Rightarrow> (string \<times> nat) list \<Rightarrow> string list \<Rightarrow> string list option" where
  "array_words h stack words =
     (case stack of
        [] \<Rightarrow> Some words
      | (pre, n) # rest \<Rightarrow>
          array_words h
            (rev (map (\<lambda>c. (pre @ [c], the (edge h n c))) (edge_keys h n)) @ rest)
            (if final (node h n) then words @ [pre] else words))"

declare array_words.simps [code]

definition TokenSet_toArray :: "ts_heap \<Rightarrow> nat \<Rightarrow> string list option" where
  "TokenSet_toArray h n = array_words h [([], n)] []"

record meet_frame =
  qNode :: nat
  out_node :: nat
  idx_node :: nat

text \<open>One pair of edges of a frame: the target in the output is made or reused, and a frame is pushed.\<close>
definition meet_edge :: "meet_frame \<Rightarrow> char \<Rightarrow> char \<Rightarrow> meet_frame list \<times> ts_heap \<Rightarrow> meet_frame list \<times> ts_heap" where
  "meet_edge fr qEdge nEdge ph =
     (let (pushed, h) = ph in
      if nEdge = qEdge \<or> qEdge = CHR ''*''
      then
        let n = the (edge h (idx_node fr) nEdge);
            q = the (edge h (qNode fr) qEdge);
            fin = (final (node h n) \<and> final (node h q));
            (nxt, h') =
              (case edge h (out_node fr) nEdge of
                 Some m \<Rightarrow> (m, set_final m (final (node h m) \<or> fin) h)
               | None \<Rightarrow> let (m, h1) = new_TokenSet h in (m, set_edge (out_node fr) nEdge m (set_final m fin h1)))
        in (pushed @ [\<lparr>qNode = q, out_node = nxt, idx_node = n\<rparr>], h')
      else (pushed, h))"

definition meet_step :: "meet_frame \<Rightarrow> ts_heap \<Rightarrow> meet_frame list \<times> ts_heap" where
  "meet_step fr h =
     foldl (\<lambda>ph (q, n). meet_edge fr q n ph) ([], h)
       (concat (map (\<lambda>q. map (Pair q) (edge_keys h (idx_node fr))) (edge_keys h (qNode fr))))"

partial_function (option) meet_loop :: "meet_frame list \<Rightarrow> ts_heap \<Rightarrow> ts_heap option" where
  "meet_loop stack h =
     (case stack of
        [] \<Rightarrow> Some h
      | fr # rest \<Rightarrow> (case meet_step fr h of (pushed, h') \<Rightarrow> meet_loop (rev pushed @ rest) h'))"

declare meet_loop.simps [code]

definition TokenSet_intersect :: "nat \<Rightarrow> nat \<Rightarrow> ts_heap \<Rightarrow> (nat \<times> ts_heap) option" where
  "TokenSet_intersect this b h =
     (let (output, h1) = new_TokenSet h in
      map_option (Pair output) (meet_loop [\<lparr>qNode = b, out_node = output, idx_node = this\<rparr>] h1))"

section \<open>The words of a set\<close>

fun accepts :: "ts_heap \<Rightarrow> nat \<Rightarrow> string \<Rightarrow> bool" where
  "accepts h n [] = final (node h n)"
| "accepts h n (c # w) = (case edge h n c of None \<Rightarrow> False | Some m \<Rightarrow> accepts h m w)"

fun walk :: "ts_heap \<Rightarrow> nat \<Rightarrow> string \<Rightarrow> nat option" where
  "walk h n [] = Some n"
| "walk h n (c # w) = (case edge h n c of None \<Rightarrow> None | Some m \<Rightarrow> walk h m w)"

lemma edge_set_edge [simp]: "edge (set_edge n c m h) x = (if x = n then (edge h n)(c \<mapsto> m) else edge h x)"
  by (auto simp: edge_def set_edge_def)

lemma edge_set_final [simp]: "edge (set_final n b h) x = edge h x"
  by (auto simp: edge_def set_final_def)

lemma edge_set_str [simp]: "edge (set_str n s h) x = edge h x"
  by (auto simp: edge_def set_str_def)

lemma final_upd [simp]:
  "final (node (set_edge n c m h) x) = final (node h x)"
  "final (node (set_final n b h) x) = (if x = n then b else final (node h x))"
  "final (node (set_str n s h) x) = final (node h x)"
  by (auto simp: set_edge_def set_final_def set_str_def)

lemma cached_upd [simp]:
  "cached_str (node (set_edge n c m h) x) = cached_str (node h x)"
  "cached_str (node (set_final n b h) x) = cached_str (node h x)"
  "cached_str (node (set_str n s h) x) = (if x = n then Some s else cached_str (node h x))"
  by (auto simp: set_edge_def set_final_def set_str_def)

lemma nextId_upd [simp]:
  "nextId (set_edge n c m h) = nextId h" "nextId (set_final n b h) = nextId h" "nextId (set_str n s h) = nextId h"
  by (simp_all add: set_edge_def set_final_def set_str_def)

lemma node_other [simp]:
  "x \<noteq> n \<Longrightarrow> node (set_edge n c m h) x = node h x"
  "x \<noteq> n \<Longrightarrow> node (set_final n b h) x = node h x"
  "x \<noteq> n \<Longrightarrow> node (set_str n s h) x = node h x"
  by (simp_all add: set_edge_def set_final_def set_str_def)

lemma new_TokenSet_simps [simp]:
  "fst (new_TokenSet h) = nextId h"
  "nextId (snd (new_TokenSet h)) = nextId h + 1"
  "node (snd (new_TokenSet h)) = (node h)(nextId h := blank_node)"
  by (simp_all add: new_TokenSet_def)

lemma edge_new [simp]: "edge (snd (new_TokenSet h)) x = (if x = nextId h then Map.empty else edge h x)"
  by (auto simp: edge_def blank_node_def)

lemma new_TokenSet_pair: "new_TokenSet h = (nextId h, snd (new_TokenSet h))"
  by (simp add: new_TokenSet_def)

text \<open>Only finality and edges matter.\<close>
lemma accepts_cong:
  "(\<And>x. final (node h x) = final (node h' x)) \<Longrightarrow> (\<And>x. edge h x = edge h' x) \<Longrightarrow> accepts h n w = accepts h' n w"
  by (induction w arbitrary: n) (auto split: option.splits)

lemma accepts_set_str [simp]: "accepts (set_str n s h) x w = accepts h x w"
  by (rule accepts_cong) simp_all

text \<open>Two nodes with the same finality and edges accept the same words, and an edge may be redirected to a
  node that accepts the same words.\<close>
lemma accepts_same: "final (node h m) = final (node h n) \<Longrightarrow> edge h m = edge h n \<Longrightarrow> accepts h m w = accepts h n w"
  by (cases w) auto

lemma accepts_redirect:
  assumes "edge h p c = Some child" "\<And>w. accepts h m w = accepts h child w"
  shows "accepts (set_edge p c m h) x w = accepts h x w"
  using assms by (induction w arbitrary: x) (auto split: option.splits)

lemma accepts_set_final: "accepts (set_final z True h) x w \<longleftrightarrow> accepts h x w \<or> walk h x w = Some z"
  by (induction w arbitrary: x) (auto split: option.splits)

text \<open>A new leaf that is not final adds no word.\<close>
lemma accepts_new_leaf:
  assumes closed: "\<And>x c' y. x \<in> S \<Longrightarrow> edge h x c' = Some y \<Longrightarrow> y \<in> S" and old: "nextId h \<notin> S"
    and free: "edge h n c = None" and x: "x \<in> S"
  shows "accepts (set_edge n c (nextId h) (snd (new_TokenSet h))) x w = accepts h x w"
  using x
proof (induction w arbitrary: x)
  case Nil
  then have "x \<noteq> nextId h" using old by auto
  then show ?case by simp
next
  case (Cons c' w)
  let ?h = "set_edge n c (nextId h) (snd (new_TokenSet h))"
  have x: "x \<noteq> nextId h" using Cons.prems old by auto
  have leaf: "\<not> accepts ?h (nextId h) w" if "n \<noteq> nextId h"
    using that by (cases w) (auto simp: blank_node_def)
  show ?case
    using x Cons.IH closed [OF Cons.prems] free leaf by (auto split: option.splits)
qed

section \<open>The keys of nodes\<close>

text \<open>Without digits among the labels a key can be read back.\<close>
lemma key_decode:
  assumes "concat (map (\<lambda>c. c # show_nat (g c)) cs) = concat (map (\<lambda>c. c # show_nat (g' c)) cs')"
    "list_all (\<lambda>c. \<not> is_digit c) cs" "list_all (\<lambda>c. \<not> is_digit c) cs'"
  shows "cs = cs' \<and> (\<forall>c \<in> set cs. g c = g' c)"
  using assms
proof (induction cs arbitrary: cs')
  case Nil
  then show ?case by (cases cs') auto
next
  case (Cons c cs)
  then obtain ds where cs': "cs' = c # ds" by (cases cs') auto
  let ?k = "\<lambda>g cs. concat (map (\<lambda>c. c # show_nat (g c)) cs)"
  have eq: "show_nat (g c) @ ?k g cs = show_nat (g' c) @ ?k g' ds" using Cons.prems(1) cs' by simp
  have stop: "takeWhile is_digit (show_nat i @ ?k f es) = show_nat i \<and> dropWhile is_digit (show_nat i @ ?k f es) = ?k f es"
    if "list_all (\<lambda>c. \<not> is_digit c) es" for i f es
    using that show_nat_digits by (cases es) (simp_all add: takeWhile_append2 dropWhile_append2)
  have nd: "list_all (\<lambda>c. \<not> is_digit c) cs" "list_all (\<lambda>c. \<not> is_digit c) ds" using Cons.prems(2,3) cs' by auto
  note one = stop [OF nd(1), of "g c" g] and two = stop [OF nd(2), of "g' c" g']
  have "show_nat (g c) = show_nat (g' c)"
    using conjunct1 [OF one, unfolded eq] conjunct1 [OF two] by (rule trans [OF sym])
  moreover have "?k g cs = ?k g' ds"
    using conjunct2 [OF one, unfolded eq] conjunct2 [OF two] by (rule trans [OF sym])
  ultimately show ?case using Cons.IH [of ds] nd cs' by simp
qed

definition no_digit_labels :: "ts_heap \<Rightarrow> nat \<Rightarrow> bool" where
  "no_digit_labels h n \<longleftrightarrow> (\<forall>c. edge h n c \<noteq> None \<longrightarrow> \<not> is_digit c)"

lemma labels_edge: "c \<in> set (map fst (edges (node h n))) \<longleftrightarrow> edge h n c \<noteq> None"
  by (simp add: edge_def map_of_eq_None_iff)

lemma fresh_key_inj:
  assumes "fresh_key h m = fresh_key h n" "no_digit_labels h m" "no_digit_labels h n"
  shows "final (node h m) = final (node h n) \<and> edge h m = edge h n"
proof -
  let ?l = "\<lambda>n. sort (map fst (edges (node h n)))"
  let ?k = "\<lambda>n. concat (map (\<lambda>c. c # show_nat (the (edge h n c))) (?l n))"
  have fin: "final (node h m) = final (node h n)" "?k m = ?k n"
    using assms(1) by (auto simp: fresh_key_def split: if_splits)
  have "list_all (\<lambda>c. \<not> is_digit c) (?l m)" "list_all (\<lambda>c. \<not> is_digit c) (?l n)"
    using assms(2,3) labels_edge [of _ h] by (auto simp: list_all_iff no_digit_labels_def simp del: set_map)
  from key_decode [OF fin(2) this]
  have dec: "?l m = ?l n" "\<forall>c \<in> set (?l m). the (edge h m c) = the (edge h n c)" by (rule conjunct1, rule conjunct2)
  have "edge h m c = edge h n c" for c
  proof (cases "edge h m c")
    case None
    then have "c \<notin> set (?l m)" using labels_edge [of c h m] by simp
    then show ?thesis using None dec(1) labels_edge [of c h n] by simp
  next
    case (Some y)
    then have "c \<in> set (?l m)" using labels_edge [of c h m] by simp
    then have "the (edge h m c) = the (edge h n c)" using dec(2) by blast
    moreover have "edge h n c \<noteq> None"
      using \<open>c \<in> set (?l m)\<close> dec(1) labels_edge [of c h n] by simp
    ultimately show ?thesis using Some by auto
  qed
  then show ?thesis using fin(1) by auto
qed

lemma fresh_key_cong: "node h m = node h' m \<Longrightarrow> fresh_key h m = fresh_key h' m"
  by (simp add: fresh_key_def edge_def)

section \<open>The builder keeps the words\<close>

definition path_nodes :: "ts_builder \<Rightarrow> nat list" where
  "path_nodes b = root b # map (\<lambda>(p, c, m). m) (uncheckedNodes b)"

definition regs :: "ts_builder \<Rightarrow> nat list" where
  "regs b = map snd (minimizedNodes b)"

text \<open>The shape between two insertions.  The nodes not yet minimised are a path from the root, labelled by
  a start of the last word; every other edge leads to a registered node, a registered node only to nodes
  registered before it, and the labels at a node of the path are at most the letter of the last word
  there.  A registered node is filed under its key.\<close>
definition builder_ok :: "string \<Rightarrow> ts_builder \<Rightarrow> ts_heap \<Rightarrow> bool" where
  "builder_ok prev b h \<longleftrightarrow>
     (let ps = path_nodes b; n = length (uncheckedNodes b); rs = regs b in
      n \<le> length prev \<and>
      (\<forall>k<n. uncheckedNodes b ! k = (ps ! k, prev ! k, ps ! Suc k) \<and> edge h (ps ! k) (prev ! k) = Some (ps ! Suc k)) \<and>
      distinct ps \<and> set ps \<inter> set rs = {} \<and>
      (\<forall>x \<in> set ps \<union> set rs. x < nextId h \<and> no_digit_labels h x) \<and>
      (\<forall>k\<le>n. \<forall>c m. edge h (ps ! k) c = Some m \<longrightarrow>
         (k < n \<and> c = prev ! k \<or> m \<in> set rs) \<and> k < length prev \<and> c \<le> prev ! k) \<and>
      (\<forall>i<length rs. \<forall>c m. edge h (rs ! i) c = Some m \<longrightarrow> m \<in> set (take i rs)) \<and>
      (\<forall>(key, r) \<in> set (minimizedNodes b). fresh_key h r = key) \<and>
      (\<forall>x \<in> set ps. cached_str (node h x) = None))"

lemma length_path_nodes [simp]: "length (path_nodes b) = Suc (length (uncheckedNodes b))"
  by (simp add: path_nodes_def)

lemma last_path_nodes: "last (path_nodes b) = path_nodes b ! length (uncheckedNodes b)"
  using last_conv_nth [of "path_nodes b"] by (simp add: path_nodes_def del: last.simps)

lemma builder_okD:
  assumes "builder_ok prev b h"
  shows "length (uncheckedNodes b) \<le> length prev"
    and "\<And>k. k < length (uncheckedNodes b) \<Longrightarrow> uncheckedNodes b ! k = (path_nodes b ! k, prev ! k, path_nodes b ! Suc k)"
    and "\<And>k. k < length (uncheckedNodes b) \<Longrightarrow> edge h (path_nodes b ! k) (prev ! k) = Some (path_nodes b ! Suc k)"
    and "distinct (path_nodes b)" and "set (path_nodes b) \<inter> set (regs b) = {}"
    and "\<And>x. x \<in> set (path_nodes b) \<union> set (regs b) \<Longrightarrow> x < nextId h \<and> no_digit_labels h x"
    and "\<And>k c m. k \<le> length (uncheckedNodes b) \<Longrightarrow> edge h (path_nodes b ! k) c = Some m \<Longrightarrow>
      (k < length (uncheckedNodes b) \<and> c = prev ! k \<or> m \<in> set (regs b)) \<and> k < length prev \<and> c \<le> prev ! k"
    and "\<And>i c m. i < length (regs b) \<Longrightarrow> edge h (regs b ! i) c = Some m \<Longrightarrow> m \<in> set (take i (regs b))"
    and "\<And>key r. (key, r) \<in> set (minimizedNodes b) \<Longrightarrow> fresh_key h r = key"
    and "\<And>x. x \<in> set (path_nodes b) \<Longrightarrow> cached_str (node h x) = None"
  using assms by (auto simp: builder_ok_def Let_def)

text \<open>Registered nodes are closed under edges, and so are all nodes together.\<close>
lemma regs_closed:
  assumes "builder_ok prev b h" "r \<in> set (regs b)" "edge h r c = Some m"
  shows "m \<in> set (regs b)"
proof -
  obtain i where "i < length (regs b)" "regs b ! i = r" using assms(2) by (auto simp: in_set_conv_nth)
  then have "m \<in> set (take i (regs b))" using builder_okD(8) [OF assms(1)] assms(3) by blast
  then show ?thesis by (rule in_set_takeD)
qed

lemma nodes_closed:
  assumes "builder_ok prev b h" "x \<in> set (path_nodes b) \<union> set (regs b)" "edge h x c = Some m"
  shows "m \<in> set (path_nodes b) \<union> set (regs b)"
proof (cases "x \<in> set (regs b)")
  case True
  then show ?thesis using regs_closed [OF assms(1) _ assms(3)] by blast
next
  case False
  then obtain k where k: "k < length (path_nodes b)" "path_nodes b ! k = x"
    using assms(2) by (auto simp: in_set_conv_nth)
  let ?n = "length (uncheckedNodes b)"
  have "k < ?n \<and> c = prev ! k \<or> m \<in> set (regs b)" using builder_okD(7) [OF assms(1), of k c m] k assms(3) by simp
  then show ?thesis
  proof
    assume *: "k < ?n \<and> c = prev ! k"
    then have "m = path_nodes b ! Suc k" using builder_okD(3) [OF assms(1), of k] assms(3) k by simp
    then show ?thesis using * by (simp add: nth_mem del: set_append)
  qed simp
qed

lemma walk_regs: "builder_ok prev b h \<Longrightarrow> r \<in> set (regs b) \<Longrightarrow> walk h r w = Some m \<Longrightarrow> m \<in> set (regs b)"
  by (induction w arbitrary: r) (auto dest: regs_closed split: option.splits)

text \<open>The only way to the end of the path is along it.\<close>
lemma walk_path:
  assumes ok: "builder_ok prev b h" and "k \<le> length (uncheckedNodes b)"
  shows "walk h (path_nodes b ! k) w = Some (last (path_nodes b)) \<longleftrightarrow> w = drop k (take (length (uncheckedNodes b)) prev)"
  using assms(2)
proof (induction w arbitrary: k)
  case Nil
  let ?n = "length (uncheckedNodes b)"
  note last = last_path_nodes [of b]
  have "path_nodes b ! k = path_nodes b ! ?n \<longleftrightarrow> k = ?n"
    using builder_okD(4) [OF ok] Nil by (simp add: nth_eq_iff_index_eq)
  then show ?case using Nil builder_okD(1) [OF ok] by (auto simp: last)
next
  case (Cons c w)
  let ?n = "length (uncheckedNodes b)" and ?ps = "path_nodes b"
  have last: "last ?ps \<in> set ?ps" by (rule last_in_set) (simp add: path_nodes_def)
  have tail: "drop k (take ?n prev) = (if k < ?n then prev ! k # drop (Suc k) (take ?n prev) else [])"
  proof (cases "k < ?n")
    case True
    then have "k < length (take ?n prev)" "take ?n prev ! k = prev ! k" using builder_okD(1) [OF ok] by simp_all
    then show ?thesis using True Cons_nth_drop_Suc [of k "take ?n prev"] by simp
  qed simp
  show ?case
  proof (cases "k < ?n \<and> c = prev ! k")
    case True
    then show ?thesis using Cons.IH [of "Suc k"] builder_okD(3) [OF ok, of k] tail by simp
  next
    case False
    have "walk h (?ps ! k) (c # w) \<noteq> Some (last ?ps)"
    proof
      assume w: "walk h (?ps ! k) (c # w) = Some (last ?ps)"
      then obtain m where m: "edge h (?ps ! k) c = Some m" "walk h m w = Some (last ?ps)" by (auto split: option.splits)
      then have "m \<in> set (regs b)" using builder_okD(7) [OF ok Cons.prems m(1)] False by blast
      then show False using walk_regs [OF ok _ m(2)] last builder_okD(5) [OF ok] by blast
    qed
    then show ?thesis using False tail by auto
  qed
qed

text \<open>One turn of \<open>minimize\<close>.\<close>
definition minimize_step :: "ts_builder \<Rightarrow> ts_heap \<Rightarrow> ts_builder \<times> ts_heap" where
  "minimize_step b h =
     (let (parent, c, child) = last (uncheckedNodes b);
          childKey = TokenSet_toString h child
      in case map_of (minimizedNodes b) childKey of
           Some m \<Rightarrow> (b\<lparr>uncheckedNodes := butlast (uncheckedNodes b)\<rparr>, set_edge parent c m h)
         | None \<Rightarrow> (b\<lparr>minimizedNodes := AList.update childKey child (minimizedNodes b),
             uncheckedNodes := butlast (uncheckedNodes b)\<rparr>, set_str child childKey h))"

lemma Builder_minimize_step:
  "Builder_minimize d b h =
     (if length (uncheckedNodes b) \<le> d then (b, h)
      else case minimize_step b h of (b', h') \<Rightarrow> Builder_minimize d b' h')"
  by (subst Builder_minimize.simps) (simp add: minimize_step_def Let_def split: prod.split option.split)

lemma update_new: "map_of kvs k = None \<Longrightarrow> AList.update k v kvs = kvs @ [(k, v)]"
  by (induction kvs) (auto split: if_splits)

text \<open>Registering the last node of the path changes nothing but its cached string.\<close>
lemma minimize_register_ok:
  assumes ok: "builder_ok prev b h" and un: "uncheckedNodes b = us @ [(p, c, child)]"
    and key: "map_of (minimizedNodes b) (fresh_key h child) = None"
  defines "b' \<equiv> b\<lparr>minimizedNodes := minimizedNodes b @ [(fresh_key h child, child)], uncheckedNodes := us\<rparr>"
    and "h' \<equiv> set_str child (fresh_key h child) h"
  shows "builder_ok prev b' h'"
proof -
  have ps: "path_nodes b = path_nodes b' @ [child]" and rs: "regs b' = regs b @ [child]"
    by (simp_all add: path_nodes_def regs_def b'_def un)
  have n: "length (uncheckedNodes b) = Suc (length us)" "length (uncheckedNodes b') = length us"
    by (simp_all add: un b'_def)
  have nth: "path_nodes b ! k = path_nodes b' ! k" if "k \<le> length us" for k
    using that n by (simp add: ps nth_append)
  have child: "path_nodes b ! Suc (length us) = child" using n by (simp add: ps nth_append)
  have e: "edge h' = edge h" by (auto simp: h'_def)
  have no_edge: "m \<in> set (regs b)" if "edge h child c' = Some m" for c' m
    using builder_okD(7) [OF ok, of "Suc (length us)" c' m] that child n by simp
  have keys: "fresh_key h' r = fresh_key h r" for r
    by (cases "r = child") (auto simp: h'_def fresh_key_def edge_def set_str_def)
  show ?thesis
    unfolding builder_ok_def Let_def n(2)
  proof (intro conjI allI impI ballI)
    show "length us \<le> length prev" using builder_okD(1) [OF ok] n by simp
    show "distinct (path_nodes b')" "set (path_nodes b') \<inter> set (regs b') = {}"
      using builder_okD(4,5) [OF ok] by (auto simp: ps rs)
  next
    fix k assume k: "k < length us"
    show "uncheckedNodes b' ! k = (path_nodes b' ! k, prev ! k, path_nodes b' ! Suc k)"
      using builder_okD(2) [OF ok, of k] k n nth [of k] nth [of "Suc k"] by (simp add: un nth_append b'_def)
    show "edge h' (path_nodes b' ! k) (prev ! k) = Some (path_nodes b' ! Suc k)"
      using builder_okD(3) [OF ok, of k] k n nth [of k] nth [of "Suc k"] by (simp add: e)
  next
    fix x assume "x \<in> set (path_nodes b') \<union> set (regs b')"
    then have "x < nextId h \<and> no_digit_labels h x"
      using builder_okD(6) [OF ok, of x] by (auto simp: ps rs)
    then show "x < nextId h'" "no_digit_labels h' x" by (auto simp: h'_def no_digit_labels_def)
  next
    fix k c' m assume k: "k \<le> length us" and m: "edge h' (path_nodes b' ! k) c' = Some m"
    have m': "edge h (path_nodes b ! k) c' = Some m" using m nth [OF k] by (simp add: e)
    from builder_okD(7) [OF ok _ m'] k n
    have old: "(k < Suc (length us) \<and> c' = prev ! k \<or> m \<in> set (regs b)) \<and> k < length prev \<and> c' \<le> prev ! k" by simp
    moreover have "m = child" if "k = length us" "c' = prev ! k"
      using builder_okD(3) [OF ok, of k] that m' child n by simp
    ultimately show "k < length us \<and> c' = prev ! k \<or> m \<in> set (regs b')" "k < length prev" "c' \<le> prev ! k"
      using le_neq_implies_less [OF k] by (auto simp: rs)
  next
    fix i c' m assume i: "i < length (regs b')" and m: "edge h' (regs b' ! i) c' = Some m"
    show "m \<in> set (take i (regs b'))"
    proof (cases "i < length (regs b)")
      case True
      then show ?thesis using builder_okD(8) [OF ok True, of c' m] m by (simp add: rs e nth_append)
    next
      case False
      then have "i = length (regs b)" using i by (simp add: rs)
      then show ?thesis using no_edge [of c' m] m by (simp add: rs e)
    qed
  next
    fix kr assume "kr \<in> set (minimizedNodes b')"
    then show "case kr of (key, r) \<Rightarrow> fresh_key h' r = key"
      using builder_okD(9) [OF ok] by (auto simp: b'_def keys)
  next
    fix x assume x: "x \<in> set (path_nodes b')"
    then have "x \<noteq> child" using builder_okD(4) [OF ok] by (auto simp: ps)
    then show "cached_str (node h' x) = None" using builder_okD(10) [OF ok, of x] x by (simp add: ps h'_def)
  qed
qed

text \<open>Redirecting the edge to the last node of the path to the registered node with the same key.\<close>
lemma minimize_redirect_ok:
  assumes ok: "builder_ok prev b h" and un: "uncheckedNodes b = us @ [(p, c, child)]"
    and key: "map_of (minimizedNodes b) (fresh_key h child) = Some m"
  defines "b' \<equiv> b\<lparr>uncheckedNodes := us\<rparr>" and "h' \<equiv> set_edge p c m h"
  shows "builder_ok prev b' h' \<and> (\<forall>x w. accepts h' x w = accepts h x w)"
proof -
  have ps: "path_nodes b = path_nodes b' @ [child]" and rs: "regs b' = regs b"
    by (simp_all add: path_nodes_def regs_def b'_def un)
  have n: "length (uncheckedNodes b) = Suc (length us)" "length (uncheckedNodes b') = length us"
    by (simp_all add: un b'_def)
  have nth: "path_nodes b ! k = path_nodes b' ! k" if "k \<le> length us" for k
    using that n by (simp add: ps nth_append)
  have child: "path_nodes b ! Suc (length us) = child" using n by (simp add: ps nth_append)
  have p: "p = path_nodes b' ! length us" "c = prev ! length us"
    using builder_okD(2) [OF ok, of "length us"] n nth [of "length us"] by (simp_all add: un nth_append)
  have edge_p: "edge h p c = Some child"
    using builder_okD(3) [OF ok, of "length us"] n nth [of "length us"] child p by simp
  have m: "m \<in> set (regs b)" "fresh_key h m = fresh_key h child"
    using map_of_SomeD [OF key] builder_okD(9) [OF ok] by (force simp: regs_def)+
  have pP: "p \<in> set (path_nodes b')" using n p by (simp add: nth_mem)
  have pR: "p \<notin> set (regs b)" using pP builder_okD(5) [OF ok] by (auto simp: ps)
  have same: "accepts h m w = accepts h child w" for w
  proof -
    have "no_digit_labels h m" "no_digit_labels h child" using builder_okD(6) [OF ok] m(1) by (auto simp: ps)
    from fresh_key_inj [OF m(2) this] show ?thesis by (intro accepts_same) auto
  qed
  have "builder_ok prev b' h'"
    unfolding builder_ok_def Let_def n(2)
  proof (intro conjI allI impI ballI)
    show "length us \<le> length prev" using builder_okD(1) [OF ok] n by simp
    show "distinct (path_nodes b')" "set (path_nodes b') \<inter> set (regs b') = {}"
      using builder_okD(4,5) [OF ok] by (auto simp: ps rs)
  next
    fix k assume k: "k < length us"
    show "uncheckedNodes b' ! k = (path_nodes b' ! k, prev ! k, path_nodes b' ! Suc k)"
      using builder_okD(2) [OF ok, of k] k n nth [of k] nth [of "Suc k"] by (simp add: un nth_append b'_def)
    have "path_nodes b' ! k \<noteq> p"
      using builder_okD(4) [OF ok] k p n(2) by (simp add: ps nth_eq_iff_index_eq)
    then show "edge h' (path_nodes b' ! k) (prev ! k) = Some (path_nodes b' ! Suc k)"
      using builder_okD(3) [OF ok, of k] k n nth [of k] nth [of "Suc k"] by (simp add: h'_def)
  next
    fix x assume "x \<in> set (path_nodes b') \<union> set (regs b')"
    then have "x < nextId h \<and> no_digit_labels h x"
      using builder_okD(6) [OF ok, of x] by (auto simp: ps rs)
    then show "x < nextId h'" "no_digit_labels h' x" using edge_p by (auto simp: h'_def no_digit_labels_def)
  next
    fix k c' y assume k: "k \<le> length us" and y: "edge h' (path_nodes b' ! k) c' = Some y"
    have "path_nodes b' ! k = p \<longleftrightarrow> k = length us"
      using builder_okD(4) [OF ok] k p n(2) by (simp add: ps nth_eq_iff_index_eq)
    moreover have "(k < Suc (length us) \<and> c' = prev ! k \<or> z \<in> set (regs b)) \<and> k < length prev \<and> c' \<le> prev ! k"
      if "edge h (path_nodes b' ! k) c' = Some z" for z
      using builder_okD(7) [OF ok, of k c' z] that k n nth [OF k] by simp
    ultimately show "k < length us \<and> c' = prev ! k \<or> y \<in> set (regs b')" "k < length prev" "c' \<le> prev ! k"
      using y m(1) p edge_p k by (auto simp: h'_def rs split: if_splits)
  next
    fix i c' y assume i: "i < length (regs b')" and y: "edge h' (regs b' ! i) c' = Some y"
    have "regs b ! i \<noteq> p" using pR i by (auto simp: rs)
    then show "y \<in> set (take i (regs b'))" using builder_okD(8) [OF ok, of i c' y] i y by (simp add: rs h'_def)
  next
    fix kr assume kr: "kr \<in> set (minimizedNodes b')"
    then have "snd kr \<noteq> p" using pR by (force simp: regs_def b'_def)
    then have "fresh_key h' (snd kr) = fresh_key h (snd kr)" by (intro fresh_key_cong) (simp add: h'_def)
    then show "case kr of (key, r) \<Rightarrow> fresh_key h' r = key"
      using builder_okD(9) [OF ok, of "fst kr" "snd kr"] kr by (auto simp: b'_def split: prod.splits)
  next
    fix x assume x: "x \<in> set (path_nodes b')"
    then show "cached_str (node h' x) = None" using builder_okD(10) [OF ok, of x] by (simp add: ps h'_def)
  qed
  then show ?thesis using accepts_redirect [OF edge_p same] by (simp add: h'_def)
qed

lemma minimize_step_ok:
  assumes ok: "builder_ok prev b h" and ne: "uncheckedNodes b \<noteq> []" and st: "minimize_step b h = (b', h')"
  shows "builder_ok prev b' h' \<and> root b' = root b \<and> previousWord b' = previousWord b \<and>
    length (uncheckedNodes b') = length (uncheckedNodes b) - 1 \<and> (\<forall>x w. accepts h' x w = accepts h x w)"
proof -
  obtain us p c child where un: "uncheckedNodes b = us @ [(p, c, child)]"
    using ne by (metis prod_cases3 rev_exhaust)
  have "child \<in> set (path_nodes b)" by (simp add: path_nodes_def un)
  then have key: "TokenSet_toString h child = fresh_key h child"
    using builder_okD(10) [OF ok] by (simp add: TokenSet_toString_def)
  show ?thesis
  proof (cases "map_of (minimizedNodes b) (fresh_key h child)")
    case None
    then show ?thesis
      using st minimize_register_ok [OF ok un None] by (auto simp: minimize_step_def un key update_new Let_def)
  next
    case (Some m)
    then show ?thesis
      using st minimize_redirect_ok [OF ok un Some] by (auto simp: minimize_step_def un key Let_def)
  qed
qed

lemma Builder_minimize_ok:
  "builder_ok prev b h \<Longrightarrow> Builder_minimize d b h = (b', h') \<Longrightarrow>
     builder_ok prev b' h' \<and> root b' = root b \<and> previousWord b' = previousWord b \<and>
     length (uncheckedNodes b') = min d (length (uncheckedNodes b)) \<and> (\<forall>x w. accepts h' x w = accepts h x w)"
proof (induction "length (uncheckedNodes b)" arbitrary: b h)
  case 0
  then show ?case by (subst (asm) Builder_minimize_step) simp
next
  case (Suc n)
  show ?case
  proof (cases "length (uncheckedNodes b) \<le> d")
    case True
    then show ?thesis using Suc.prems by (subst (asm) Builder_minimize_step) (auto simp: min_def)
  next
    case False
    obtain b1 h1 where st: "minimize_step b h = (b1, h1)" by fastforce
    have "uncheckedNodes b \<noteq> []" using Suc.hyps(2) by auto
    from minimize_step_ok [OF Suc.prems(1) this st]
    have b1: "builder_ok prev b1 h1" "root b1 = root b" "previousWord b1 = previousWord b"
      "length (uncheckedNodes b1) = n" "\<And>x w. accepts h1 x w = accepts h x w"
      using Suc.hyps(2) by auto
    moreover have "Builder_minimize d b1 h1 = (b', h')"
      using Suc.prems(2) False st by (subst (asm) Builder_minimize_step) simp
    ultimately show ?thesis using Suc.hyps(1) [of b1 h1] Suc.hyps(2) False by auto
  qed
qed

lemma commonPrefix_take: "take (commonPrefix v w) v = take (commonPrefix v w) w"
  by (induction v w rule: commonPrefix.induct) auto

lemma commonPrefix_le: "commonPrefix v w \<le> length v" "commonPrefix v w \<le> length w"
  by (induction v w rule: commonPrefix.induct) auto

text \<open>A word that is not smaller than the one before goes up where the two part.\<close>
lemma commonPrefix_less:
  "\<not> w < v \<Longrightarrow> commonPrefix w v < length v \<Longrightarrow>
     commonPrefix w v < length w \<and> v ! commonPrefix w v < w ! commonPrefix w v"
  by (induction w v rule: commonPrefix.induct) (auto simp: neq_Nil_conv split: if_splits)

lemma nth_commonPrefix: "k < commonPrefix v w \<Longrightarrow> v ! k = w ! k"
  by (metis commonPrefix_take nth_take)

text \<open>After the common start is left on the path, the shape is right for the new word too, and its next
  letter is free.\<close>
lemma builder_ok_switch:
  assumes ok: "builder_ok prev b h" and len: "length (uncheckedNodes b) = commonPrefix word prev" and ge: "\<not> word < prev"
  shows "builder_ok word b h"
    and "commonPrefix word prev < length word \<Longrightarrow> edge h (last (path_nodes b)) (word ! commonPrefix word prev) = None"
proof -
  let ?cp = "commonPrefix word prev"
  have eq: "word ! k = prev ! k" if "k < ?cp" for k using nth_commonPrefix [OF that] .
  have lastlab: "?cp < length word \<and> c < word ! ?cp" if e: "edge h (path_nodes b ! ?cp) c = Some m" for c m
  proof -
    have "?cp < length prev" "c \<le> prev ! ?cp" using builder_okD(7) [OF ok, of ?cp c m] e len by auto
    then show ?thesis using commonPrefix_less [OF ge] by auto
  qed
  have labels: "(k < ?cp \<and> c = word ! k \<or> m \<in> set (regs b)) \<and> k < length word \<and> c \<le> word ! k"
    if k: "k \<le> ?cp" and e: "edge h (path_nodes b ! k) c = Some m" for k c m
  proof (cases "k < ?cp")
    case True
    then show ?thesis
      using builder_okD(7) [OF ok, of k c m] e len eq [OF True] commonPrefix_le(1) [of word prev] by auto
  next
    case False
    then have "k = ?cp" using k by simp
    then show ?thesis using builder_okD(7) [OF ok, of k c m] e len lastlab [of c m] by auto
  qed
  show "builder_ok word b h"
    unfolding builder_ok_def Let_def len
    using builder_okD [OF ok, unfolded len] commonPrefix_le(1) [of word prev] eq labels by auto
  have last: "last (path_nodes b) = path_nodes b ! ?cp" using len by (simp add: last_path_nodes)
  show "edge h (last (path_nodes b)) (word ! ?cp) = None"
    using lastlab [of "word ! ?cp"] last by (cases "edge h (path_nodes b ! ?cp) (word ! ?cp)") auto
qed

text \<open>Appending one node to the path.\<close>
lemma add_node_ok:
  assumes ok: "builder_ok word b h" and c: "word = map (\<lambda>(p, c, m). c) (uncheckedNodes b) @ c # cs" and nd: "\<not> is_digit c"
    and n: "n = last (path_nodes b)" and free: "edge h n c = None"
  defines "m \<equiv> nextId h"
  defines "b' \<equiv> b\<lparr>uncheckedNodes := uncheckedNodes b @ [(n, c, m)]\<rparr>" and "h' \<equiv> set_edge n c m (snd (new_TokenSet h))"
  shows "builder_ok word b' h'" and "edge h' m = Map.empty" and "m = last (path_nodes b')"
    and "\<And>w. accepts h' (root b) w = accepts h (root b) w"
proof -
  let ?u = "length (uncheckedNodes b)"
  have ps: "path_nodes b' = path_nodes b @ [m]" and rs: "regs b' = regs b"
    by (simp_all add: path_nodes_def regs_def b'_def)
  have wu: "word ! ?u = c" "?u < length word" using c by (simp_all add: nth_append)
  have nP: "n = path_nodes b ! ?u" using n by (simp add: last_path_nodes)
  have nin: "n \<in> set (path_nodes b)" using nP by (simp add: nth_mem)
  have old: "x < m" if "x \<in> set (path_nodes b) \<union> set (regs b)" for x
    using builder_okD(6) [OF ok that] by (simp add: m_def)
  have nm: "n \<noteq> m" using old [of n] nin by auto
  have nR: "n \<notin> set (regs b)" using nin builder_okD(5) [OF ok] by auto
  have e: "edge h' x = (if x = n then (edge h n)(c \<mapsto> m) else if x = m then Map.empty else edge h x)" for x
    using nm by (auto simp: h'_def m_def)
  have nth: "path_nodes b' ! k = path_nodes b ! k" if "k \<le> ?u" for k using that by (simp add: ps nth_append)
  have nth_m: "path_nodes b' ! Suc ?u = m" by (simp add: ps nth_append)
  show "edge h' m = Map.empty" using nm by (simp add: e)
  show "m = last (path_nodes b')" by (simp add: ps)
  have isn: "path_nodes b ! k = n \<longleftrightarrow> k = ?u" if "k \<le> ?u" for k
    using builder_okD(4) [OF ok] that nP by (simp add: nth_eq_iff_index_eq)
  have len: "length (uncheckedNodes b') = Suc ?u" by (simp add: b'_def)
  show "builder_ok word b' h'"
    unfolding builder_ok_def Let_def len
  proof (intro conjI allI impI ballI)
    show "Suc ?u \<le> length word" using wu by simp
    show "distinct (path_nodes b')" "set (path_nodes b') \<inter> set (regs b') = {}"
      using builder_okD(4,5) [OF ok] old by (force simp: ps rs)+
  next
    fix k assume k: "k < Suc ?u"
    show "uncheckedNodes b' ! k = (path_nodes b' ! k, word ! k, path_nodes b' ! Suc k)"
      using k builder_okD(2) [OF ok, of k] nth [of k] nth [of "Suc k"] nth_m nP wu
      by (cases "k = ?u") (auto simp: b'_def nth_append)
    show "edge h' (path_nodes b' ! k) (word ! k) = Some (path_nodes b' ! Suc k)"
    proof (cases "k = ?u")
      case True
      then show ?thesis using nth [of k] nth_m nP wu by (simp add: e)
    next
      case False
      then have k': "k < ?u" using k by simp
      then have "path_nodes b ! k \<noteq> n" "path_nodes b ! k \<noteq> m"
        using isn [of k] old [of "path_nodes b ! k"] by (simp_all add: nth_mem less_imp_neq)
      then show ?thesis using builder_okD(3) [OF ok k'] nth [of k] nth [of "Suc k"] k' by (simp add: e)
    qed
  next
    fix x assume "x \<in> set (path_nodes b') \<union> set (regs b')"
    then consider "x = m" | "x \<in> set (path_nodes b) \<union> set (regs b)" by (auto simp: ps rs)
    then show "x < nextId h'" "no_digit_labels h' x"
      using builder_okD(6) [OF ok, of x] nd
      by (cases; auto simp: h'_def m_def no_digit_labels_def split: if_splits)+
  next
    fix k c' y assume k: "k \<le> Suc ?u" and y: "edge h' (path_nodes b' ! k) c' = Some y"
    show "k < Suc ?u \<and> c' = word ! k \<or> y \<in> set (regs b')" "k < length word" "c' \<le> word ! k"
    proof -
      have kn: "k \<noteq> Suc ?u" using y nth_m nm by (auto simp: e)
      then have k': "k \<le> ?u" using k by simp
      have "(k < Suc ?u \<and> c' = word ! k \<or> y \<in> set (regs b')) \<and> k < length word \<and> c' \<le> word ! k"
      proof (cases "k = ?u \<and> c' = c")
        case True
        then show ?thesis using wu by simp
      next
        case False
        have "path_nodes b ! k \<noteq> m" using old [of "path_nodes b ! k"] k' by (simp add: nth_mem less_imp_neq)
        then have "edge h (path_nodes b ! k) c' = Some y"
          using y nth [OF k'] isn [OF k'] False by (auto simp: e split: if_splits)
        then show ?thesis using builder_okD(7) [OF ok k', of c' y] k' by (auto simp: rs)
      qed
      then show "k < Suc ?u \<and> c' = word ! k \<or> y \<in> set (regs b')" "k < length word" "c' \<le> word ! k" by auto
    qed
  next
    fix i c' y assume i: "i < length (regs b')" and y: "edge h' (regs b' ! i) c' = Some y"
    have "regs b ! i \<in> set (regs b)" using i by (simp add: rs)
    then have "regs b ! i \<noteq> n" "regs b ! i \<noteq> m" using nR old by fastforce+
    then show "y \<in> set (take i (regs b'))" using builder_okD(8) [OF ok, of i c' y] i y by (simp add: rs e)
  next
    fix kr assume kr: "kr \<in> set (minimizedNodes b')"
    then have r: "snd kr \<in> set (regs b)" by (simp add: regs_def b'_def)
    then have "snd kr \<noteq> n" "snd kr \<noteq> m" using nR old by fastforce+
    then have "fresh_key h' (snd kr) = fresh_key h (snd kr)"
      by (intro fresh_key_cong) (simp add: h'_def m_def)
    then show "case kr of (key, r) \<Rightarrow> fresh_key h' r = key"
      using builder_okD(9) [OF ok, of "fst kr" "snd kr"] kr by (auto simp: b'_def split: prod.splits)
  next
    fix x assume "x \<in> set (path_nodes b')"
    then show "cached_str (node h' x) = None"
      using builder_okD(10) [OF ok, of x] by (auto simp: ps h'_def m_def blank_node_def)
  qed
  show "accepts h' (root b) w = accepts h (root b) w" for w
    unfolding h'_def m_def
  proof (rule accepts_new_leaf [where S = "set (path_nodes b) \<union> set (regs b)"])
    show "root b \<in> set (path_nodes b) \<union> set (regs b)" by (simp add: path_nodes_def)
    show "nextId h \<notin> set (path_nodes b) \<union> set (regs b)" using old by (fastforce simp: m_def)
  qed (use nodes_closed [OF ok] free in auto)
qed

definition path_labels :: "ts_builder \<Rightarrow> string" where
  "path_labels b = map (\<lambda>(p, c, m). c) (uncheckedNodes b)"

lemma path_labels_take: "builder_ok prev b h \<Longrightarrow> path_labels b = take (length (uncheckedNodes b)) prev"
  using builder_okD(1,2) [of prev b h] by (intro nth_equalityI) (simp_all add: path_labels_def)

lemma add_nodes_ok:
  assumes "add_nodes n cs b h = (n', b', h')" "builder_ok word b h" "word = path_labels b @ cs"
    "list_all (\<lambda>c. \<not> is_digit c) cs" "n = last (path_nodes b)" "cs \<noteq> [] \<Longrightarrow> edge h n (hd cs) = None"
  shows "builder_ok word b' h' \<and> path_labels b' = word \<and> n' = last (path_nodes b') \<and> root b' = root b \<and>
    previousWord b' = previousWord b \<and> (\<forall>w. accepts h' (root b) w = accepts h (root b) w)"
  using assms
proof (induction cs arbitrary: n b h)
  case (Cons c cs)
  define b1 where "b1 = b\<lparr>uncheckedNodes := uncheckedNodes b @ [(n, c, nextId h)]\<rparr>"
  define h1 where "h1 = set_edge n c (nextId h) (snd (new_TokenSet h))"
  have wd: "word = map (\<lambda>(p, c, m). c) (uncheckedNodes b) @ c # cs" using Cons.prems(3) by (simp add: path_labels_def)
  have nd: "\<not> is_digit c" using Cons.prems(4) by simp
  have free: "edge h n c = None" using Cons.prems(6) by simp
  note ok = add_node_ok [OF Cons.prems(2) wd nd Cons.prems(5) free, folded b1_def h1_def]
  have "add_nodes (nextId h) cs b1 h1 = (n', b', h')"
    using Cons.prems(1) by (simp add: Let_def b1_def h1_def split: prod.splits) (simp add: new_TokenSet_def)
  moreover have "word = path_labels b1 @ cs" using wd by (simp add: path_labels_def b1_def)
  moreover have "edge h1 (nextId h) (hd cs) = None" using ok(2) by simp
  ultimately have "builder_ok word b' h' \<and> path_labels b' = word \<and> n' = last (path_nodes b') \<and> root b' = root b1 \<and>
      previousWord b' = previousWord b1 \<and> (\<forall>w. accepts h' (root b1) w = accepts h1 (root b1) w)"
    using Cons.IH [of "nextId h" b1 h1] ok(1,3) Cons.prems(4) by simp
  then show ?case using ok(4) by (simp add: b1_def)
qed simp

lemma builder_ok_set_final:
  assumes ok: "builder_ok word b h" and z: "z \<in> set (path_nodes b)"
  shows "builder_ok word b (set_final z v h)"
proof -
  have "fresh_key (set_final z v h) r = key" if "(key, r) \<in> set (minimizedNodes b)" for key r
  proof -
    have "r \<noteq> z" using that z builder_okD(5) [OF ok] by (force simp: regs_def)
    then show ?thesis using builder_okD(9) [OF ok that] fresh_key_cong [of h r "set_final z v h"] by simp
  qed
  then show ?thesis
    using builder_okD [OF ok] unfolding builder_ok_def Let_def by (auto simp: no_digit_labels_def)
qed

lemma builder_ok_previousWord [simp]: "builder_ok prev (b\<lparr>previousWord := v\<rparr>) h = builder_ok prev b h"
  by (simp add: builder_ok_def path_nodes_def regs_def)

text \<open>Between two insertions: the shape, and exactly the words inserted.\<close>
definition built :: "string set \<Rightarrow> ts_builder \<Rightarrow> ts_heap \<Rightarrow> bool" where
  "built W b h \<longleftrightarrow> builder_ok (previousWord b) b h \<and> path_labels b = previousWord b \<and>
     (\<forall>w. accepts h (root b) w \<longleftrightarrow> w \<in> W)"

lemma Builder_insert_built:
  assumes b: "built W b h" and nd: "list_all (\<lambda>c. \<not> is_digit c) word" and ge: "\<not> word < previousWord b"
  shows "\<exists>b' h'. Builder_insert word b h = Inr (b', h') \<and> built (insert word W) b' h' \<and>
    previousWord b' = word \<and> root b' = root b"
proof -
  let ?prev = "previousWord b" and ?cp = "commonPrefix word (previousWord b)"
  have ok: "builder_ok ?prev b h" and lab: "path_labels b = ?prev" and acc: "\<And>w. accepts h (root b) w \<longleftrightarrow> w \<in> W"
    using b by (auto simp: built_def)
  obtain b1 h1 where min: "Builder_minimize ?cp b h = (b1, h1)" by fastforce
  have "length (uncheckedNodes b) = length ?prev" using lab by (metis length_map path_labels_def)
  then have b1: "builder_ok ?prev b1 h1" "root b1 = root b" "length (uncheckedNodes b1) = ?cp"
      "\<And>x w. accepts h1 x w = accepts h x w"
    using Builder_minimize_ok [OF ok min] commonPrefix_le(2) [of word ?prev] by auto
  note sw = builder_ok_switch [OF b1(1,3) ge]
  have n: "(if uncheckedNodes b1 = [] then root b1 else snd (snd (last (uncheckedNodes b1)))) = last (path_nodes b1)"
    by (simp add: path_nodes_def last_map split: prod.splits)
  obtain n' b2 h2 where add: "add_nodes (last (path_nodes b1)) (drop ?cp word) b1 h1 = (n', b2, h2)"
    by (metis prod_cases3)
  have "word = path_labels b1 @ drop ?cp word"
    using path_labels_take [OF sw(1)] b1(3) by simp
  moreover have "edge h1 (last (path_nodes b1)) (hd (drop ?cp word)) = None" if "drop ?cp word \<noteq> []"
    using sw(2) that by (simp add: hd_drop_conv_nth)
  moreover have "list_all (\<lambda>c. \<not> is_digit c) (drop ?cp word)" using nd by (auto simp: list_all_iff dest: in_set_dropD)
  ultimately have b2: "builder_ok word b2 h2" "path_labels b2 = word" "n' = last (path_nodes b2)" "root b2 = root b1"
      "\<And>w. accepts h2 (root b1) w = accepts h1 (root b1) w"
    using add_nodes_ok [OF add sw(1)] by auto
  have len: "length (uncheckedNodes b2) = length word" using b2(2) by (metis length_map path_labels_def)
  have n'in: "n' \<in> set (path_nodes b2)" unfolding b2(3) by (rule last_in_set) (simp add: path_nodes_def)
  have "walk h2 (root b2) w = Some n' \<longleftrightarrow> w = word" for w
    using walk_path [OF b2(1), of 0 w] b2(3) len by (simp add: path_nodes_def)
  then have "accepts (set_final n' True h2) (root b2) w \<longleftrightarrow> w \<in> insert word W" for w
    using b2(4,5) b1(2,4) acc by (auto simp: accepts_set_final)
  then have "built (insert word W) (b2\<lparr>previousWord := word\<rparr>) (set_final n' True h2)"
    using builder_ok_set_final [OF b2(1) n'in] b2(2) by (simp add: built_def path_labels_def)
  moreover have "Builder_insert word b h = Inr (b2\<lparr>previousWord := word\<rparr>, set_final n' True h2)"
    using ge by (simp add: Builder_insert_def Let_def min n add)
  ultimately show ?thesis using b2(4) b1(2) by simp
qed

lemma insert_all_built:
  assumes "built W b h" "list_all (list_all (\<lambda>c. \<not> is_digit c)) ws" "sorted (previousWord b # ws)"
  shows "\<exists>b' h'. insert_all ws b h = Inr (b', h') \<and> built (W \<union> set ws) b' h' \<and> root b' = root b"
  using assms
proof (induction ws arbitrary: W b h)
  case (Cons w ws)
  have "\<not> w < previousWord b" using Cons.prems(3) by (simp add: not_less)
  then obtain b1 h1 where b1: "Builder_insert w b h = Inr (b1, h1)" "built (insert w W) b1 h1"
      "previousWord b1 = w" "root b1 = root b"
    using Builder_insert_built [OF Cons.prems(1), of w] Cons.prems(2) by auto
  then show ?case using Cons.IH [OF b1(2)] Cons.prems(2,3) by auto
qed auto

text \<open>Inserting a sorted list of words into a new builder and finishing it.\<close>
lemma new_builder_built:
  "new_Builder h = (\<lparr>previousWord = [], root = nextId h, uncheckedNodes = [], minimizedNodes = []\<rparr>, snd (new_TokenSet h))"
  "built {} \<lparr>previousWord = [], root = nextId h, uncheckedNodes = [], minimizedNodes = []\<rparr> (snd (new_TokenSet h))"
proof -
  have "accepts (snd (new_TokenSet h)) (nextId h) w \<longleftrightarrow> w \<in> {}" for w
    by (cases w) (auto simp: blank_node_def)
  then show "built {} \<lparr>previousWord = [], root = nextId h, uncheckedNodes = [], minimizedNodes = []\<rparr> (snd (new_TokenSet h))"
    by (simp add: built_def builder_ok_def path_nodes_def regs_def path_labels_def blank_node_def no_digit_labels_def)
qed (simp add: new_Builder_def new_TokenSet_def)

lemma builder_builds:
  assumes "sorted ws" "list_all (list_all (\<lambda>c. \<not> is_digit c)) ws"
  shows "\<exists>b h1 b' h'. insert_all ws (fst (new_Builder h)) (snd (new_Builder h)) = Inr (b, h1) \<and>
    Builder_finish b h1 = (b', h') \<and> root b' = nextId h \<and> builder_ok (previousWord b) b' h' \<and> uncheckedNodes b' = [] \<and>
    (\<forall>w. accepts h' (root b') w \<longleftrightarrow> w \<in> set ws)"
proof -
  let ?b0 = "\<lparr>previousWord = [], root = nextId h, uncheckedNodes = [], minimizedNodes = []\<rparr>"
  have "sorted (previousWord ?b0 # ws)" using assms(1) by simp
  then obtain b h1 where b: "insert_all ws ?b0 (snd (new_TokenSet h)) = Inr (b, h1)" "built (set ws) b h1" "root b = nextId h"
    using insert_all_built [OF new_builder_built(2) assms(2)] by fastforce
  obtain b' h' where fin: "Builder_minimize 0 b h1 = (b', h')" by fastforce
  have ok: "builder_ok (previousWord b) b h1" and acc: "\<forall>w. accepts h1 (root b) w \<longleftrightarrow> w \<in> set ws"
    using b(2) by (simp_all add: built_def)
  have "builder_ok (previousWord b) b' h'" "root b' = nextId h" "uncheckedNodes b' = []"
      "\<forall>w. accepts h' (nextId h) w \<longleftrightarrow> w \<in> set ws"
    using Builder_minimize_ok [OF ok fin] acc b(3) by simp_all
  then show ?thesis using b(1) fin by (simp add: new_builder_built(1) Builder_finish_def del: new_TokenSet_simps)
qed

text \<open>Building a set from a sorted list of words always succeeds, and, if no word contains a digit, the set
  accepts exactly these words: merging nodes with equal keys loses and adds nothing.\<close>
theorem fromArray_words:
  assumes "sorted ws" "list_all (list_all (\<lambda>c. \<not> is_digit c)) ws"
  shows "\<exists>r h'. TokenSet_fromArray ws h = Inr (r, h') \<and> (\<forall>w. accepts h' r w \<longleftrightarrow> w \<in> set ws)"
  using builder_builds [OF assms, of h] by (auto simp: TokenSet_fromArray_def case_prod_unfold Let_def)

theorem fromArray_words_witness:
  "\<exists>r h'. TokenSet_fromArray [''cat'', ''dog'', ''hat''] empty_heap = Inr (r, h') \<and>
     (\<forall>w. accepts h' r w \<longleftrightarrow> w \<in> {''cat'', ''dog'', ''hat''})"
proof -
  have "sorted [''cat'', ''dog'', ''hat'']" "list_all (list_all (\<lambda>c. \<not> is_digit c)) [''cat'', ''dog'', ''hat'']"
    by code_simp+
  from fromArray_words [OF this, of empty_heap] show ?thesis by simp
qed

text \<open>An out-of-order word is refused.\<close>
lemma Builder_insert_unsorted:
  "word < previousWord b \<Longrightarrow> Builder_insert word b h = Inl (mk_Error ''Out of order word insertion'')"
  by (simp add: Builder_insert_def)

end
