(* ===== verification/Lunr_Index.thy ===== *)
theory Lunr_Index
  imports Lunr_Vector Lunr_Stemmer Lunr_TokenSet
begin

text \<open>
  \<open>lunr.MatchData\<close>, \<open>lunr.Builder\<close> and \<open>lunr.Index\<close> (\<open>search/lunr.js\<close>): building a full-text index of
  documents, querying it, and loading a serialised one.

  \<open>Math.log\<close> and \<open>Math.sqrt\<close> are the parameters \<open>mlog\<close> and \<open>msqrt\<close>, what pipeline functions do is \<open>call\<close>.  A posting
  is the record of its term number and its documents per field, so a field called \<open>_index\<close> is outside the
  model, as are field names that are members of \<open>Object.prototype\<close>.  Match data are values here: the
  sources share metadata objects with the index, but a query adds each term of a field to a document once,
  so no shared object is written.

  Operations on token sets take and return the heap of nodes.  The result of a query is \<open>None\<close> if a loop
  over a token set does not end, an exception or the list of matches otherwise.
\<close>

section \<open>Match data\<close>

type_synonym md_keys = "jsval list obj"
type_synonym match_data = "md_keys obj obj"

text \<open>\<open>new lunr.MatchData\<close> without arguments, and for a term of a field.\<close>
definition blank_MatchData :: match_data where
  "blank_MatchData = []"

definition new_MatchData :: "string \<Rightarrow> string \<Rightarrow> md_keys \<Rightarrow> match_data" where
  "new_MatchData trm field metadata =
     (let clonedMetadata = foldl (\<lambda>c key. AList.update key (the (map_of metadata key)) c) [] (js_keys metadata)
      in [(trm, [(field, clonedMetadata)])])"

text \<open>\<open>o[k]\<close>, or an empty object if it is undefined\<close>
definition at_or_empty :: "'v list obj \<Rightarrow> string \<Rightarrow> 'v list" where
  "at_or_empty kvs k = (case map_of kvs k of None \<Rightarrow> [] | Some v \<Rightarrow> v)"

definition append_key :: "md_keys \<Rightarrow> string \<Rightarrow> md_keys \<Rightarrow> md_keys" where
  "append_key other key mine =
     AList.update key
       (case map_of mine key of
          None \<Rightarrow> the (map_of other key)
        | Some vs \<Rightarrow> vs @ the (map_of other key)) mine"

definition combine_field :: "md_keys obj \<Rightarrow> string \<Rightarrow> md_keys obj \<Rightarrow> md_keys obj" where
  "combine_field other field mine =
     (let keys = the (map_of other field) in
      AList.update field (foldl (\<lambda>m key. append_key keys key m) (at_or_empty mine field) (js_keys keys)) mine)"

definition MatchData_combine :: "match_data \<Rightarrow> match_data \<Rightarrow> match_data" where
  "MatchData_combine other this =
     foldl (\<lambda>m trm.
         let flds = the (map_of other trm) in
         AList.update trm (foldl (\<lambda>mf field. combine_field flds field mf) (at_or_empty m trm) (js_keys flds)) m)
       this (js_keys other)"

definition MatchData_add :: "string \<Rightarrow> string \<Rightarrow> md_keys \<Rightarrow> match_data \<Rightarrow> match_data" where
  "MatchData_add trm field metadata this =
     (case map_of this trm of
        None \<Rightarrow> AList.update trm [(field, metadata)] this
      | Some flds \<Rightarrow>
          (case map_of flds field of
             None \<Rightarrow> AList.update trm (AList.update field metadata flds) this
           | Some keys \<Rightarrow>
               AList.update trm
                 (AList.update field (foldl (\<lambda>m key. append_key metadata key m) keys (js_keys metadata)) flds) this))"

section \<open>Builder\<close>

text \<open>\<open>invertedIndex[term]\<close>: the number of the term, and per field the documents with their metadata.\<close>
record posting =
  p_index :: nat
  p_fields :: "md_keys obj obj"

definition idf :: "(rat \<Rightarrow> rat) \<Rightarrow> posting \<Rightarrow> nat \<Rightarrow> rat" where
  "idf mlog p documentCount =
     (let documentsWithTerm = sum_list (map (\<lambda>(f, docs). length (js_keys docs)) (p_fields p));
          x = (of_nat documentCount - of_nat documentsWithTerm + 1/2) / (of_nat documentsWithTerm + 1/2)
      in mlog (1 + \<bar>x\<bar>))"

record field_attrs =
  fa_boost :: "rat option"
  fa_extractor :: "(jsval \<Rightarrow> jsval jsr) option"

record 'f builder =
  b_ref :: string
  b_fields :: "field_attrs obj"
  b_documents :: "rat option obj"
  b_invertedIndex :: "posting obj"
  fieldTermFrequencies :: "nat obj obj"
  fieldLengths :: "nat obj"
  b_pipeline :: "'f list"
  searchPipeline :: "'f list"
  documentCount :: nat
  b_b :: rat
  b_k1 :: rat
  termIndex :: nat
  metadataWhitelist :: "string list"
  averageFieldLength :: "rat option obj"
  b_fieldVectors :: "vec obj"

definition new_builder :: "'f builder" where
  "new_builder = \<lparr>b_ref = ''id'', b_fields = [], b_documents = [], b_invertedIndex = [], fieldTermFrequencies = [],
     fieldLengths = [], b_pipeline = [], searchPipeline = [], documentCount = 0, b_b = 3/4, b_k1 = 6/5, termIndex = 0,
     metadataWhitelist = [], averageFieldLength = [], b_fieldVectors = []\<rparr>"

definition builder_ref :: "string \<Rightarrow> 'f builder \<Rightarrow> 'f builder" where
  "builder_ref ref b = b\<lparr>b_ref := ref\<rparr>"

definition builder_field :: "string \<Rightarrow> field_attrs \<Rightarrow> 'f builder \<Rightarrow> 'f builder jsr" where
  "builder_field fname attributes b =
     (if CHR ''/'' \<in> set fname
      then Inl (Exn ''RangeError'' (''Field '' @ quoted fname @ '' contains illegal character '' @ quoted ''/''))
      else Inr (b\<lparr>b_fields := AList.update fname attributes (b_fields b)\<rparr>))"

definition no_attrs :: field_attrs where
  "no_attrs = \<lparr>fa_boost = None, fa_extractor = None\<rparr>"

definition builder_b :: "rat \<Rightarrow> 'f builder \<Rightarrow> 'f builder" where
  "builder_b number b = b\<lparr>b_b := (if number < 0 then 0 else if 1 < number then 1 else number)\<rparr>"

definition builder_k1 :: "rat \<Rightarrow> 'f builder \<Rightarrow> 'f builder" where
  "builder_k1 number b = b\<lparr>b_k1 := number\<rparr>"

text \<open>\<open>o[k] = f(o[k] || d)\<close>\<close>
definition upd_default :: "string \<Rightarrow> 'v \<Rightarrow> ('v \<Rightarrow> 'v) \<Rightarrow> 'v obj \<Rightarrow> 'v obj" where
  "upd_default k d f kvs = AList.update k (f (case map_of kvs k of None \<Rightarrow> d | Some v \<Rightarrow> v)) kvs"

text \<open>The metadata of one token that are on the whitelist.\<close>
definition push_metadata :: "token \<Rightarrow> string list \<Rightarrow> md_keys \<Rightarrow> md_keys" where
  "push_metadata t whitelist md =
     foldl (\<lambda>md key. upd_default key [] (\<lambda>vs. vs @ [case map_of (tok_metadata t) key of None \<Rightarrow> Undef | Some v \<Rightarrow> v]) md)
       md whitelist"

text \<open>The posting of a term, created with the next number if there is none.\<close>
definition ensure_posting :: "string list \<Rightarrow> string \<Rightarrow> 'f builder \<Rightarrow> 'f builder" where
  "ensure_posting flds trm b =
     (if map_of (b_invertedIndex b) trm = None
      then b\<lparr>b_invertedIndex := AList.update trm
             \<lparr>p_index = termIndex b, p_fields = foldl (\<lambda>p f. AList.update f [] p) [] flds\<rparr> (b_invertedIndex b),
           termIndex := termIndex b + 1\<rparr>
      else b)"

text \<open>The body of the loop over the terms of a field; a posting made before the field was declared has no
  entry for it, and reading that entry throws.\<close>
definition add_term :: "string list \<Rightarrow> string \<Rightarrow> string \<Rightarrow> 'f builder \<Rightarrow> token \<Rightarrow> 'f builder jsr" where
  "add_term flds fname dref b t =
     (let trm = Token_toString t;
          fieldRef = FieldRef_toString (new_FieldRef dref fname);
          b2 = ensure_posting flds trm
            (b\<lparr>fieldTermFrequencies := upd_default fieldRef [] (upd_default trm 0 Suc) (fieldTermFrequencies b)\<rparr>);
          p = the (map_of (b_invertedIndex b2) trm)
      in case map_of (p_fields p) fname of
           None \<Rightarrow> Inl type_error
         | Some docs \<Rightarrow>
             let docs' = upd_default dref [] (push_metadata t (metadataWhitelist b2)) docs
             in Inr (b2\<lparr>b_invertedIndex :=
                  AList.update trm (p\<lparr>p_fields := AList.update fname docs' (p_fields p)\<rparr>) (b_invertedIndex b2)\<rparr>))"

definition field_value :: "field_attrs \<Rightarrow> string \<Rightarrow> jsval \<Rightarrow> jsval jsr" where
  "field_value attrs fname doc = (case fa_extractor attrs of Some ex \<Rightarrow> ex doc | None \<Rightarrow> get doc fname)"

text \<open>The body of the loop over the fields of a document.\<close>
definition add_field ::
  "('f \<Rightarrow> token \<Rightarrow> nat \<Rightarrow> token list \<Rightarrow> pl_result) \<Rightarrow> (char \<Rightarrow> bool) \<Rightarrow> string \<Rightarrow> jsval \<Rightarrow>
   'f builder \<Rightarrow> string \<Rightarrow> 'f builder jsr" where
  "add_field call sep dref doc b fname =
     bindr (field_value (the (map_of (b_fields b) fname)) fname doc) (\<lambda>field.
     bindr (tokenizer sep field (Some [(''fields'', Arr [Str fname])])) (\<lambda>tokens.
         let terms = Pipeline_run call (b_pipeline b) tokens;
             fieldRef = FieldRef_toString (new_FieldRef dref fname);
             b1 = b\<lparr>fieldTermFrequencies := AList.update fieldRef [] (fieldTermFrequencies b),
                    fieldLengths := AList.update fieldRef (length terms) (fieldLengths b)\<rparr>
         in foldl (\<lambda>r t. bindr r (\<lambda>b. add_term (js_keys (b_fields b)) fname dref b t)) (Inr b1) terms))"

definition builder_add ::
  "('f \<Rightarrow> token \<Rightarrow> nat \<Rightarrow> token list \<Rightarrow> pl_result) \<Rightarrow> (char \<Rightarrow> bool) \<Rightarrow> jsval \<Rightarrow> rat option \<Rightarrow>
   'f builder \<Rightarrow> 'f builder jsr" where
  "builder_add call sep doc boost b =
     bindr (get doc (b_ref b)) (\<lambda>refv.
       let dref = to_str refv;
           b1 = b\<lparr>b_documents := AList.update dref boost (b_documents b), documentCount := documentCount b + 1\<rparr>
       in foldl (\<lambda>r fname. bindr r (\<lambda>b. add_field call sep dref doc b fname)) (Inr b1) (js_keys (b_fields b)))"

text \<open>The sums per field: how many documents have it and how long they are together.\<close>
definition count_field :: "nat obj \<Rightarrow> (nat obj \<times> nat obj) jsr \<Rightarrow> string \<Rightarrow> (nat obj \<times> nat obj) jsr" where
  "count_field lens acc ref =
     bindr acc (\<lambda>(accumulator, documentsWithField).
     mapr (\<lambda>fr. (upd_default (fieldName fr) 0 (\<lambda>n. n + the (map_of lens (FieldRef_toString fr))) accumulator,
                upd_default (fieldName fr) 0 Suc documentsWithField))
       (FieldRef_fromString ref))"

definition calculateAverageFieldLengths :: "'f builder \<Rightarrow> 'f builder jsr" where
  "calculateAverageFieldLengths b =
     mapr (\<lambda>(accumulator, documentsWithField).
         b\<lparr>averageFieldLength := map (\<lambda>f. (f,
             case (map_of accumulator f, map_of documentsWithField f) of
               (Some len, Some n) \<Rightarrow> Some (of_nat len / of_nat n)
             | _ \<Rightarrow> None)) (js_keys (b_fields b))\<rparr>)
       (foldl (count_field (fieldLengths b)) (Inr ([], [])) (js_keys (fieldLengths b)))"

text \<open>\<open>boost || 1\<close>\<close>
definition boost_or_1 :: "rat option \<Rightarrow> rat" where
  "boost_or_1 x = (case x of None \<Rightarrow> 1 | Some v \<Rightarrow> if v = 0 then 1 else v)"

text \<open>The score of a term that occurs \<open>tf\<close> times in a field, three decimals kept.\<close>
definition term_score :: "rat \<Rightarrow> rat \<Rightarrow> rat \<Rightarrow> rat \<Rightarrow> rat \<Rightarrow> rat \<Rightarrow> rat \<Rightarrow> rat \<Rightarrow> rat" where
  "term_score i k1 b tf len avg fieldBoost docBoost =
     (let score = i * ((k1 + 1) * tf) / (k1 * (1 - b + b * (len / avg)) + tf) * fieldBoost * docBoost
      in of_int \<lfloor>score * 1000 + 1/2\<rfloor> / 1000)"

text \<open>The body of the loop over the terms of a field reference, with the cache of inverse frequencies.\<close>
definition vector_term ::
  "(rat \<Rightarrow> rat) \<Rightarrow> 'f builder \<Rightarrow> FieldRef \<Rightarrow> rat \<Rightarrow> rat \<Rightarrow> (vec \<times> rat obj) jsr \<Rightarrow> string \<Rightarrow> (vec \<times> rat obj) jsr" where
  "vector_term mlog b fr fieldBoost docBoost acc trm =
     bindr acc (\<lambda>(v, cache).
       let p = the (map_of (b_invertedIndex b) trm);
           ref = FieldRef_toString fr;
           (i, cache') = (case map_of cache trm of
               None \<Rightarrow> (let i = idf mlog p (documentCount b) in (i, AList.update trm i cache))
             | Some i \<Rightarrow> (i, cache));
           score = term_score i (b_k1 b) (b_b b)
             (of_nat (the (map_of (the (map_of (fieldTermFrequencies b) ref)) trm)))
             (of_nat (the (map_of (fieldLengths b) ref)))
             (case map_of (averageFieldLength b) (fieldName fr) of Some (Some a) \<Rightarrow> a | _ \<Rightarrow> 0)
             fieldBoost docBoost
       in mapr (\<lambda>v'. (v', cache')) (vec_insert (of_nat (p_index p)) score v))"

text \<open>The body of the loop over the field references; it throws if the field or the document is unknown.\<close>
definition vector_field ::
  "(rat \<Rightarrow> rat) \<Rightarrow> 'f builder \<Rightarrow> (vec obj \<times> rat obj) jsr \<Rightarrow> string \<Rightarrow> (vec obj \<times> rat obj) jsr" where
  "vector_field mlog b acc ref =
     bindr acc (\<lambda>(vectors, cache).
     bindr (FieldRef_fromString ref) (\<lambda>fr.
       case (map_of (b_fields b) (fieldName fr), map_of (b_documents b) (docRef fr)) of
         (Some attrs, Some boost) \<Rightarrow>
           mapr (\<lambda>(v, cache'). (AList.update (FieldRef_toString fr) v vectors, cache'))
             (foldl (vector_term mlog b fr (boost_or_1 (fa_boost attrs)) (boost_or_1 boost)) (Inr (new_Vector [], cache))
               (js_keys (the (map_of (fieldTermFrequencies b) (FieldRef_toString fr)))))
       | _ \<Rightarrow> Inl type_error))"

definition createFieldVectors :: "(rat \<Rightarrow> rat) \<Rightarrow> 'f builder \<Rightarrow> 'f builder jsr" where
  "createFieldVectors mlog b =
     mapr (\<lambda>(vectors, _). b\<lparr>b_fieldVectors := vectors\<rparr>)
       (foldl (vector_field mlog b) (Inr ([], [])) (js_keys (fieldTermFrequencies b)))"

definition createTokenSet :: "'f builder \<Rightarrow> ts_heap \<Rightarrow> (nat \<times> ts_heap) jsr" where
  "createTokenSet b h = TokenSet_fromArray (sort (js_keys (b_invertedIndex b))) h"

section \<open>Index\<close>

record 'f index =
  i_invertedIndex :: "posting obj"
  i_fieldVectors :: "vec obj"
  i_tokenSet :: nat
  i_fields :: "string list"
  i_pipeline :: "'f list"

definition builder_build :: "(rat \<Rightarrow> rat) \<Rightarrow> 'f builder \<Rightarrow> ts_heap \<Rightarrow> ('f index \<times> ts_heap) jsr" where
  "builder_build mlog b0 h0 =
     bindr (calculateAverageFieldLengths b0) (\<lambda>b1.
     bindr (createFieldVectors mlog b1) (\<lambda>b2.
     mapr (\<lambda>(ts, h). (\<lparr>i_invertedIndex = b_invertedIndex b2, i_fieldVectors = b_fieldVectors b2, i_tokenSet = ts,
         i_fields = js_keys (b_fields b2), i_pipeline = searchPipeline b2\<rparr>, h))
       (createTokenSet b2 h0)))"

definition builder_use :: "('f builder \<Rightarrow> 'f builder jsr) \<Rightarrow> 'f builder \<Rightarrow> 'f builder jsr" where
  "builder_use fn b = fn b"

text \<open>\<open>lunr(config)\<close>: a builder with the default pipelines, the configuration, and the index.\<close>
definition default_builder :: "pl_fun builder" where
  "default_builder = new_builder\<lparr>
     b_pipeline := snd (Pipeline_add [Pf_trimmer, Pf_stopWordFilter, Pf_stemmer] (default_registry, [])),
     searchPipeline := snd (Pipeline_add [Pf_stemmer] (default_registry, []))\<rparr>"

definition lunr ::
  "(rat \<Rightarrow> rat) \<Rightarrow> (pl_fun builder \<Rightarrow> pl_fun builder jsr) \<Rightarrow> ts_heap \<Rightarrow> (pl_fun index \<times> ts_heap) jsr" where
  "lunr mlog config h = bindr (config default_builder) (\<lambda>b. builder_build mlog b h)"

section \<open>Querying\<close>

record qstate =
  matchingFields :: "match_data obj"
  queryVectors :: "vec obj"
  termFieldCache :: "bool obj"
  requiredMatches :: "lset obj"
  prohibitedMatches :: "lset obj"

definition new_qstate :: "string list \<Rightarrow> qstate" where
  "new_qstate flds = \<lparr>matchingFields = [],
     queryVectors = foldl (\<lambda>vs f. AList.update f (new_Vector []) vs) [] flds,
     termFieldCache = [], requiredMatches = [], prohibitedMatches = []\<rparr>"

text \<open>One document of a posting: its match data are made or extended.\<close>
definition match_doc :: "string \<Rightarrow> string \<Rightarrow> md_keys obj \<Rightarrow> match_data obj \<Rightarrow> string \<Rightarrow> match_data obj" where
  "match_doc trm field fieldPosting mf dref =
     (let fieldRef = FieldRef_toString (new_FieldRef dref field);
          metadata = the (map_of fieldPosting dref)
      in AList.update fieldRef
           (case map_of mf fieldRef of
              None \<Rightarrow> new_MatchData trm field metadata
            | Some md \<Rightarrow> MatchData_add trm field metadata md) mf)"

text \<open>The body of the loop over the fields of a clause, for one term of the index.\<close>
definition query_field ::
  "clause \<Rightarrow> string \<Rightarrow> posting \<Rightarrow> (qstate \<times> lset) jsr \<Rightarrow> string \<Rightarrow> (qstate \<times> lset) jsr" where
  "query_field c trm p acc field =
     bindr acc (\<lambda>(s, clauseMatches).
       case map_of (p_fields p) field of
         None \<Rightarrow> Inl type_error
       | Some fieldPosting \<Rightarrow>
           let refs = js_keys fieldPosting;
               termField = trm @ ''/'' @ field;
               docs = new_Set refs
           in if c_presence c = PROHIBITED
              then Inr (s\<lparr>prohibitedMatches := upd_default field Set_empty (\<lambda>m. set_union m docs) (prohibitedMatches s)\<rparr>, clauseMatches)
              else
                let (s1, clauseMatches') =
                      (if c_presence c = REQUIRED
                       then (s\<lparr>requiredMatches := upd_default field Set_complete id (requiredMatches s)\<rparr>,
                             set_union clauseMatches docs)
                       else (s, clauseMatches))
                in case map_of (queryVectors s1) field of
                     None \<Rightarrow> Inl type_error
                   | Some v \<Rightarrow>
                       bindr (upsert (of_nat (p_index p)) (c_boost c) (\<lambda>a b. Inr (a + b)) v) (\<lambda>v'.
                         let s2 = s1\<lparr>queryVectors := AList.update field v' (queryVectors s1)\<rparr>
                         in if map_of (termFieldCache s2) termField = Some True then Inr (s2, clauseMatches')
                            else Inr (s2\<lparr>matchingFields := foldl (match_doc trm field fieldPosting) (matchingFields s2) refs,
                                        termFieldCache := AList.update termField True (termFieldCache s2)\<rparr>, clauseMatches')))"

text \<open>The loop over the terms of the index that match.\<close>
definition query_term :: "'f index \<Rightarrow> clause \<Rightarrow> (qstate \<times> lset) jsr \<Rightarrow> string \<Rightarrow> (qstate \<times> lset) jsr" where
  "query_term idx c acc trm =
     bindr acc (\<lambda>sc.
       case map_of (i_invertedIndex idx) trm of
         None \<Rightarrow> Inl type_error
       | Some p \<Rightarrow> foldl (query_field c trm p) (Inr sc) (c_fields c))"

text \<open>\<open>this.tokenSet.intersect(lunr.TokenSet.fromClause(clause)).toArray()\<close>\<close>
definition expand :: "'f index \<Rightarrow> clause \<Rightarrow> ts_heap \<Rightarrow> (string list \<times> ts_heap) option" where
  "expand idx c h =
     (case TokenSet_fromClause c h of
        None \<Rightarrow> None
      | Some (q, h1) \<Rightarrow>
          (case TokenSet_intersect (i_tokenSet idx) q h1 of
             None \<Rightarrow> None
           | Some (out, h2) \<Rightarrow> map_option (\<lambda>ws. (ws, h2)) (TokenSet_toArray h2 out)))"

text \<open>The loop over the terms a clause gives after the pipeline; it stops at a required term that matches
  nothing.\<close>
fun query_terms ::
  "'f index \<Rightarrow> clause \<Rightarrow> string list \<Rightarrow> qstate \<times> lset \<Rightarrow> ts_heap \<Rightarrow> ((qstate \<times> lset) jsr \<times> ts_heap) option" where
  "query_terms idx c [] sc h = Some (Inr sc, h)"
| "query_terms idx c (t # ts) sc h =
     (case expand idx (c\<lparr>c_term := t\<rparr>) h of
        None \<Rightarrow> None
      | Some (expandedTerms, h1) \<Rightarrow>
          if expandedTerms = [] \<and> c_presence c = REQUIRED
          then Some (Inr ((fst sc)\<lparr>requiredMatches :=
                 foldl (\<lambda>m f. AList.update f Set_empty m) (requiredMatches (fst sc)) (c_fields c)\<rparr>, snd sc), h1)
          else
            (case foldl (query_term idx c) (Inr sc) expandedTerms of
               Inl e \<Rightarrow> Some (Inl e, h1)
             | Inr sc' \<Rightarrow> query_terms idx c ts sc' h1))"

text \<open>After the terms of a required clause, its matches restrict every field it names.\<close>
definition restrict_required :: "clause \<Rightarrow> qstate \<times> lset \<Rightarrow> qstate jsr" where
  "restrict_required c sc =
     (let (s, clauseMatches) = sc in
      if c_presence c = REQUIRED
      then foldl (\<lambda>r f. bindr r (\<lambda>s.
               case map_of (requiredMatches s) f of
                 None \<Rightarrow> Inl type_error
               | Some m \<Rightarrow> Inr (s\<lparr>requiredMatches := AList.update f (set_intersect m clauseMatches) (requiredMatches s)\<rparr>)))
             (Inr s) (c_fields c)
      else Inr s)"

definition clause_terms ::
  "('f \<Rightarrow> token \<Rightarrow> nat \<Rightarrow> token list \<Rightarrow> pl_result) \<Rightarrow> 'f index \<Rightarrow> clause \<Rightarrow> string list" where
  "clause_terms call idx c =
     (if c_usePipeline c
      then Pipeline_runString call (i_pipeline idx) (c_term c) (Some [(''fields'', Arr (map Str (c_fields c)))])
      else [c_term c])"

fun query_clauses ::
  "('f \<Rightarrow> token \<Rightarrow> nat \<Rightarrow> token list \<Rightarrow> pl_result) \<Rightarrow> 'f index \<Rightarrow> clause list \<Rightarrow> qstate \<Rightarrow> ts_heap \<Rightarrow>
   (qstate jsr \<times> ts_heap) option" where
  "query_clauses call idx [] s h = Some (Inr s, h)"
| "query_clauses call idx (c # cs) s h =
     (case query_terms idx c (clause_terms call idx c) (s, Set_empty) h of
        None \<Rightarrow> None
      | Some (r, h1) \<Rightarrow>
          (case bindr r (restrict_required c) of
             Inl e \<Rightarrow> Some (Inl e, h1)
           | Inr s' \<Rightarrow> query_clauses call idx cs s' h1))"

definition all_required :: "string list \<Rightarrow> qstate \<Rightarrow> lset" where
  "all_required flds s =
     foldl (\<lambda>m f. case map_of (requiredMatches s) f of None \<Rightarrow> m | Some r \<Rightarrow> set_intersect m r) Set_complete flds"

definition all_prohibited :: "string list \<Rightarrow> qstate \<Rightarrow> lset" where
  "all_prohibited flds s =
     foldl (\<lambda>m f. case map_of (prohibitedMatches s) f of None \<Rightarrow> m | Some r \<Rightarrow> set_union m r) Set_empty flds"

record result =
  r_ref :: string
  r_score :: rat
  r_matchData :: match_data

text \<open>\<open>matches[docRef]\<close>, a result already made for a document, and its update.\<close>
definition add_result :: "string \<Rightarrow> rat \<Rightarrow> match_data \<Rightarrow> result list \<Rightarrow> result list" where
  "add_result dref score md results =
     (if dref \<in> set (map r_ref results)
      then map (\<lambda>r. if r_ref r = dref
          then r\<lparr>r_score := r_score r + score, r_matchData := MatchData_combine md (r_matchData r)\<rparr> else r) results
      else results @ [\<lparr>r_ref = dref, r_score = score, r_matchData = md\<rparr>])"

text \<open>The body of the loop over the matching field references.\<close>
definition collect ::
  "(rat \<Rightarrow> rat) \<Rightarrow> 'f index \<Rightarrow> lset \<Rightarrow> lset \<Rightarrow> match_data obj \<Rightarrow> (vec obj \<times> result list) jsr \<Rightarrow> string \<Rightarrow>
   (vec obj \<times> result list) jsr" where
  "collect msqrt idx required prohibited mf acc ref =
     bindr acc (\<lambda>(vs, results).
     bindr (FieldRef_fromString ref) (\<lambda>fr.
       let dref = docRef fr in
       if \<not> set_contains required dref \<or> set_contains prohibited dref then Inr (vs, results)
       else
         (case (map_of vs (fieldName fr), map_of (i_fieldVectors idx) (FieldRef_toString fr)) of
            (Some qv, Some fv) \<Rightarrow>
              (case similarity msqrt qv fv of
                 (score, qv') \<Rightarrow>
                   Inr (AList.update (fieldName fr) qv' vs, add_result dref score (the (map_of mf ref)) results))
          | _ \<Rightarrow> Inl type_error)))"

definition score_order :: "result \<Rightarrow> result \<Rightarrow> int" where
  "score_order a b = (let d = r_score b - r_score a in if d < 0 then -1 else if d = 0 then 0 else 1)"

text \<open>From the collected matches to the sorted results.\<close>
definition query_results :: "(rat \<Rightarrow> rat) \<Rightarrow> 'f index \<Rightarrow> query \<Rightarrow> qstate \<Rightarrow> result list jsr" where
  "query_results msqrt idx q s =
     (let required = all_required (i_fields idx) s;
          prohibited = all_prohibited (i_fields idx) s;
          refs0 = js_keys (matchingFields s);
          negated = isNegated q;
          refs = (if negated then js_keys (i_fieldVectors idx) else refs0)
      in bindr (if negated
                then foldl (\<lambda>r ref. bindr r (\<lambda>mf. mapr (\<lambda>_. AList.update ref blank_MatchData mf) (FieldRef_fromString ref)))
                       (Inr (matchingFields s)) refs
                else Inr (matchingFields s)) (\<lambda>mf.
         mapr (\<lambda>(_, results). sort_cmp score_order results)
           (foldl (collect msqrt idx required prohibited mf) (Inr (queryVectors s, [])) refs)))"

definition Index_query ::
  "(rat \<Rightarrow> rat) \<Rightarrow> ('f \<Rightarrow> token \<Rightarrow> nat \<Rightarrow> token list \<Rightarrow> pl_result) \<Rightarrow> 'f index \<Rightarrow> query \<Rightarrow> ts_heap \<Rightarrow>
   (result list jsr \<times> ts_heap) option" where
  "Index_query msqrt call idx q h =
     map_option (\<lambda>(r, h'). (bindr r (query_results msqrt idx q), h'))
       (query_clauses call idx (clauses q) (new_qstate (i_fields idx)) h)"

definition Index_search ::
  "(rat \<Rightarrow> rat) \<Rightarrow> ('f \<Rightarrow> token \<Rightarrow> nat \<Rightarrow> token list \<Rightarrow> pl_result) \<Rightarrow> (char \<Rightarrow> bool) \<Rightarrow> 'f index \<Rightarrow> string \<Rightarrow> ts_heap \<Rightarrow>
   (result list jsr \<times> ts_heap) option" where
  "Index_search msqrt call termSeparator idx queryString h =
     (case QueryParser_parse termSeparator queryString (new_Query (i_fields idx)) of
        None \<Rightarrow> None
      | Some (Inl e) \<Rightarrow> Some (Inl (Exn ''QueryParseError'' (pe_message e)), h)
      | Some (Inr q) \<Rightarrow> Index_query msqrt call idx q h)"

section \<open>Serialisation\<close>

definition lunr_version :: string where
  "lunr_version = ''2.3.9''"

record serialized =
  s_version :: string
  s_fields :: "string list"
  s_fieldVectors :: "(string \<times> rat list) list"
  s_invertedIndex :: "(string \<times> posting) list"
  s_pipeline :: "string option list"

definition Index_toJSON :: "'f registry \<Rightarrow> 'f index \<Rightarrow> serialized" where
  "Index_toJSON R idx =
     \<lparr>s_version = lunr_version, s_fields = i_fields idx,
      s_fieldVectors = map (\<lambda>ref. (ref, vec_toJSON (the (map_of (i_fieldVectors idx) ref)))) (js_keys (i_fieldVectors idx)),
      s_invertedIndex = map (\<lambda>t. (t, the (map_of (i_invertedIndex idx) t))) (sort (js_keys (i_invertedIndex idx))),
      s_pipeline = snd (Pipeline_toJSON (R, i_pipeline idx))\<rparr>"

text \<open>A label that is missing prints as \<open>null\<close> in JSON, and no function is registered under that name.\<close>
definition label_text :: "string option \<Rightarrow> string" where
  "label_text l = (case l of None \<Rightarrow> ''null'' | Some s \<Rightarrow> s)"

definition Index_load :: "'f registry \<Rightarrow> serialized \<Rightarrow> ts_heap \<Rightarrow> ('f registry \<times> 'f index \<times> ts_heap) jsr" where
  "Index_load R ser h =
     (let (tb, h1) = new_Builder h in
      bindr (Pipeline_load (map label_text (s_pipeline ser)) R) (\<lambda>(R1, pipeline).
        let R2 = (if s_version ser \<noteq> lunr_version
                  then warn (''Version mismatch when loading serialised index. Current version of lunr '' @ quoted lunr_version @
                         '' does not match serialized index '' @ quoted (s_version ser)) R1
                  else R1);
            vectors = foldl (\<lambda>vs (ref, els). AList.update ref (new_Vector els) vs) [] (s_fieldVectors ser);
            inv = foldl (\<lambda>o' (t, p). AList.update t p o') [] (s_invertedIndex ser)
        in bindr (insert_all (map fst (s_invertedIndex ser)) tb h1) (\<lambda>(tb2, h2).
             let (tb3, h3) = Builder_finish tb2 h2
             in Inr (R2, \<lparr>i_invertedIndex = inv, i_fieldVectors = vectors, i_tokenSet = root tb3,
                  i_fields = s_fields ser, i_pipeline = pipeline\<rparr>, h3))))"

end
