(* ===== verification/Lunr_Match.thy ===== *)
theory Lunr_Match
  imports Lunr_TokenSet
begin

text \<open>
  Looking words up in token sets (\<open>lunr.TokenSet\<close>): \<open>toArray\<close> lists exactly the words a set without cycles
  accepts, \<open>intersect\<close> builds exactly the words of the index that a query automaton matches, and the automaton
  of a query term matches what its wildcards say.  Looking up neither runs forever nor changes older sets.
\<close>

section \<open>Heaps that only grow\<close>

text \<open>Every edge joins allocated nodes, and a node has one edge per label.\<close>
definition heap_ok :: "ts_heap \<Rightarrow> bool" where
  "heap_ok h \<longleftrightarrow> (\<forall>n c m. edge h n c = Some m \<longrightarrow> n < nextId h \<and> m < nextId h) \<and>
     (\<forall>n. distinct (map fst (edges (node h n))))"

text \<open>Allocated nodes stay as they are.\<close>
definition extends :: "ts_heap \<Rightarrow> ts_heap \<Rightarrow> bool" where
  "extends h h' \<longleftrightarrow> nextId h \<le> nextId h' \<and> (\<forall>x < nextId h. node h' x = node h x)"

lemma extends_refl [simp]: "extends h h"
  by (simp add: extends_def)

lemma extends_trans: "extends h1 h2 \<Longrightarrow> extends h2 h3 \<Longrightarrow> extends h1 h3"
  by (auto simp: extends_def)

lemma heap_okD: "heap_ok h \<Longrightarrow> edge h n c = Some m \<Longrightarrow> n < nextId h \<and> m < nextId h"
  by (simp add: heap_ok_def)

lemma heap_ok_distinct: "heap_ok h \<Longrightarrow> distinct (map fst (edges (node h n)))"
  by (simp add: heap_ok_def)

lemma extends_edge: "extends h h' \<Longrightarrow> n < nextId h \<Longrightarrow> edge h' n c = edge h n c"
  by (simp add: extends_def edge_def)

lemma extends_final: "extends h h' \<Longrightarrow> n < nextId h \<Longrightarrow> final (node h' n) = final (node h n)"
  by (simp add: extends_def)

lemma heap_ok_empty [simp]: "heap_ok empty_heap"
  by (simp add: heap_ok_def empty_heap_def blank_node_def edge_def)

lemma edges_set_edge:
  "edges (node (set_edge n c m h) x) = (if x = n then AList.update c m (edges (node h n)) else edges (node h x))"
  by (simp add: set_edge_def)

lemma edges_set_final [simp]: "edges (node (set_final n b h) x) = edges (node h x)"
  by (simp add: set_final_def)

lemma heap_ok_set_edge: "heap_ok h \<Longrightarrow> n < nextId h \<Longrightarrow> m < nextId h \<Longrightarrow> heap_ok (set_edge n c m h)"
  unfolding heap_ok_def by (auto simp: edges_set_edge distinct_update)

lemma heap_ok_set_final [simp]: "heap_ok (set_final n b h) = heap_ok h"
  by (simp add: heap_ok_def)

lemma heap_ok_new: "heap_ok h \<Longrightarrow> heap_ok (snd (new_TokenSet h))"
  by (auto simp: heap_ok_def blank_node_def less_Suc_eq split: if_splits)

lemma extends_new: "extends h (snd (new_TokenSet h))"
  by (simp add: extends_def)

lemma extends_set_edge: "extends h h' \<Longrightarrow> nextId h \<le> n \<Longrightarrow> extends h (set_edge n c m h')"
  by (simp add: extends_def)

lemma extends_set_final: "extends h h' \<Longrightarrow> nextId h \<le> n \<Longrightarrow> extends h (set_final n b h')"
  by (simp add: extends_def)

section \<open>Walks\<close>

lemma accepts_walk: "accepts h n w \<longleftrightarrow> (\<exists>m. walk h n w = Some m \<and> final (node h m))"
  by (induction w arbitrary: n) (auto split: option.splits)

lemma walk_append: "walk h n (u @ v) = (case walk h n u of None \<Rightarrow> None | Some m \<Rightarrow> walk h m v)"
  by (induction u arbitrary: n) (auto split: option.splits)

lemma walk_allocated: "heap_ok h \<Longrightarrow> n < nextId h \<Longrightarrow> walk h n w = Some m \<Longrightarrow> m < nextId h"
  by (induction w arbitrary: n) (auto split: option.splits dest: heap_okD)

lemma walk_extends: "heap_ok h \<Longrightarrow> extends h h' \<Longrightarrow> n < nextId h \<Longrightarrow> walk h' n w = walk h n w"
  by (induction w arbitrary: n) (auto split: option.splits simp: extends_edge dest: heap_okD)

lemma accepts_extends: "heap_ok h \<Longrightarrow> extends h h' \<Longrightarrow> n < nextId h \<Longrightarrow> accepts h' n w = accepts h n w"
  by (induction w arbitrary: n) (auto split: option.splits simp: extends_edge extends_final dest: heap_okD)

lemma walk_set_final [simp]: "walk (set_final n b h) x w = walk h x w"
  by (induction w arbitrary: x) (auto split: option.splits)

text \<open>A new leaf adds one walk.\<close>
lemma walk_add_leaf:
  fixes b :: bool
  assumes "heap_ok h" "o' < nextId h" "edge h o' c = None" "x < nextId h"
  defines "h' \<equiv> set_edge o' c (nextId h) (set_final (nextId h) b (snd (new_TokenSet h)))"
  shows "walk h' x w = Some y \<longleftrightarrow> walk h x w = Some y \<or> (\<exists>u. walk h x u = Some o' \<and> w = u @ [c] \<and> y = nextId h)"
  using assms(4)
proof (induction w arbitrary: x)
  case (Cons d w)
  have e: "edge h' x = (if x = o' then (edge h o')(c \<mapsto> nextId h) else edge h x)" using Cons.prems assms(2) by (auto simp: h'_def)
  have leaf: "walk h' (nextId h) w = (if w = [] then Some (nextId h) else None)"
    using assms(2) by (cases w) (auto simp: h'_def)
  show ?case
  proof (cases "x = o' \<and> d = c")
    case True
    then show ?thesis using assms(3) leaf e
      by (auto simp: Cons_eq_append_conv split: if_splits)
  next
    case False
    then have e': "edge h' x d = edge h x d" using e by auto
    show ?thesis
    proof (cases "edge h x d")
      case None
      then show ?thesis using e' False
        by (auto simp: Cons_eq_append_conv)
    next
      case (Some z)
      then have "z < nextId h" using assms(1) heap_okD by blast
      then show ?thesis using Cons.IH [of z] Some e' False by (auto simp: Cons_eq_append_conv)
    qed
  qed
qed simp

section \<open>Sets without cycles\<close>

definition bounded :: "ts_heap \<Rightarrow> nat \<Rightarrow> nat \<Rightarrow> bool" where
  "bounded h n k \<longleftrightarrow> (\<forall>p m. walk h n p = Some m \<longrightarrow> length p \<le> k)"

lemma bounded_edge: "bounded h n k \<Longrightarrow> edge h n c = Some m \<Longrightarrow> 0 < k \<and> bounded h m (k - 1)"
  unfolding bounded_def
proof
  assume b: "\<forall>p m. walk h n p = Some m \<longrightarrow> length p \<le> k" and e: "edge h n c = Some m"
  show "0 < k" using b e by (metis One_nat_def length_Cons list.size(3) not_one_le_zero gr0I option.case(2) walk.simps)
  show "\<forall>p ma. walk h m p = Some ma \<longrightarrow> length p \<le> k - 1"
    using b e by (metis diff_Suc_1 diff_le_mono length_Cons option.case(2) walk.simps(2))
qed

lemma set_edge_keys: "set (edge_keys h n) = {c. edge h n c \<noteq> None}"
  by (auto simp: edge_keys_def Let_def edge_def map_of_eq_None_iff)

lemma distinct_edge_keys: "heap_ok h \<Longrightarrow> distinct (edge_keys h n)"
  using heap_ok_distinct [of h n] by (auto simp: edge_keys_def Let_def)

section \<open>Listing a set\<close>

lemma array_words_Nil [simp]: "array_words h [] ws = Some ws"
  by (simp add: array_words.simps)

text \<open>The words a node on the stack stands for: those it accepts, with its prefix in front.\<close>
definition below :: "ts_heap \<Rightarrow> string \<times> nat \<Rightarrow> string set" where
  "below h f = (@) (fst f) ` {w. accepts h (snd f) w}"

lemma below_children:
  "below h (pre, n) = (if final (node h n) then {pre} else {}) \<union>
     (\<Union>c \<in> {c. edge h n c \<noteq> None}. below h (pre @ [c], the (edge h n c)))"
proof (rule set_eqI)
  fix v
  have "v \<in> below h (pre, n) \<longleftrightarrow> v = pre \<and> final (node h n) \<or> (\<exists>c w. v = pre @ c # w \<and> accepts h n (c # w))"
    unfolding below_def by (auto simp: image_iff) (metis accepts.elims(2) append_Nil2)+
  also have "(\<exists>c w. v = pre @ c # w \<and> accepts h n (c # w)) \<longleftrightarrow>
      (\<exists>c. edge h n c \<noteq> None \<and> v \<in> below h (pre @ [c], the (edge h n c)))"
    unfolding below_def by (auto split: option.splits)
  finally show "v \<in> below h (pre, n) \<longleftrightarrow> v \<in> (if final (node h n) then {pre} else {}) \<union>
     (\<Union>c \<in> {c. edge h n c \<noteq> None}. below h (pre @ [c], the (edge h n c)))" by auto
qed

lemma below_disjoint: "length (fst f) = length (fst g) \<Longrightarrow> fst f \<noteq> fst g \<Longrightarrow> below h f \<inter> below h g = {}"
  by (auto simp: below_def)

definition listed :: "ts_heap \<Rightarrow> (string \<times> nat) list \<Rightarrow> string list \<Rightarrow> bool" where
  "listed h st ws \<longleftrightarrow> (\<forall>rest acc. array_words h (st @ rest) acc = array_words h rest (acc @ ws)) \<and>
     set ws = (\<Union>f \<in> set st. below h f) \<and> distinct ws"

text \<open>A stack of nodes is worked off one by one.\<close>
lemma listed_stack:
  assumes "\<And>f. f \<in> set st \<Longrightarrow> \<exists>ws. listed h [f] ws"
    and "distinct (map fst st)" "\<And>f. f \<in> set st \<Longrightarrow> length (fst f) = k"
  shows "\<exists>ws. listed h st ws"
  using assms
proof (induction st)
  case Nil
  then show ?case by (intro exI [of _ "[]"]) (simp add: listed_def)
next
  case (Cons f st)
  obtain ws where ws: "listed h [f] ws" using Cons.prems(1) [of f] by auto
  obtain vs where vs: "listed h st vs" using Cons.IH Cons.prems by auto
  have "below h f \<inter> below h g = {}" if "g \<in> set st" for g
  proof (rule below_disjoint)
    show "length (fst f) = length (fst g)" using Cons.prems(3) that by simp
    show "fst f \<noteq> fst g" using Cons.prems(2) that by auto
  qed
  then have "distinct (ws @ vs)" using ws vs by (auto simp: listed_def)
  then show ?case using ws vs by (intro exI [of _ "ws @ vs"]) (simp add: listed_def)
qed

lemma listed_node:
  assumes "heap_ok h" "bounded h n k"
  shows "\<exists>ws. listed h [(pre, n)] ws"
  using assms(2)
proof (induction k arbitrary: n pre)
  case (0 n pre)
  then have "edge h n c = None" for c using bounded_edge [of h n 0 c] by (cases "edge h n c") auto
  moreover from this have "edge_keys h n = []" using set_edge_keys [of h n] by auto
  ultimately show ?case
    by (intro exI [of _ "if final (node h n) then [pre] else []"])
      (simp add: listed_def below_children [of h pre n] array_words.simps [of h "(pre, n) # _"])
next
  case (Suc k n pre)
  let ?st = "rev (map (\<lambda>c. (pre @ [c], the (edge h n c))) (edge_keys h n))"
  have "\<exists>ws. listed h ?st ws"
  proof (rule listed_stack)
    fix f assume "f \<in> set ?st"
    then obtain c m where f: "f = (pre @ [c], m)" "edge h n c = Some m" by (auto simp: set_edge_keys)
    then show "\<exists>ws. listed h [f] ws" using Suc.IH [of m "pre @ [c]"] bounded_edge [OF Suc.prems] by simp
    show "length (fst f) = Suc (length pre)" using f by simp
  next
    show "distinct (map fst ?st)"
      using distinct_edge_keys [OF assms(1), of n] by (simp add: rev_map [symmetric] distinct_map inj_on_def o_def)
  qed
  then obtain ws where ws: "listed h ?st ws" ..
  let ?fin = "if final (node h n) then [pre] else []"
  have "set ws = (\<Union>c \<in> {c. edge h n c \<noteq> None}. below h (pre @ [c], the (edge h n c)))"
    using ws by (auto simp: listed_def set_edge_keys)
  moreover from this have "distinct (?fin @ ws)" using ws by (auto simp: listed_def below_def)
  moreover have "array_words h ((pre, n) # rest) acc = array_words h rest (acc @ ?fin @ ws)" for rest acc
    using ws by (subst array_words.simps) (simp add: listed_def)
  ultimately show ?case
    unfolding listed_def by (intro exI [of _ "?fin @ ws"] conjI) (simp_all add: below_children [of h pre n])
qed

lemma toArray_words:
  assumes "heap_ok h" "bounded h n k"
  shows "\<exists>ws. TokenSet_toArray h n = Some ws \<and> set ws = {w. accepts h n w} \<and> distinct ws"
proof -
  obtain ws where ws: "listed h [([], n)] ws" using listed_node [OF assms] by blast
  then have "array_words h [([], n)] [] = array_words h [] ([] @ ws)" unfolding listed_def by (metis append_Nil2)
  then show ?thesis using ws by (simp add: TokenSet_toArray_def listed_def below_def)
qed

section \<open>Loops over a stack of frames\<close>

text \<open>\<open>intersect\<close> and \<open>fromFuzzyString\<close> take a frame off a stack and push frames for its children.  What such a loop
  needs of its body: the frames pushed have a smaller rank, frames that wait stay valid, and what the body
  adds together with what the pushed frames stand for is what the frame stands for.\<close>
locale stack_loop =
  fixes loop :: "'f list \<Rightarrow> 's \<Rightarrow> 's option" and step :: "'f \<Rightarrow> 's \<Rightarrow> 'f list \<times> 's"
    and inv :: "'s \<Rightarrow> bool" and valid :: "'s \<Rightarrow> 'p \<times> 'f \<Rightarrow> bool" and keeps :: "'s \<Rightarrow> 's \<Rightarrow> bool"
    and result :: "'s \<Rightarrow> 'w set" and stands_for :: "'p \<times> 'f \<Rightarrow> 'w set" and rank :: "'p \<times> 'f \<Rightarrow> nat"
  assumes loop_Nil: "loop [] s = Some s"
    and loop_Cons: "loop (f # rest) s = (case step f s of (pushed, s') \<Rightarrow> loop (rev pushed @ rest) s')"
    and keeps_refl: "keeps s s"
    and keeps_trans: "keeps s1 s2 \<Longrightarrow> keeps s2 s3 \<Longrightarrow> keeps s1 s3"
    and valid_keeps: "valid s pf \<Longrightarrow> keeps s s' \<Longrightarrow> valid s' pf"
    and step_ok: "inv s \<Longrightarrow> valid s (p, f) \<Longrightarrow>
      \<exists>pfs s'. step f s = (map snd pfs, s') \<and> inv s' \<and> keeps s s' \<and>
        (\<forall>pf \<in> set pfs. valid s' pf \<and> rank pf < rank (p, f)) \<and>
        result s' \<union> \<Union> (stands_for ` set pfs) = result s \<union> stands_for (p, f)"
begin

lemma stack_worked_off:
  assumes "\<And>pf s. pf \<in> set pfs \<Longrightarrow> inv s \<Longrightarrow> valid s pf \<Longrightarrow>
      \<exists>s'. (\<forall>rest. loop (snd pf # rest) s = loop rest s') \<and> inv s' \<and> keeps s s' \<and> result s' = result s \<union> stands_for pf"
    and "inv s" "\<forall>pf \<in> set pfs. valid s pf"
  shows "\<exists>s'. (\<forall>rest. loop (map snd pfs @ rest) s = loop rest s') \<and> inv s' \<and> keeps s s' \<and>
    result s' = result s \<union> \<Union> (stands_for ` set pfs)"
  using assms
proof (induction pfs arbitrary: s)
  case Nil
  then show ?case by (intro exI [of _ s]) (simp add: keeps_refl)
next
  case (Cons pf pfs)
  obtain s1 where s1: "\<forall>rest. loop (snd pf # rest) s = loop rest s1" "inv s1" "keeps s s1" "result s1 = result s \<union> stands_for pf"
    using Cons.prems(1) [of pf s] Cons.prems(2,3) by auto
  have "\<forall>g \<in> set pfs. valid s1 g" using valid_keeps [OF _ s1(3)] Cons.prems(3) by simp
  then obtain s2 where s2: "\<forall>rest. loop (map snd pfs @ rest) s1 = loop rest s2" "inv s2" "keeps s1 s2"
      "result s2 = result s1 \<union> \<Union> (stands_for ` set pfs)"
    using Cons.IH [OF _ s1(2)] Cons.prems(1) by auto
  then show ?case using s1 keeps_trans by (intro exI [of _ s2]) auto
qed

lemma frame_worked_off:
  assumes "inv s" "valid s pf"
  shows "\<exists>s'. (\<forall>rest. loop (snd pf # rest) s = loop rest s') \<and> inv s' \<and> keeps s s' \<and> result s' = result s \<union> stands_for pf"
  using assms
proof (induction "rank pf" arbitrary: pf s rule: less_induct)
  case less
  obtain p f where pf: "pf = (p, f)" by fastforce
  obtain pfs s1 where step: "step f s = (map snd pfs, s1)" and s1: "inv s1" "keeps s s1"
    and pushed: "\<forall>pf' \<in> set pfs. valid s1 pf' \<and> rank pf' < rank pf"
    and res: "result s1 \<union> \<Union> (stands_for ` set pfs) = result s \<union> stands_for pf"
    using step_ok [of s p f] less.prems pf by blast
  have "\<exists>s'. (\<forall>rest. loop (map snd (rev pfs) @ rest) s1 = loop rest s') \<and> inv s' \<and> keeps s1 s' \<and>
      result s' = result s1 \<union> \<Union> (stands_for ` set (rev pfs))"
    using less.hyps pushed s1(1) by (intro stack_worked_off) auto
  then obtain s' where "\<forall>rest. loop (map snd (rev pfs) @ rest) s1 = loop rest s'" "inv s'" "keeps s1 s'"
      "result s' = result s1 \<union> \<Union> (stands_for ` set pfs)" by auto
  then show ?case
    using step s1 res pf keeps_trans by (intro exI [of _ s']) (auto simp: loop_Cons rev_map)
qed

text \<open>The loop ends, and its result has gained what the first frame stands for.\<close>
lemma loop_ends:
  assumes "inv s" "valid s pf"
  shows "\<exists>s'. loop [snd pf] s = Some s' \<and> inv s' \<and> keeps s s' \<and> result s' = result s \<union> stands_for pf"
  using frame_worked_off [OF assms] loop_Nil by metis

end

section \<open>Growing a tree\<close>

text \<open>A set under construction, rooted at the first node allocated after heap \<open>h0\<close>: it is a tree of new nodes.\<close>
definition tree_inv :: "ts_heap \<Rightarrow> ts_heap \<Rightarrow> bool" where
  "tree_inv h0 h \<longleftrightarrow> heap_ok h \<and> extends h0 h \<and> nextId h0 < nextId h \<and>
     (\<forall>p m. walk h (nextId h0) p = Some m \<longrightarrow> nextId h0 \<le> m) \<and>
     (\<forall>p p' m. walk h (nextId h0) p = Some m \<longrightarrow> walk h (nextId h0) p' = Some m \<longrightarrow> p = p')"

definition keeps_walks :: "ts_heap \<Rightarrow> ts_heap \<Rightarrow> ts_heap \<Rightarrow> bool" where
  "keeps_walks h0 h h' \<longleftrightarrow> (\<forall>p m. walk h (nextId h0) p = Some m \<longrightarrow> walk h' (nextId h0) p = Some m)"

lemma tree_invD:
  assumes "tree_inv h0 h"
  shows "heap_ok h" "extends h0 h" "nextId h0 < nextId h" "\<And>p m. walk h (nextId h0) p = Some m \<Longrightarrow> nextId h0 \<le> m \<and> m < nextId h"
    "\<And>p p' m. walk h (nextId h0) p = Some m \<Longrightarrow> walk h (nextId h0) p' = Some m \<longleftrightarrow> p' = p"
  using assms walk_allocated [of h "nextId h0"] unfolding tree_inv_def by blast+

lemma tree_inv_start:
  assumes "heap_ok h0"
  shows "tree_inv h0 (snd (new_TokenSet h0))"
    and "walk (snd (new_TokenSet h0)) (nextId h0) p = (if p = [] then Some (nextId h0) else None)"
proof -
  show *: "walk (snd (new_TokenSet h0)) (nextId h0) p = (if p = [] then Some (nextId h0) else None)" for p
    by (cases p) auto
  then show "tree_inv h0 (snd (new_TokenSet h0))"
    using heap_ok_new [OF assms] extends_new by (auto simp: tree_inv_def split: if_splits)
qed

text \<open>The child of a node for a label, made if there is none, and made final if asked.\<close>
definition child :: "nat \<Rightarrow> char \<Rightarrow> bool \<Rightarrow> ts_heap \<Rightarrow> nat \<times> ts_heap" where
  "child n c b h =
     (case edge h n c of
        Some m \<Rightarrow> (m, set_final m (final (node h m) \<or> b) h)
      | None \<Rightarrow> (nextId h, set_edge n c (nextId h) (set_final (nextId h) b (snd (new_TokenSet h)))))"

lemma tree_child:
  assumes inv: "tree_inv h0 h" and o': "walk h (nextId h0) p = Some n" and ch: "child n c b h = (m, h')"
  shows "tree_inv h0 h'"
    and "walk h' (nextId h0) v = Some y \<longleftrightarrow> walk h (nextId h0) v = Some y \<or> v = p @ [c] \<and> y = m"
    and "accepts h' (nextId h0) v \<longleftrightarrow> accepts h (nextId h0) v \<or> v = p @ [c] \<and> b"
proof -
  let ?out = "nextId h0"
  note ok = tree_invD(1) [OF inv] and ext = tree_invD(2) [OF inv] and lt = tree_invD(3) [OF inv]
    and new = tree_invD(4) [OF inv] and inj = tree_invD(5) [OF inv]
  have "tree_inv h0 h' \<and> (\<forall>v y. walk h' ?out v = Some y \<longleftrightarrow> walk h ?out v = Some y \<or> v = p @ [c] \<and> y = m) \<and>
    (\<forall>v. accepts h' ?out v \<longleftrightarrow> accepts h ?out v \<or> v = p @ [c] \<and> b)"
  proof (cases "edge h n c")
    case (Some k)
    then have h': "h' = set_final m (final (node h m) \<or> b) h" and wm: "walk h ?out (p @ [c]) = Some m"
      using ch o' by (auto simp: child_def walk_append)
    have "accepts h' ?out v \<longleftrightarrow> accepts h ?out v \<or> v = p @ [c] \<and> b" for v
      using inj [OF wm, of v] by (auto simp: accepts_walk h')
    moreover have "tree_inv h0 h'" using inv new [OF wm] by (simp add: tree_inv_def h' extends_set_final)
    ultimately show ?thesis using wm by (auto simp: h')
  next
    case None
    then have m: "m = nextId h" and h': "h' = set_edge n c (nextId h) (set_final (nextId h) b (snd (new_TokenSet h)))"
      using ch by (auto simp: child_def)
    have n: "n < nextId h" "?out \<le> n" using new [OF o'] by auto
    have w: "walk h' ?out v = Some y \<longleftrightarrow> walk h ?out v = Some y \<or> v = p @ [c] \<and> y = m" for v y
      using walk_add_leaf [OF ok n(1) None lt, of b v y] inj [OF o'] by (simp add: h' m)
    have ok': "heap_ok h'" unfolding h' using n heap_ok_new [OF ok] by (intro heap_ok_set_edge) simp_all
    have ext': "extends h0 h'" unfolding h' using n lt extends_trans [OF ext extends_new]
      by (intro extends_set_edge extends_set_final) simp_all
    have "tree_inv h0 h'"
      unfolding tree_inv_def
    proof (intro conjI allI impI)
      show "nextId h0 < nextId h'" using lt by (simp add: h')
      show "nextId h0 \<le> z" if "walk h' ?out v = Some z" for v z using that new [of v z] lt by (auto simp: w m)
      show "v = v'" if "walk h' ?out v = Some z" "walk h' ?out v' = Some z" for v v' z
        using that inj [of v z v'] new [of v z] new [of v' z] by (auto simp: w m)
    qed (use ok' ext' in simp_all)
    moreover have "accepts h' ?out v \<longleftrightarrow> accepts h ?out v \<or> v = p @ [c] \<and> b" for v
    proof -
      have "final (node h' m) = b" using n by (simp add: h' m)
      moreover have "final (node h' y) = final (node h y)" if "walk h ?out v = Some y" for y
        using n new [OF that] by (simp add: h')
      ultimately show ?thesis unfolding accepts_walk w by blast
    qed
    ultimately show ?thesis using w by blast
  qed
  then show "tree_inv h0 h'" "walk h' ?out v = Some y \<longleftrightarrow> walk h ?out v = Some y \<or> v = p @ [c] \<and> y = m"
    "accepts h' ?out v \<longleftrightarrow> accepts h ?out v \<or> v = p @ [c] \<and> b" by blast+
qed

section \<open>Intersecting with a query\<close>

text \<open>The words a query automaton matches: an edge labelled \<open>*\<close> takes any letter.\<close>
fun matches :: "ts_heap \<Rightarrow> nat \<Rightarrow> string \<Rightarrow> bool" where
  "matches h q [] = final (node h q)"
| "matches h q (c # w) =
     ((case edge h q c of None \<Rightarrow> False | Some m \<Rightarrow> matches h m w) \<or>
      (case edge h q (CHR ''*'') of None \<Rightarrow> False | Some m \<Rightarrow> matches h m w))"

lemma matches_extends: "heap_ok h \<Longrightarrow> extends h h' \<Longrightarrow> q < nextId h \<Longrightarrow> matches h' q w = matches h q w"
  by (induction w arbitrary: q) (auto split: option.splits simp: extends_edge extends_final dest: heap_okD)

definition meets :: "ts_heap \<Rightarrow> nat \<Rightarrow> nat \<Rightarrow> string \<Rightarrow> bool" where
  "meets h n q w \<longleftrightarrow> w \<noteq> [] \<and> accepts h n w \<and> matches h q w"

definition fits :: "char \<times> char \<Rightarrow> bool" where
  "fits = (\<lambda>(qEdge, nEdge). nEdge = qEdge \<or> qEdge = CHR ''*'')"

text \<open>The words a pair of nodes has in common, from the pairs of edges that fit.\<close>
lemma meets_edges:
  "meets h n q v \<longleftrightarrow> (\<exists>a c q' n' w. edge h q a = Some q' \<and> edge h n c = Some n' \<and> fits (a, c) \<and> v = c # w \<and>
     (w = [] \<and> final (node h n') \<and> final (node h q') \<or> meets h n' q' w))"
proof (cases v)
  case (Cons c w)
  have "accepts h n' w \<and> matches h q' w \<longleftrightarrow> w = [] \<and> final (node h n') \<and> final (node h q') \<or> meets h n' q' w" for n' q'
    by (cases w) (auto simp: meets_def)
  then show ?thesis unfolding Cons by (auto simp: meets_def fits_def split: option.splits)
qed (simp add: meets_def)

text \<open>The state of the loop of \<open>this.intersect(b)\<close> that started in heap \<open>h0\<close>: the output is a tree of starts of words
  of \<open>this\<close>.\<close>
definition meet_inv :: "ts_heap \<Rightarrow> nat \<Rightarrow> ts_heap \<Rightarrow> bool" where
  "meet_inv h0 this h \<longleftrightarrow> tree_inv h0 h \<and> (\<forall>p m. walk h (nextId h0) p = Some m \<longrightarrow> walk h0 this p \<noteq> None)"

definition frame_at :: "ts_heap \<Rightarrow> nat \<Rightarrow> ts_heap \<Rightarrow> string \<Rightarrow> meet_frame \<Rightarrow> bool" where
  "frame_at h0 this h p fr \<longleftrightarrow> walk h (nextId h0) p = Some (out_node fr) \<and> walk h0 this p = Some (idx_node fr) \<and>
     idx_node fr < nextId h0 \<and> qNode fr < nextId h0"

lemma frame_at_keeps: "frame_at h0 this h p fr \<Longrightarrow> keeps_walks h0 h h' \<Longrightarrow> frame_at h0 this h' p fr"
  by (simp add: frame_at_def keeps_walks_def)

text \<open>One pair of edges that fit.\<close>
lemma meet_edge_ok:
  assumes inv: "meet_inv h0 this h" and h0: "heap_ok h0" and fr: "frame_at h0 this h p fr"
    and e: "edge h0 (qNode fr) a = Some q'" "edge h0 (idx_node fr) c = Some n'" and fit: "fits (a, c)"
  shows "\<exists>fr' h'. meet_edge fr a c (pushed, h) = (pushed @ [fr'], h') \<and> meet_inv h0 this h' \<and> keeps_walks h0 h h' \<and>
    frame_at h0 this h' (p @ [c]) fr' \<and> qNode fr' = q' \<and> idx_node fr' = n' \<and>
    (\<forall>w. accepts h' (nextId h0) w \<longleftrightarrow> accepts h (nextId h0) w \<or>
       w = p @ [c] \<and> final (node h0 n') \<and> final (node h0 q'))"
proof -
  let ?fin = "final (node h0 n') \<and> final (node h0 q')"
  have tree: "tree_inv h0 h" and pre: "\<forall>p m. walk h (nextId h0) p = Some m \<longrightarrow> walk h0 this p \<noteq> None"
    using inv by (simp_all add: meet_inv_def)
  note ext = tree_invD(2) [OF tree]
  have o': "walk h (nextId h0) p = Some (out_node fr)" and ip: "walk h0 this p = Some (idx_node fr)"
    and lts: "idx_node fr < nextId h0" "qNode fr < nextId h0" using fr by (auto simp: frame_at_def)
  have ip': "walk h0 this (p @ [c]) = Some n'" using ip e(2) by (simp add: walk_append)
  have n'q': "n' < nextId h0" "q' < nextId h0" using heap_okD [OF h0] e by blast+
  obtain m h' where ch: "child (out_node fr) c ?fin h = (m, h')" by fastforce
  note ok = tree_child [OF tree o' ch]
  have "meet_edge fr a c (pushed, h) = (pushed @ [\<lparr>qNode = q', out_node = m, idx_node = n'\<rparr>], h')"
    using fit e lts n'q' extends_edge [OF ext] extends_final [OF ext] ch
    by (auto simp: meet_edge_def fits_def Let_def case_prod_unfold child_def split: option.splits)
  moreover have "meet_inv h0 this h'" using ok(1) pre ip' by (auto simp: meet_inv_def ok(2))
  ultimately show ?thesis
    using ok(3) ip' n'q'
    by (intro exI [of _ "\<lparr>qNode = q', out_node = m, idx_node = n'\<rparr>"] exI [of _ h'])
      (simp add: frame_at_def keeps_walks_def ok(2))
qed

text \<open>The words a frame still adds to the output.\<close>
definition adds :: "ts_heap \<Rightarrow> string \<times> meet_frame \<Rightarrow> string set" where
  "adds h0 pf = {fst pf @ v |v. meets h0 (idx_node (snd pf)) (qNode (snd pf)) v}"

text \<open>What one pair of edges of a frame adds.\<close>
definition pair_adds :: "ts_heap \<Rightarrow> string \<times> meet_frame \<Rightarrow> char \<times> char \<Rightarrow> string set" where
  "pair_adds h0 pf ac = {fst pf @ snd ac # w |w q' n'. fits ac \<and> edge h0 (qNode (snd pf)) (fst ac) = Some q' \<and>
     edge h0 (idx_node (snd pf)) (snd ac) = Some n' \<and>
     (w = [] \<and> final (node h0 n') \<and> final (node h0 q') \<or> meets h0 n' q' w)}"

lemma adds_pairs:
  "adds h0 pf = (\<Union>a \<in> {a. edge h0 (qNode (snd pf)) a \<noteq> None}. \<Union>c \<in> {c. edge h0 (idx_node (snd pf)) c \<noteq> None}. pair_adds h0 pf (a, c))"
  unfolding adds_def pair_adds_def by (subst meets_edges) (auto, blast+)

lemma meet_pairs:
  assumes h0: "heap_ok h0"
    and "meet_inv h0 this h" "frame_at h0 this h p fr"
    and "\<And>a c. (a, c) \<in> set ps \<Longrightarrow> edge h0 (qNode fr) a \<noteq> None \<and> edge h0 (idx_node fr) c \<noteq> None"
  shows "\<exists>pfs h'. foldl (\<lambda>ph (q, n). meet_edge fr q n ph) (pushed, h) ps = (pushed @ map snd pfs, h') \<and>
    meet_inv h0 this h' \<and> keeps_walks h0 h h' \<and>
    (\<forall>pf \<in> set pfs. frame_at h0 this h' (fst pf) (snd pf) \<and> length (fst pf) = Suc (length p)) \<and>
    (\<forall>w. accepts h' (nextId h0) w \<or> w \<in> \<Union> (adds h0 ` set pfs) \<longleftrightarrow>
       accepts h (nextId h0) w \<or> w \<in> \<Union> (pair_adds h0 (p, fr) ` set ps))"
  using assms(2-)
proof (induction ps arbitrary: pushed h)
  case Nil
  then show ?case by (intro exI [of _ "[]"] exI [of _ h]) (simp add: keeps_walks_def)
next
  case (Cons ac ps)
  obtain a c where ac: "ac = (a, c)" by fastforce
  have es: "edge h0 (qNode fr) a' \<noteq> None \<and> edge h0 (idx_node fr) c' \<noteq> None" if "(a', c') \<in> set ps" for a' c'
    using Cons.prems(3) [of a' c'] that by simp
  show ?case
  proof (cases "fits (a, c)")
    case False
    then have "meet_edge fr a c (pushed, h) = (pushed, h)" by (simp add: meet_edge_def fits_def)
    moreover have "pair_adds h0 (p, fr) ac = {}" using False by (simp add: pair_adds_def ac)
    ultimately show ?thesis using Cons.IH [OF Cons.prems(1,2) es, of pushed] by (simp add: ac)
  next
    case True
    obtain q' n' where e: "edge h0 (qNode fr) a = Some q'" "edge h0 (idx_node fr) c = Some n'"
      using Cons.prems(3) [of a c] ac by auto
    obtain fr' h1 where step: "meet_edge fr a c (pushed, h) = (pushed @ [fr'], h1)" and inv1: "meet_inv h0 this h1"
      and k1: "keeps_walks h0 h h1" and at1: "frame_at h0 this h1 (p @ [c]) fr'" "qNode fr' = q'" "idx_node fr' = n'"
      and acc1: "\<And>w. accepts h1 (nextId h0) w \<longleftrightarrow> accepts h (nextId h0) w \<or>
        w = p @ [c] \<and> final (node h0 n') \<and> final (node h0 q')"
      using meet_edge_ok [OF Cons.prems(1) h0 Cons.prems(2) e True, of pushed] by blast
    obtain pfs h' where rest: "foldl (\<lambda>ph (q, n). meet_edge fr q n ph) (pushed @ [fr'], h1) ps = (pushed @ [fr'] @ map snd pfs, h')"
      and inv': "meet_inv h0 this h'" and k': "keeps_walks h0 h1 h'"
      and at': "\<forall>pf \<in> set pfs.
        frame_at h0 this h' (fst pf) (snd pf) \<and> length (fst pf) = Suc (length p)"
      and acc': "\<forall>w. accepts h' (nextId h0) w \<or> w \<in> \<Union> (adds h0 ` set pfs) \<longleftrightarrow>
        accepts h1 (nextId h0) w \<or> w \<in> \<Union> (pair_adds h0 (p, fr) ` set ps)"
      using Cons.IH [OF inv1 frame_at_keeps [OF Cons.prems(2) k1] es, of "pushed @ [fr']"] by auto
    have pair: "w \<in> pair_adds h0 (p, fr) ac \<longleftrightarrow>
        w = p @ [c] \<and> final (node h0 n') \<and> final (node h0 q') \<or> w \<in> adds h0 (p @ [c], fr')" for w
      using True e at1(2,3) by (auto simp: pair_adds_def adds_def ac)
    have "accepts h' (nextId h0) w \<or> w \<in> \<Union> (adds h0 ` set ((p @ [c], fr') # pfs)) \<longleftrightarrow>
       accepts h (nextId h0) w \<or> w \<in> \<Union> (pair_adds h0 (p, fr) ` set (ac # ps))" for w
      using acc' acc1 [of w] pair [of w] by auto
    moreover have "\<forall>pf \<in> set ((p @ [c], fr') # pfs). frame_at h0 this h' (fst pf) (snd pf) \<and>
        length (fst pf) = Suc (length p)"
      using at' frame_at_keeps [OF at1(1) k'] by auto
    moreover have "keeps_walks h0 h h'" using k1 k' by (simp add: keeps_walks_def)
    ultimately show ?thesis
      using step rest inv' by (intro exI [of _ "(p @ [c], fr') # pfs"] exI [of _ h']) (simp add: ac)
  qed
qed

lemma meet_loop_Nil [simp]: "meet_loop [] h = Some h"
  by (simp add: meet_loop.simps)

lemma meet_loop_Cons: "meet_loop (fr # rest) h = (case meet_step fr h of (pushed, h') \<Rightarrow> meet_loop (rev pushed @ rest) h')"
  by (subst meet_loop.simps) simp

lemma meet_step_ok:
  assumes h0: "heap_ok h0" and inv: "meet_inv h0 this h" and at0: "frame_at h0 this h p fr"
  shows "\<exists>pfs h'. meet_step fr h = (map snd pfs, h') \<and> meet_inv h0 this h' \<and> keeps_walks h0 h h' \<and>
    (\<forall>pf \<in> set pfs. frame_at h0 this h' (fst pf) (snd pf) \<and> length (fst pf) = Suc (length p)) \<and>
    {w. accepts h' (nextId h0) w} \<union> \<Union> (adds h0 ` set pfs) = {w. accepts h (nextId h0) w} \<union> adds h0 (p, fr)"
proof -
  have "extends h0 h" using inv tree_invD(2) by (simp add: meet_inv_def)
  then have keys: "edge_keys h (idx_node fr) = edge_keys h0 (idx_node fr)" "edge_keys h (qNode fr) = edge_keys h0 (qNode fr)"
    using at0 by (simp_all add: edge_keys_def extends_def frame_at_def)
  define ps where "ps = concat (map (\<lambda>q. map (Pair q) (edge_keys h0 (idx_node fr))) (edge_keys h0 (qNode fr)))"
  have ps: "(a, c) \<in> set ps \<longleftrightarrow> edge h0 (qNode fr) a \<noteq> None \<and> edge h0 (idx_node fr) c \<noteq> None" for a c
    by (auto simp: ps_def set_edge_keys)
  have fold: "meet_step fr h = foldl (\<lambda>ph (q, n). meet_edge fr q n ph) ([], h) ps"
    by (simp add: meet_step_def keys ps_def)
  have "\<Union> (pair_adds h0 (p, fr) ` set ps) = adds h0 (p, fr)"
    unfolding adds_pairs using ps by force
  then show ?thesis using meet_pairs [OF h0 inv at0, of ps "[]"] ps unfolding fold by (simp add: set_eq_iff)
qed

definition meet_state :: "ts_heap \<Rightarrow> nat \<Rightarrow> nat \<Rightarrow> ts_heap \<Rightarrow> bool" where
  "meet_state h0 this k h \<longleftrightarrow> heap_ok h0 \<and> bounded h0 this k \<and> meet_inv h0 this h"

interpretation meet: stack_loop meet_loop meet_step "meet_state h0 this k" "\<lambda>h pf. frame_at h0 this h (fst pf) (snd pf)"
  "keeps_walks h0" "\<lambda>h. {w. accepts h (nextId h0) w}" "adds h0" "\<lambda>pf. k - length (fst pf)"
  for h0 this k
proof
  fix h p fr assume inv: "meet_state h0 this k h" and at0: "frame_at h0 this h (fst (p, fr)) (snd (p, fr))"
  have short: "length p \<le> k" if "frame_at h0 this h p fr" for p fr h
    using that inv by (auto simp: meet_state_def bounded_def frame_at_def)
  obtain pfs h' where step: "meet_step fr h = (map snd pfs, h')" "meet_inv h0 this h'" "keeps_walks h0 h h'"
    and pfs: "\<forall>pf \<in> set pfs. frame_at h0 this h' (fst pf) (snd pf) \<and> length (fst pf) = Suc (length p)"
    and res: "{w. accepts h' (nextId h0) w} \<union> \<Union> (adds h0 ` set pfs) = {w. accepts h (nextId h0) w} \<union> adds h0 (p, fr)"
    using meet_step_ok [of h0 this h p fr] inv at0 by (auto simp: meet_state_def)
  have "k - length (fst pf) < k - length p" if "pf \<in> set pfs" for pf
    using pfs that short [of h' "fst pf" "snd pf"] by auto
  then show "\<exists>pfs h'. meet_step fr h = (map snd pfs, h') \<and> meet_state h0 this k h' \<and> keeps_walks h0 h h' \<and>
      (\<forall>pf \<in> set pfs. frame_at h0 this h' (fst pf) (snd pf) \<and> k - length (fst pf) < k - length (fst (p, fr))) \<and>
      {w. accepts h' (nextId h0) w} \<union> \<Union> (adds h0 ` set pfs) = {w. accepts h (nextId h0) w} \<union> adds h0 (p, fr)"
    using step pfs res inv by (intro exI [of _ pfs] exI [of _ h']) (simp add: meet_state_def)
qed (simp_all add: meet_loop_Cons keeps_walks_def frame_at_def)

lemma meet_inv_start: "heap_ok h0 \<Longrightarrow> meet_inv h0 this (snd (new_TokenSet h0))"
  by (simp add: meet_inv_def tree_inv_start)

text \<open>Intersecting a set without cycles with a query automaton ends; the result is a new set of the words, other
  than the empty one, that both have.\<close>
lemma intersect_words:
  assumes h: "heap_ok h" and lt: "this < nextId h" "b < nextId h" and bd: "bounded h this k"
  shows "\<exists>out h'. TokenSet_intersect this b h = Some (out, h') \<and> heap_ok h' \<and> extends h h' \<and> out < nextId h' \<and>
    bounded h' out k \<and> (\<forall>w. accepts h' out w \<longleftrightarrow> w \<noteq> [] \<and> accepts h this w \<and> matches h b w)"
proof -
  define fr where "fr = \<lparr>qNode = b, out_node = nextId h, idx_node = this\<rparr>"
  let ?h1 = "snd (new_TokenSet h)"
  have "frame_at h this ?h1 [] fr" using lt by (simp add: frame_at_def fr_def)
  moreover have "meet_state h this k ?h1" using h bd meet_inv_start [OF h] by (simp add: meet_state_def)
  ultimately obtain h' where loop: "meet_loop [fr] ?h1 = Some h'" and inv: "meet_inv h this h'"
    and acc: "{w. accepts h' (nextId h) w} = {w. accepts ?h1 (nextId h) w} \<union> adds h ([], fr)"
    using meet.loop_ends [of h this k ?h1 "([], fr)"] by (auto simp: meet_state_def)
  have "\<not> accepts ?h1 (nextId h) w" for w by (cases w) (auto simp: blank_node_def)
  then have "accepts h' (nextId h) w \<longleftrightarrow> w \<noteq> [] \<and> accepts h this w \<and> matches h b w" for w
    using acc by (auto simp: adds_def meets_def fr_def set_eq_iff)
  moreover have "bounded h' (nextId h) k"
    using inv bd unfolding meet_inv_def bounded_def by blast
  moreover have "TokenSet_intersect this b h = Some (nextId h, h')"
    using loop by (simp add: TokenSet_intersect_def fr_def case_prod_unfold)
  ultimately show ?thesis using inv tree_invD(1-3) [of h h'] by (auto simp: meet_inv_def)
qed

section \<open>Query terms with wildcards\<close>

text \<open>What a term with wildcards means: \<open>*\<close> stands for any text.\<close>
fun glob :: "string \<Rightarrow> string \<Rightarrow> bool" where
  "glob [] w = (w = [])"
| "glob (p # ps) [] = (p = CHR ''*'' \<and> glob ps [])"
| "glob (p # ps) (c # w) = (if p = CHR ''*'' then glob ps (c # w) \<or> glob (p # ps) w else c = p \<and> glob ps w)"

lemma glob_star: "glob (CHR ''*'' # ps) w \<longleftrightarrow> (\<exists>u v. w = u @ v \<and> glob ps v)"
proof (induction w)
  case (Cons c w)
  have "(\<exists>u v. c # w = u @ v \<and> glob ps v) \<longleftrightarrow> glob ps (c # w) \<or> (\<exists>u v. w = u @ v \<and> glob ps v)"
    by (metis append_Cons append_Nil append_eq_Cons_conv)
  then show ?case using Cons.IH by simp
qed simp

lemma glob_star_star [simp]: "glob (CHR ''*'' # CHR ''*'' # ps) = glob (CHR ''*'' # ps)"
proof
  fix w
  show "glob (CHR ''*'' # CHR ''*'' # ps) w = glob (CHR ''*'' # ps) w"
    unfolding glob_star by (metis append_assoc append_Nil)
qed

lemma glob_plain: "CHR ''*'' \<notin> set p \<Longrightarrow> glob p w \<longleftrightarrow> w = p"
  by (induction p w rule: glob.induct) auto

text \<open>The loop of \<open>fromString\<close> at a node that has no edge yet, except that it may already take any letter.\<close>
lemma string_loop_ok:
  assumes "heap_ok h" "n < nextId h" "edge h n = (if star then [CHR ''*'' \<mapsto> n] else Map.empty)"
    "s \<noteq> [] \<longrightarrow> \<not> final (node h n)"
  shows "heap_ok (string_loop n s h) \<and> nextId h \<le> nextId (string_loop n s h) \<and>
    (\<forall>x < nextId h. x \<noteq> n \<longrightarrow> node (string_loop n s h) x = node h x) \<and>
    (s \<noteq> [] \<longrightarrow> (\<forall>w. matches (string_loop n s h) n w \<longleftrightarrow> glob ((if star then ''*'' else []) @ s) w))"
  using assms
proof (induction s arbitrary: n h star)
  case (Cons c cs)
  let ?P = "(if star then ''*'' else []) :: string"
  show ?case
  proof (cases "c = CHR ''*''")
    case True
    define h1 where "h1 = set_final n (cs = []) (set_edge n c n h)"
    have h1: "heap_ok h1" "n < nextId h1" "nextId h1 = nextId h" "edge h1 n = [CHR ''*'' \<mapsto> n]" "final (node h1 n) = (cs = [])"
      using Cons.prems True heap_ok_set_edge [of h n n c] by (auto simp: h1_def)
    have loop: "string_loop n (c # cs) h = string_loop n cs h1" using True by (simp add: h1_def)
    have IH: "heap_ok (string_loop n cs h1)" "nextId h1 \<le> nextId (string_loop n cs h1)"
        "\<And>x. x < nextId h1 \<Longrightarrow> x \<noteq> n \<Longrightarrow> node (string_loop n cs h1) x = node h1 x"
        "cs \<noteq> [] \<Longrightarrow> matches (string_loop n cs h1) n w \<longleftrightarrow> glob (''*'' @ cs) w" for w
      using Cons.IH [of h1 n True] h1 by simp_all
    have "matches h1 n w \<longleftrightarrow> glob ''*'' w" if "cs = []" for w
      using that h1(4,5) by (induction w) auto
    moreover have "glob (?P @ c # cs) = glob (''*'' @ cs)" using True by simp
    ultimately have "matches (string_loop n cs h1) n w \<longleftrightarrow> glob (?P @ c # cs) w" for w
      using IH h1(5) by (cases "cs = []") auto
    moreover have "node h1 x = node h x" if "x \<noteq> n" for x using that by (simp add: h1_def)
    ultimately show ?thesis unfolding loop using IH h1(3,5) by simp
  next
    case False
    let ?m = "nextId h"
    define h1 where "h1 = set_edge n c ?m (set_final ?m (cs = []) (snd (new_TokenSet h)))"
    have h1: "heap_ok h1" "nextId h1 = Suc ?m" "edge h1 ?m = Map.empty" "final (node h1 ?m) = (cs = [])"
      "edge h1 n = (edge h n)(c \<mapsto> ?m)" "\<not> final (node h1 n)" "\<And>x. x \<noteq> n \<Longrightarrow> x < ?m \<Longrightarrow> node h1 x = node h x"
      using Cons.prems heap_ok_set_edge [OF _ , of _ n ?m c] heap_ok_new [of h] by (auto simp: h1_def)
    define h2 where "h2 = string_loop ?m cs h1"
    have loop: "string_loop n (c # cs) h = h2" using False by (simp add: h1_def h2_def Let_def case_prod_unfold)
    have IH: "heap_ok h2" "nextId h1 \<le> nextId h2" "\<And>x. x < Suc ?m \<Longrightarrow> x \<noteq> ?m \<Longrightarrow> node h2 x = node h1 x"
       "cs \<noteq> [] \<Longrightarrow> matches h2 ?m w \<longleftrightarrow> glob cs w" for w
      using Cons.IH [of h1 ?m False] h1 by (auto simp: h2_def)
    have m: "matches h2 ?m w \<longleftrightarrow> glob cs w" for w
    proof (cases "cs = []")
      case True
      then show ?thesis using h1(3,4) by (cases w) (auto simp: h2_def)
    qed (simp add: IH(4))
    have n: "node h2 n = node h1 n" using IH(3) [of n] Cons.prems(2) by simp
    then have "edge h2 n = edge h1 n" by (simp add: edge_def fun_eq_iff)
    then have e: "edge h2 n = (if star then [CHR ''*'' \<mapsto> n] else Map.empty)(c \<mapsto> ?m)"
      using h1(5) Cons.prems(3) by simp
    have "matches h2 n w \<longleftrightarrow> glob (?P @ c # cs) w" for w
    proof (induction w)
      case Nil
      show ?case using n h1(6) False by simp
    next
      case (Cons d w)
      then show ?case using e m False by auto
    qed
    then show ?thesis unfolding loop using IH h1(2,7) by auto
  qed
qed simp

text \<open>The automaton of a query term matches what its wildcards say.\<close>
lemma fromString_ok:
  assumes "heap_ok h"
  shows "\<exists>q h'. TokenSet_fromString s h = (q, h') \<and> heap_ok h' \<and> extends h h' \<and> q < nextId h' \<and>
    (\<forall>w. w \<noteq> [] \<longrightarrow> (matches h' q w \<longleftrightarrow> glob s w))"
proof -
  let ?h1 = "snd (new_TokenSet h)"
  have *: "heap_ok (string_loop (nextId h) s ?h1) \<and> Suc (nextId h) \<le> nextId (string_loop (nextId h) s ?h1) \<and>
      (\<forall>x < Suc (nextId h). x \<noteq> nextId h \<longrightarrow> node (string_loop (nextId h) s ?h1) x = node ?h1 x) \<and>
      (s \<noteq> [] \<longrightarrow> (\<forall>w. matches (string_loop (nextId h) s ?h1) (nextId h) w \<longleftrightarrow> glob s w))"
    using string_loop_ok [of ?h1 "nextId h" False s] heap_ok_new [OF assms] by (simp add: blank_node_def)
  moreover have "\<not> matches (string_loop (nextId h) [] ?h1) (nextId h) w" if "w \<noteq> []" for w
    using that by (cases w) auto
  ultimately show ?thesis
    by (intro exI [of _ "nextId h"] exI [of _ "string_loop (nextId h) s ?h1"], cases "s = []")
      (auto simp: TokenSet_fromString_def case_prod_unfold extends_def prod_eq_iff)
qed

section \<open>Query terms with an edit distance\<close>

text \<open>A word matches an automaton if it fits one of the texts that lead to a final node.\<close>
lemma matches_patterns: "matches h q w \<longleftrightarrow> (\<exists>p. accepts h q p \<and> list_all2 (\<lambda>a c. fits (a, c)) p w)"
proof (induction w arbitrary: q)
  case (Cons c w)
  have "(\<exists>p. accepts h q p \<and> list_all2 (\<lambda>a c. fits (a, c)) p (c # w)) \<longleftrightarrow>
      (\<exists>a m. fits (a, c) \<and> edge h q a = Some m \<and> (\<exists>p. accepts h m p \<and> list_all2 (\<lambda>a c. fits (a, c)) p w))"
  proof -
    have "accepts h q (a # p) \<longleftrightarrow> (\<exists>m. edge h q a = Some m \<and> accepts h m p)" for a p by (auto split: option.splits)
    then show ?thesis unfolding list_all2_Cons2 by blast
  qed
  also have "\<dots> \<longleftrightarrow> (\<exists>a m. fits (a, c) \<and> edge h q a = Some m \<and> matches h m w)" by (simp add: Cons.IH)
  finally show ?case by (auto simp: fits_def split: option.splits)
qed simp

text \<open>The texts a frame of \<open>fromFuzzyString\<close> adds below its node.\<close>
function pats :: "nat \<Rightarrow> string \<Rightarrow> string set" where
  "pats k s =
     (case s of [] \<Rightarrow> {} | a # s' \<Rightarrow> (#) a ` ({v. s' = [] \<and> v = []} \<union> pats k s')) \<union>
     (if k = 0 then {} else
        (#) (CHR ''*'') ` ({v. s = [] \<and> v = []} \<union> pats (k - 1) s) \<union>
        (case s of [] \<Rightarrow> {} | a # s' \<Rightarrow> (if s' = [] then {[]} else pats (k - 1) s') \<union>
           (#) (CHR ''*'') ` ({v. s' = [] \<and> v = []} \<union> pats (k - 1) s') \<union>
           (case s' of [] \<Rightarrow> {} | b # s'' \<Rightarrow> (#) b ` pats (k - 1) (a # s''))))"
  by pat_completeness auto
termination
  by (relation "measure (\<lambda>(k, s). k + length s)") auto

declare pats.simps [simp del]

text \<open>One part of the body of the loop: go to a child, which may become final, and push a frame for it.\<close>
definition visit ::
  "bool \<Rightarrow> nat \<Rightarrow> char \<Rightarrow> bool \<Rightarrow> (nat \<Rightarrow> fuzzy_frame) \<Rightarrow> ts_heap \<Rightarrow> fuzzy_frame list \<times> ts_heap" where
  "visit cond n c b f h =
     (if cond then (case ensure_edge n c h of (m, h') \<Rightarrow> ([f m], if b then set_final m True h' else h')) else ([], h))"

lemma fuzzy_step_visits:
  "fuzzy_step fr h0 =
     (let n = fz_node fr; s = fz_str fr; k = editsRemaining fr;
          (noEdit, h1) = visit (s \<noteq> []) n (hd s) (length s = 1) (\<lambda>m. \<lparr>fz_node = m, editsRemaining = k, fz_str = tl s\<rparr>) h0
      in if k = 0 then (noEdit, h1)
         else
           let (insertion, h2) = visit True n (CHR ''*'') (s = []) (\<lambda>m. \<lparr>fz_node = m, editsRemaining = k - 1, fz_str = s\<rparr>) h1;
               deletion = (if 1 < length s then [\<lparr>fz_node = n, editsRemaining = k - 1, fz_str = tl s\<rparr>] else []);
               h4 = (if length s = 1 then set_final n True h2 else h2);
               (substitution, h5) = visit (s \<noteq> []) n (CHR ''*'') (length s = 1) (\<lambda>m. \<lparr>fz_node = m, editsRemaining = k - 1, fz_str = tl s\<rparr>) h4;
               (transposition, h6) = visit (1 < length s) n (s ! 1) False (\<lambda>m. \<lparr>fz_node = m, editsRemaining = k - 1, fz_str = hd s # drop 2 s\<rparr>) h5
           in (noEdit @ insertion @ deletion @ substitution @ transposition, h6))"
  unfolding fuzzy_step_def visit_def Let_def by (simp add: case_prod_unfold)

lemma set_final_same: "set_final m (final (node h m)) h = h"
  by (simp add: set_final_def)

lemma visit_child:
  assumes "n < nextId h" "child n c b h = (m, h')"
  shows "visit True n c b f h = ([f m], h')"
proof (cases "edge h n c")
  case None
  have "set_final (nextId h) b (set_edge n c (nextId h) (snd (new_TokenSet h))) = h'"
    using None assms by (auto simp: child_def set_final_def set_edge_def fun_upd_twist)
  moreover have "set_final (nextId h) False (set_edge n c (nextId h) (snd (new_TokenSet h))) =
      set_edge n c (nextId h) (snd (new_TokenSet h))"
    using set_final_same [of "nextId h" "set_edge n c (nextId h) (snd (new_TokenSet h))"] assms(1)
    by (simp add: blank_node_def)
  ultimately show ?thesis
    using None assms(2) by (cases b) (auto simp: visit_def ensure_edge_def child_def case_prod_unfold)
qed (use assms(2) set_final_same in \<open>auto simp: visit_def ensure_edge_def child_def\<close>)

lemma visit_ok:
  assumes inv: "tree_inv h0 h" and n: "walk h (nextId h0) pre = Some n"
  shows "\<exists>m h'. visit cond n c b f h = (if cond then [f m] else [], h') \<and> tree_inv h0 h' \<and> keeps_walks h0 h h' \<and>
    (cond \<longrightarrow> walk h' (nextId h0) (pre @ [c]) = Some m) \<and>
    (\<forall>v. accepts h' (nextId h0) v \<longleftrightarrow> accepts h (nextId h0) v \<or> cond \<and> b \<and> v = pre @ [c])"
proof (cases cond)
  case False
  then show ?thesis using inv by (auto simp: visit_def keeps_walks_def)
next
  case True
  obtain m h' where ch: "child n c b h = (m, h')" by fastforce
  have "visit cond n c b f h = ([f m], h')"
    using visit_child [OF _ ch] tree_invD(4) [OF inv n] True by simp
  then show ?thesis
    using tree_child [OF inv n ch] True by (intro exI [of _ m] exI [of _ h']) (auto simp: keeps_walks_def)
qed

text \<open>The texts a frame with its path still adds, and the work left in a frame.\<close>
definition fuzzy_adds :: "string \<times> fuzzy_frame \<Rightarrow> string set" where
  "fuzzy_adds pf = (@) (fst pf) ` pats (editsRemaining (snd pf)) (fz_str (snd pf))"

definition work :: "fuzzy_frame \<Rightarrow> nat" where
  "work fr = editsRemaining fr + length (fz_str fr)"

definition fuzzy_at :: "ts_heap \<Rightarrow> ts_heap \<Rightarrow> string \<times> fuzzy_frame \<Rightarrow> bool" where
  "fuzzy_at h0 h pf \<longleftrightarrow> walk h (nextId h0) (fst pf) = Some (fz_node (snd pf))"

lemma keeps_walks_trans: "keeps_walks h0 h h1 \<Longrightarrow> keeps_walks h0 h1 h2 \<Longrightarrow> keeps_walks h0 h h2"
  by (simp add: keeps_walks_def)

lemma tree_final:
  assumes "tree_inv h0 h" "walk h (nextId h0) pre = Some n"
  shows "tree_inv h0 (set_final n True h)"
    and "accepts (set_final n True h) (nextId h0) v \<longleftrightarrow> accepts h (nextId h0) v \<or> v = pre"
proof -
  have "nextId h0 \<le> n" "\<And>v. walk h (nextId h0) v = Some n \<longleftrightarrow> v = pre" using tree_invD(4,5) [OF assms] by auto
  then show "tree_inv h0 (set_final n True h)"
      "accepts (set_final n True h) (nextId h0) v \<longleftrightarrow> accepts h (nextId h0) v \<or> v = pre"
    using assms(1) by (simp_all add: tree_inv_def extends_set_final accepts_set_final)
qed

lemma fuzzy_step_ok:
  assumes inv: "tree_inv h0 h" and at0: "fuzzy_at h0 h (pre, fr)"
  shows "\<exists>pfs h'. fuzzy_step fr h = (map snd pfs, h') \<and> tree_inv h0 h' \<and> keeps_walks h0 h h' \<and>
    (\<forall>pf \<in> set pfs. fuzzy_at h0 h' pf \<and> work (snd pf) < work fr) \<and>
    (\<forall>v. accepts h' (nextId h0) v \<or> v \<in> \<Union> (fuzzy_adds ` set pfs) \<longleftrightarrow>
       accepts h (nextId h0) v \<or> v \<in> fuzzy_adds (pre, fr))"
proof -
  let ?out = "nextId h0"
  obtain n k s where fr: "fr = \<lparr>fz_node = n, editsRemaining = k, fz_str = s\<rparr>" by (cases fr)
  let ?f = "\<lambda>k s m. \<lparr>fz_node = m, editsRemaining = k, fz_str = s\<rparr>"
  have w0: "walk h ?out pre = Some n" using at0 by (simp add: fuzzy_at_def fr)
  obtain m1 h1 where 1: "visit (s \<noteq> []) n (hd s) (length s = 1) (?f k (tl s)) h = (if s \<noteq> [] then [?f k (tl s) m1] else [], h1)"
      "tree_inv h0 h1" "keeps_walks h0 h h1" "s \<noteq> [] \<Longrightarrow> walk h1 ?out (pre @ [hd s]) = Some m1"
      "\<And>v. accepts h1 ?out v \<longleftrightarrow> accepts h ?out v \<or> s \<noteq> [] \<and> length s = 1 \<and> v = pre @ [hd s]"
    using visit_ok [OF inv w0, of "s \<noteq> []" "hd s" "length s = 1" "?f k (tl s)"] by blast
  show ?thesis
  proof (cases "k = 0")
    case True
    define pfs where "pfs = (if s \<noteq> [] then [(pre @ [hd s], ?f k (tl s) m1)] else [])"
    have step: "fuzzy_step fr h = (map snd pfs, h1)"
      using 1(1) True by (simp add: fuzzy_step_visits fr Let_def pfs_def)
    have "accepts h1 ?out v \<or> v \<in> \<Union> (fuzzy_adds ` set pfs) \<longleftrightarrow> accepts h ?out v \<or> v \<in> fuzzy_adds (pre, fr)" for v
      using True by (auto simp: 1(5) pfs_def fuzzy_adds_def fr pats.simps [of 0 s] split: list.splits)
    moreover have "\<forall>pf \<in> set pfs. fuzzy_at h0 h1 pf \<and> work (snd pf) < work fr"
      using 1(4) by (auto simp: pfs_def fuzzy_at_def work_def fr)
    ultimately show ?thesis using step 1(2,3) by blast
  next
    case False
    note w1 = 1(3) [unfolded keeps_walks_def, rule_format, OF w0]
    obtain m2 h2 where 2: "visit True n (CHR ''*'') (s = []) (?f (k - 1) s) h1 = ([?f (k - 1) s m2], h2)"
      "tree_inv h0 h2" "keeps_walks h0 h1 h2" "walk h2 ?out (pre @ ''*'') = Some m2"
      "\<And>v. accepts h2 ?out v \<longleftrightarrow> accepts h1 ?out v \<or> s = [] \<and> v = pre @ ''*''"
      using visit_ok [OF 1(2) w1, of True "CHR ''*''" "s = []" "?f (k - 1) s"] by auto
    note w2 = 2(3) [unfolded keeps_walks_def, rule_format, OF w1]
    define h4 where "h4 = (if length s = 1 then set_final n True h2 else h2)"
    have 4: "tree_inv h0 h4" "keeps_walks h0 h2 h4" "\<And>v. accepts h4 ?out v \<longleftrightarrow> accepts h2 ?out v \<or> length s = 1 \<and> v = pre"
      using tree_final [OF 2(2) w2] 2(2) by (auto simp: h4_def keeps_walks_def)
    note w4 = 4(2) [unfolded keeps_walks_def, rule_format, OF w2]
    obtain m5 h5 where 5: "visit (s \<noteq> []) n (CHR ''*'') (length s = 1) (?f (k - 1) (tl s)) h4 =
        (if s \<noteq> [] then [?f (k - 1) (tl s) m5] else [], h5)"
      "tree_inv h0 h5" "keeps_walks h0 h4 h5" "s \<noteq> [] \<Longrightarrow> walk h5 ?out (pre @ ''*'') = Some m5"
      "\<And>v. accepts h5 ?out v \<longleftrightarrow> accepts h4 ?out v \<or> s \<noteq> [] \<and> length s = 1 \<and> v = pre @ ''*''"
      using visit_ok [OF 4(1) w4, of "s \<noteq> []" "CHR ''*''" "length s = 1" "?f (k - 1) (tl s)"] by blast
    note w5 = 5(3) [unfolded keeps_walks_def, rule_format, OF w4]
    obtain m6 h6 where 6: "visit (1 < length s) n (s ! 1) False (?f (k - 1) (hd s # drop 2 s)) h5 =
        (if 1 < length s then [?f (k - 1) (hd s # drop 2 s) m6] else [], h6)"
      "tree_inv h0 h6" "keeps_walks h0 h5 h6" "1 < length s \<Longrightarrow> walk h6 ?out (pre @ [s ! 1]) = Some m6"
      "\<And>v. accepts h6 ?out v \<longleftrightarrow> accepts h5 ?out v"
      using visit_ok [OF 5(2) w5, of "1 < length s" "s ! 1" False "?f (k - 1) (hd s # drop 2 s)"] by auto
    define pfs where "pfs = (if s \<noteq> [] then [(pre @ [hd s], ?f k (tl s) m1)] else []) @ [(pre @ ''*'', ?f (k - 1) s m2)] @
      (if 1 < length s then [(pre, ?f (k - 1) (tl s) n)] else []) @
      (if s \<noteq> [] then [(pre @ ''*'', ?f (k - 1) (tl s) m5)] else []) @
      (if 1 < length s then [(pre @ [s ! 1], ?f (k - 1) (hd s # drop 2 s) m6)] else [])"
    have step: "fuzzy_step fr h = (map snd pfs, h6)"
      using False 1(1) 2(1) 5(1) 6(1) by (simp add: fuzzy_step_visits fr h4_def pfs_def)
    have "keeps_walks h0 h h1" "keeps_walks h0 h1 h6" "keeps_walks h0 h2 h6" "keeps_walks h0 h4 h6" "keeps_walks h0 h5 h6"
      using 1(3) 2(3) 4(2) 5(3) 6(3) by (simp_all add: keeps_walks_def)
    then have at6: "\<forall>pf \<in> set pfs. fuzzy_at h0 h6 pf \<and> work (snd pf) < work fr" and keeps: "keeps_walks h0 h h6"
      using 1(4) 2(4) 5(4) 6(4) w5 False by (auto simp: pfs_def fuzzy_at_def work_def fr keeps_walks_def)
    have "accepts h6 ?out v \<or> v \<in> \<Union> (fuzzy_adds ` set pfs) \<longleftrightarrow> accepts h ?out v \<or> v \<in> fuzzy_adds (pre, fr)" for v
    proof -
      have acc: "accepts h6 ?out v \<longleftrightarrow> accepts h ?out v \<or> length s = 1 \<and> (v = pre @ [hd s] \<or> v = pre \<or> v = pre @ ''*'') \<or>
          s = [] \<and> v = pre @ ''*''"
        unfolding 6(5) 5(5) 4(3) 2(5) 1(5) by auto
      consider "s = []" | a where "s = [a]" | a b r where "s = a # b # r" by (metis list.exhaust)
      then show ?thesis
      proof cases
        case 1
        then show ?thesis unfolding acc using False pats.simps [of k "[]"]
          by (simp add: pfs_def fuzzy_adds_def fr image_Un image_image)
      next
        case (2 a)
        then show ?thesis unfolding acc using False pats.simps [of k "[a]"]
          by (simp add: pfs_def fuzzy_adds_def fr image_Un image_image) blast
      next
        case (3 a b r)
        then show ?thesis unfolding acc using False pats.simps [of k "a # b # r"]
          by (simp add: pfs_def fuzzy_adds_def fr image_Un image_image)
      qed
    qed
    then show ?thesis using step 6(2) keeps at6 by blast
  qed
qed

lemma fuzzy_loop_Nil [simp]: "fuzzy_loop [] h = Some h"
  by (simp add: fuzzy_loop.simps)

lemma fuzzy_loop_Cons:
  "fuzzy_loop (fr # rest) h = (case fuzzy_step fr h of (pushed, h') \<Rightarrow> fuzzy_loop (rev pushed @ rest) h')"
  by (subst fuzzy_loop.simps) simp

interpretation fuzzy: stack_loop fuzzy_loop fuzzy_step "tree_inv h0" "fuzzy_at h0" "keeps_walks h0"
  "\<lambda>h. {w. accepts h (nextId h0) w}" fuzzy_adds "\<lambda>pf. work (snd pf)"
  for h0
proof
  fix h p fr assume "tree_inv h0 h" "fuzzy_at h0 h (p, fr)"
  from fuzzy_step_ok [OF this] show "\<exists>pfs h'. fuzzy_step fr h = (map snd pfs, h') \<and> tree_inv h0 h' \<and> keeps_walks h0 h h' \<and>
      (\<forall>pf \<in> set pfs. fuzzy_at h0 h' pf \<and> work (snd pf) < work (snd (p, fr))) \<and>
      {w. accepts h' (nextId h0) w} \<union> \<Union> (fuzzy_adds ` set pfs) = {w. accepts h (nextId h0) w} \<union> fuzzy_adds (p, fr)"
    by (simp add: set_eq_iff)
qed (simp_all add: fuzzy_loop_Cons keeps_walks_def fuzzy_at_def)

text \<open>What a term with an edit distance means: at most \<open>k\<close> times a letter is inserted, deleted or replaced, or
  exchanged with the next one.\<close>
inductive edits :: "nat \<Rightarrow> string \<Rightarrow> string \<Rightarrow> bool" where
  edits_end: "edits k [] []"
| edits_keep: "edits k s w \<Longrightarrow> fits (a, c) \<Longrightarrow> edits k (a # s) (c # w)"
| edits_insert: "edits k s w \<Longrightarrow> edits (Suc k) s (c # w)"
| edits_delete: "edits k s w \<Longrightarrow> edits (Suc k) (a # s) w"
| edits_replace: "edits k s w \<Longrightarrow> edits (Suc k) (a # s) (c # w)"
| edits_swap: "edits k (a # s) w \<Longrightarrow> fits (b, c) \<Longrightarrow> edits (Suc k) (a # b # s) (c # w)"

definition fits_pat :: "string \<Rightarrow> string \<Rightarrow> bool" where
  "fits_pat p w \<longleftrightarrow> list_all2 (\<lambda>a c. fits (a, c)) p w"

lemma fits_pat_simps [simp]:
  "fits_pat [] w \<longleftrightarrow> w = []"
  "fits_pat (a # p) w \<longleftrightarrow> (\<exists>c w'. w = c # w' \<and> fits (a, c) \<and> fits_pat p w')"
  by (auto simp: fits_pat_def list_all2_Cons1)

lemma fits_star [simp]: "fits (CHR ''*'', c)"
  by (simp add: fits_def)

lemma pats_cases:
  "p \<in> pats k s \<longleftrightarrow>
     (\<exists>a s' v. s = a # s' \<and> p = a # v \<and> (s' = [] \<and> v = [] \<or> v \<in> pats k s')) \<or>
     (\<exists>j v. k = Suc j \<and> p = CHR ''*'' # v \<and> (s = [] \<and> v = [] \<or> v \<in> pats j s)) \<or>
     (\<exists>j a s'. k = Suc j \<and> s = a # s' \<and> (if s' = [] then p = [] else p \<in> pats j s')) \<or>
     (\<exists>j a s' v. k = Suc j \<and> s = a # s' \<and> p = CHR ''*'' # v \<and> (s' = [] \<and> v = [] \<or> v \<in> pats j s')) \<or>
     (\<exists>j a b s' v. k = Suc j \<and> s = a # b # s' \<and> p = b # v \<and> v \<in> pats j (a # s'))"
  by (subst pats.simps) (cases k; auto split: list.splits if_splits)

text \<open>The texts of a frame stand for words within the edit distance, and for all of them but the empty one
  where no letter is left.\<close>
lemma pats_edits: "p \<in> pats k s \<Longrightarrow> fits_pat p w \<Longrightarrow> edits k s w"
proof (induction "k + length s" arbitrary: k s p w rule: less_induct)
  case less
  have IH: "\<And>k' s' p' w'. k' + length s' < k + length s \<Longrightarrow> p' \<in> pats k' s' \<Longrightarrow> fits_pat p' w' \<Longrightarrow> edits k' s' w'"
    using less.hyps by blast
  have nil: "v = [] \<and> s' = [] \<or> v \<in> pats k' s' \<Longrightarrow> k' + length s' < k + length s \<Longrightarrow> fits_pat v w' \<Longrightarrow> edits k' s' w'" for v s' k' w'
    using IH by (auto intro: edits_end)
  show ?case using less.prems(1) unfolding pats_cases [of p k s]
  proof (elim disjE exE conjE)
    fix j a s' assume "k = Suc j" "s = a # s'" "if s' = [] then p = [] else p \<in> pats j s'"
    then show ?thesis using nil [of p s' j w] less.prems(2) by (auto split: if_splits intro: edits_delete)
  next
    fix j a b s' v assume "k = Suc j" "s = a # b # s'" "p = b # v" "v \<in> pats j (a # s')"
    then show ?thesis using IH [of j "a # s'" v] less.prems(2) by (auto intro: edits_swap)
  next
    fix j a s' v assume "k = Suc j" "s = a # s'" "p = CHR ''*'' # v" "v \<in> pats j s'"
    then show ?thesis using nil [of v s' j] less.prems(2) by (auto intro: edits_replace)
  qed (use less.prems(2) nil in \<open>auto intro!: edits_keep edits_insert edits_replace edits_end\<close>)
qed

lemma pats_intros:
  "v = [] \<and> s = [] \<or> v \<in> pats k s \<Longrightarrow> a # v \<in> pats k (a # s)"
  "v = [] \<and> s = [] \<or> v \<in> pats k s \<Longrightarrow> CHR ''*'' # v \<in> pats (Suc k) s"
  "v \<in> pats k (b # s) \<Longrightarrow> v \<in> pats (Suc k) (a # b # s)"
  "[] \<in> pats (Suc k) [a]"
  "v = [] \<and> s = [] \<or> v \<in> pats k s \<Longrightarrow> CHR ''*'' # v \<in> pats (Suc k) (a # s)"
  "v \<in> pats k (a # s) \<Longrightarrow> b # v \<in> pats (Suc k) (a # b # s)"
  by (rule pats_cases [THEN iffD2], auto)+

lemma pats_Nil_mono: "p \<in> pats k [] \<Longrightarrow> p \<in> pats (Suc k) []"
proof (induction k arbitrary: p)
  case 0
  then show ?case by (simp add: pats_cases [of p 0])
next
  case (Suc k)
  then obtain v where "p = CHR ''*'' # v" "v = [] \<or> v \<in> pats k []" by (auto simp: pats_cases [of p "Suc k"])
  then show ?case using Suc.IH by (auto intro: pats_intros(2))
qed

lemma ex_pat:
  assumes "s = [] \<and> w = [] \<or> (\<exists>p \<in> pats k s. fits_pat p w)"
  obtains p where "p = [] \<and> s = [] \<or> p \<in> pats k s" "fits_pat p w"
  using assms fits_pat_simps(1) by blast

lemma edits_pats: "edits k s w \<Longrightarrow> s = [] \<and> w = [] \<or> (\<exists>p \<in> pats k s. fits_pat p w)"
proof (induction rule: edits.induct)
  case (edits_keep k s w a c)
  then obtain p where "p = [] \<and> s = [] \<or> p \<in> pats k s" "fits_pat p w" by (elim ex_pat)
  then have "a # p \<in> pats k (a # s)" "fits_pat (a # p) (c # w)" using edits_keep.hyps(2) pats_intros(1) by auto
  then show ?case by blast
next
  case (edits_insert k s w c)
  then obtain p where "p = [] \<and> s = [] \<or> p \<in> pats k s" "fits_pat p w" by (elim ex_pat)
  then have "CHR ''*'' # p \<in> pats (Suc k) s" "fits_pat (CHR ''*'' # p) (c # w)" using pats_intros(2) by auto
  then show ?case by blast
next
  case (edits_delete k s w a)
  show ?case
  proof (cases s)
    case (Cons b r)
    then show ?thesis using edits_delete.IH by (auto intro: pats_intros(3))
  next
    case Nil
    consider "w = []" | p where "p \<in> pats k []" "fits_pat p w" using edits_delete.IH Nil by auto
    then show ?thesis
    proof cases
      case 1
      then show ?thesis using Nil pats_intros(4) by force
    next
      case 2
      then obtain v j where "k = Suc j" "p = CHR ''*'' # v" "v = [] \<or> v \<in> pats j []" by (auto simp: pats_cases [of p k])
      then have "p \<in> pats (Suc k) [a]" using pats_Nil_mono by (auto intro: pats_intros(5))
      then show ?thesis using 2 Nil by auto
    qed
  qed
next
  case (edits_replace k s w a c)
  then obtain p where "p = [] \<and> s = [] \<or> p \<in> pats k s" "fits_pat p w" by (elim ex_pat)
  then have "CHR ''*'' # p \<in> pats (Suc k) (a # s)" "fits_pat (CHR ''*'' # p) (c # w)" using pats_intros(5) by auto
  then show ?case by blast
next
  case (edits_swap k a s w b c)
  then obtain p where "p \<in> pats k (a # s)" "fits_pat p w" by auto
  then have "b # p \<in> pats (Suc k) (a # b # s)" "fits_pat (b # p) (c # w)" using edits_swap.hyps(2) pats_intros(6) by auto
  then show ?case by blast
qed simp

text \<open>The automaton of a term with an edit distance: building it ends, and it matches exactly the words within
  that distance.\<close>
lemma fromFuzzyString_ok:
  assumes h: "heap_ok h"
  shows "\<exists>q h'. TokenSet_fromFuzzyString s k h = Some (q, h') \<and> heap_ok h' \<and> extends h h' \<and> q < nextId h' \<and>
    (\<forall>w. w \<noteq> [] \<longrightarrow> (matches h' q w \<longleftrightarrow> edits k s w))"
proof -
  let ?h1 = "snd (new_TokenSet h)" and ?fr = "\<lparr>fz_node = nextId h, editsRemaining = k, fz_str = s\<rparr>"
  have "fuzzy_at h ?h1 ([], ?fr)" by (simp add: fuzzy_at_def)
  then obtain h' where loop: "fuzzy_loop [?fr] ?h1 = Some h'" and inv: "tree_inv h h'"
    and acc: "{w. accepts h' (nextId h) w} = {w. accepts ?h1 (nextId h) w} \<union> fuzzy_adds ([], ?fr)"
    using fuzzy.loop_ends [OF tree_inv_start(1) [OF h], of "([], ?fr)"] by auto
  have "\<not> accepts ?h1 (nextId h) w" for w by (cases w) (auto simp: blank_node_def)
  then have "accepts h' (nextId h) p \<longleftrightarrow> p \<in> pats k s" for p using acc by (auto simp: fuzzy_adds_def set_eq_iff)
  then have "matches h' (nextId h) w \<longleftrightarrow> (\<exists>p \<in> pats k s. fits_pat p w)" for w
    by (auto simp: matches_patterns fits_pat_def)
  then have "matches h' (nextId h) w \<longleftrightarrow> edits k s w" if "w \<noteq> []" for w
    using that edits_pats [of k s w] pats_edits by blast
  moreover have "TokenSet_fromFuzzyString s k h = Some (nextId h, h')"
    using loop by (simp add: TokenSet_fromFuzzyString_def case_prod_unfold)
  ultimately show ?thesis using tree_invD(1-3) [OF inv] by blast
qed

section \<open>Looking a clause up\<close>

definition clause_matches :: "clause \<Rightarrow> string \<Rightarrow> bool" where
  "clause_matches c w \<longleftrightarrow> (case c_editDistance c of None \<Rightarrow> glob (c_term c) w | Some k \<Rightarrow> edits k (c_term c) w)"

lemma fromClause_ok:
  assumes "heap_ok h"
  shows "\<exists>q h'. TokenSet_fromClause c h = Some (q, h') \<and> heap_ok h' \<and> extends h h' \<and> q < nextId h' \<and>
    (\<forall>w. w \<noteq> [] \<longrightarrow> (matches h' q w \<longleftrightarrow> clause_matches c w))"
  using fromString_ok [OF assms, of "c_term c"] fromFuzzyString_ok [OF assms, of "c_term c"]
  by (cases "c_editDistance c") (fastforce simp: TokenSet_fromClause_def clause_matches_def)+

section \<open>Sets built from a list of words\<close>

text \<open>The nodes a builder knows are allocated, not before \<open>N\<close>.\<close>
definition owned :: "ts_builder \<Rightarrow> nat set" where
  "owned b = set (path_nodes b) \<union> set (regs b) \<union> fst ` set (uncheckedNodes b)"

definition owns :: "nat \<Rightarrow> ts_builder \<Rightarrow> ts_heap \<Rightarrow> bool" where
  "owns N b h \<longleftrightarrow> heap_ok h \<and> (\<forall>x \<in> owned b. N \<le> x \<and> x < nextId h)"

lemma owned_path: "x \<in> set (path_nodes b) \<Longrightarrow> x \<in> owned b"
  by (simp add: owned_def)

lemma owned_previousWord [simp]: "owned (b\<lparr>previousWord := w\<rparr>) = owned b"
  by (simp add: owned_def path_nodes_def regs_def)

lemma edges_set_str [simp]: "edges (node (set_str n v h) x) = edges (node h x)"
  by (simp add: set_str_def)

lemma heap_ok_set_str [simp]: "heap_ok (set_str n v h) = heap_ok h"
  by (simp add: heap_ok_def)

lemma extends_set_str: "extends h h' \<Longrightarrow> nextId h \<le> n \<Longrightarrow> extends h (set_str n v h')"
  by (simp add: extends_def)

lemma minimize_step_owns:
  assumes "owns N b h" "uncheckedNodes b \<noteq> []" "extends h0 h" "nextId h0 \<le> N" "minimize_step b h = (b', h')"
  shows "owns N b' h' \<and> extends h0 h'"
proof -
  obtain us p c m where un: "uncheckedNodes b = us @ [(p, c, m)]" using assms(2) by (metis prod_cases3 rev_exhaust)
  have in_range: "N \<le> p" "p < nextId h" "N \<le> m" "m < nextId h" using assms(1) by (auto simp: owns_def owned_def un path_nodes_def)
  show ?thesis
  proof (cases "map_of (minimizedNodes b) (TokenSet_toString h m)")
    case None
    then have b': "b' = b\<lparr>minimizedNodes := minimizedNodes b @ [(TokenSet_toString h m, m)], uncheckedNodes := us\<rparr>"
        "h' = set_str m (TokenSet_toString h m) h"
      using assms(5) by (auto simp: minimize_step_def un update_new Let_def)
    then show ?thesis using assms(1,3,4) in_range by (auto simp: owns_def owned_def un path_nodes_def regs_def extends_set_str)
  next
    case (Some r)
    then have "r \<in> set (regs b)" by (force simp: regs_def dest: map_of_SomeD)
    then have "N \<le> r" "r < nextId h" using assms(1) by (auto simp: owns_def owned_def)
    moreover have "b' = b\<lparr>uncheckedNodes := us\<rparr>" "h' = set_edge p c r h"
      using Some assms(5) by (auto simp: minimize_step_def un Let_def)
    ultimately show ?thesis
      using assms(1,3,4) in_range by (auto simp: owns_def owned_def un path_nodes_def regs_def heap_ok_set_edge extends_set_edge)
  qed
qed

lemma Builder_minimize_owns:
  assumes "owns N b h" "extends h0 h" "nextId h0 \<le> N" "Builder_minimize d b h = (b', h')"
  shows "owns N b' h' \<and> extends h0 h'"
  using assms(1,2,4)
proof (induction "length (uncheckedNodes b)" arbitrary: b h)
  case 0
  then show ?case by (subst (asm) Builder_minimize_step) simp
next
  case (Suc n)
  obtain b1 h1 where st: "minimize_step b h = (b1, h1)" by fastforce
  have "uncheckedNodes b \<noteq> []" using Suc.hyps(2) by auto
  then have b1: "owns N b1 h1" "extends h0 h1" using minimize_step_owns [OF Suc.prems(1) _ Suc.prems(2) assms(3) st] by auto
  have "length (uncheckedNodes b1) = n"
    using st Suc.hyps(2) by (auto simp: minimize_step_def Let_def split: prod.splits option.splits)
  then show ?case
    using Suc.hyps(1) [of b1 h1] b1 Suc.prems st by (subst (asm) (2) Builder_minimize_step) (auto split: if_splits)
qed

lemma add_nodes_owns:
  "owns N b h \<Longrightarrow> n \<in> set (path_nodes b) \<Longrightarrow> extends h0 h \<Longrightarrow> nextId h0 \<le> N \<Longrightarrow> N \<le> nextId h \<Longrightarrow>
     add_nodes n cs b h = (n', b', h') \<Longrightarrow> owns N b' h' \<and> extends h0 h' \<and> n' \<in> set (path_nodes b')"
proof (induction cs arbitrary: n b h)
  case (Cons c cs)
  let ?b = "b\<lparr>uncheckedNodes := uncheckedNodes b @ [(n, c, nextId h)]\<rparr>"
    and ?h = "set_edge n c (nextId h) (snd (new_TokenSet h))"
  have n: "N \<le> n" "n < nextId h" and ok: "heap_ok h" using Cons.prems(1,2) owned_path by (auto simp: owns_def)
  then have "heap_ok ?h" using heap_ok_new [OF ok] by (intro heap_ok_set_edge) simp_all
  moreover have "owned ?b = insert (nextId h) (insert n (owned b))" by (auto simp: owned_def path_nodes_def regs_def)
  ultimately have "owns N ?b ?h" using Cons.prems(1,5) n by (auto simp: owns_def less_SucI)
  moreover have "extends h0 ?h"
    using Cons.prems(3,4) n extends_trans [OF _ extends_new] by (intro extends_set_edge) auto
  moreover have "nextId h \<in> set (path_nodes ?b)" by (simp add: path_nodes_def)
  moreover have "add_nodes (nextId h) cs ?b ?h = (n', b', h')"
    using Cons.prems(6) by (simp add: Let_def case_prod_unfold)
  ultimately show ?case using Cons.IH [of ?b ?h "nextId h"] Cons.prems(4,5) by simp
qed simp

lemma Builder_insert_owns:
  assumes "owns N b h" "extends h0 h" "nextId h0 \<le> N" "Builder_insert w b h = Inr (b', h')"
  shows "owns N b' h' \<and> extends h0 h'"
proof -
  obtain b1 h1 where min: "Builder_minimize (commonPrefix w (previousWord b)) b h = (b1, h1)" by fastforce
  note 1 = Builder_minimize_owns [OF assms(1-3) min]
  let ?n = "if uncheckedNodes b1 = [] then root b1 else snd (snd (last (uncheckedNodes b1)))"
  have n: "?n \<in> set (path_nodes b1)" by (auto simp: path_nodes_def case_prod_unfold)
  obtain n' b2 h2 where add: "add_nodes ?n (drop (commonPrefix w (previousWord b)) w) b1 h1 = (n', b2, h2)" by (metis prod_cases3)
  have "root b1 \<in> owned b1" by (simp add: owned_def path_nodes_def)
  then have "N \<le> nextId h1" using 1 by (auto simp: owns_def)
  then have 2: "owns N b2 h2" "extends h0 h2" "n' \<in> set (path_nodes b2)"
    using add_nodes_owns [OF conjunct1 [OF 1] n conjunct2 [OF 1] assms(3) _ add] by auto
  have "b' = b2\<lparr>previousWord := w\<rparr>" "h' = set_final n' True h2"
    using assms(4) min add by (auto simp: Builder_insert_def Let_def split: if_splits)
  moreover have "N \<le> n'" using 2(1) owned_path [OF 2(3)] by (simp add: owns_def)
  ultimately show ?thesis using 2 assms(3) by (simp add: owns_def extends_set_final)
qed

lemma insert_all_owns:
  "owns N b h \<Longrightarrow> extends h0 h \<Longrightarrow> nextId h0 \<le> N \<Longrightarrow> insert_all ws b h = Inr (b', h') \<Longrightarrow> owns N b' h' \<and> extends h0 h'"
proof (induction ws arbitrary: b h)
  case (Cons w ws)
  then obtain b1 h1 where "Builder_insert w b h = Inr (b1, h1)" "insert_all ws b1 h1 = Inr (b', h')"
    by (cases "Builder_insert w b h") auto
  then show ?case using Builder_insert_owns [OF Cons.prems(1-3)] Cons.IH Cons.prems(3) by blast
qed simp

text \<open>In a finished builder every step goes to a node registered earlier.\<close>
lemma regs_bounded:
  assumes "builder_ok prev b h"
  shows "i < length (regs b) \<Longrightarrow> walk h (regs b ! i) p = Some m \<Longrightarrow> length p \<le> i"
proof (induction p arbitrary: i)
  case (Cons c p)
  then obtain y where y: "edge h (regs b ! i) c = Some y" "walk h y p = Some m" by (auto split: option.splits)
  then have "y \<in> set (take i (regs b))" using builder_okD(8) [OF assms Cons.prems(1)] by blast
  then obtain j where "j < i" "y = regs b ! j" by (auto simp: in_set_conv_nth)
  then show ?case using Cons.IH [of j] y Cons.prems(1) by simp
qed simp

lemma finished_bounded:
  assumes "builder_ok prev b h" "uncheckedNodes b = []"
  shows "bounded h (root b) (length (regs b))"
  unfolding bounded_def
proof (intro allI impI)
  fix p m assume p: "walk h (root b) p = Some m"
  show "length p \<le> length (regs b)"
  proof (cases p)
    case (Cons c p')
    then obtain y where y: "edge h (root b) c = Some y" "walk h y p' = Some m" using p by (auto split: option.splits)
    then have "y \<in> set (regs b)" using builder_okD(7) [OF assms(1), of 0 c y] assms(2) by (simp add: path_nodes_def)
    then obtain j where "j < length (regs b)" "y = regs b ! j" by (auto simp: in_set_conv_nth)
    then show ?thesis using regs_bounded [OF assms(1), of j p' m] y Cons by simp
  qed simp
qed

text \<open>A token set that holds exactly the words \<open>W\<close> and can be searched.\<close>
definition word_set :: "ts_heap \<Rightarrow> nat \<Rightarrow> string set \<Rightarrow> bool" where
  "word_set h n W \<longleftrightarrow> heap_ok h \<and> n < nextId h \<and> (\<exists>k. bounded h n k) \<and> (\<forall>w. accepts h n w \<longleftrightarrow> w \<in> W)"

lemma word_set_extends:
  assumes "word_set h n W" "extends h h'" "heap_ok h'"
  shows "word_set h' n W"
proof -
  have "heap_ok h" "n < nextId h" using assms(1) by (simp_all add: word_set_def)
  then show ?thesis
    using assms walk_extends [of h h' n] accepts_extends [of h h' n] by (auto simp: word_set_def bounded_def extends_def)
qed

lemma builder_word_set:
  assumes "sorted ws" "list_all (list_all (\<lambda>c. \<not> is_digit c)) ws" "heap_ok h"
  shows "\<exists>b h1 b' h'. insert_all ws (fst (new_Builder h)) (snd (new_Builder h)) = Inr (b, h1) \<and>
    Builder_finish b h1 = (b', h') \<and> word_set h' (root b') (set ws) \<and> extends h h'"
proof -
  obtain b h1 b' h' where b: "insert_all ws (fst (new_Builder h)) (snd (new_Builder h)) = Inr (b, h1)"
      "Builder_finish b h1 = (b', h')" "builder_ok (previousWord b) b' h'" "uncheckedNodes b' = []"
      "\<forall>w. accepts h' (root b') w \<longleftrightarrow> w \<in> set ws"
    using builder_builds [OF assms(1,2), of h] by blast
  have "owns (nextId h) (fst (new_Builder h)) (snd (new_Builder h))" "extends h (snd (new_Builder h))"
    using heap_ok_new [OF assms(3)] extends_new by (simp_all add: new_builder_built(1) owns_def owned_def path_nodes_def regs_def)
  then have "owns (nextId h) b h1" "extends h h1" using insert_all_owns [OF _ _ _ b(1), of "nextId h" h] by auto
  then have 2: "owns (nextId h) b' h'" "extends h h'"
    using Builder_minimize_owns [OF _ _ _ b(2) [unfolded Builder_finish_def], of "nextId h" h] by auto
  then have "word_set h' (root b') (set ws)"
    using finished_bounded [OF b(3,4)] b(5) by (auto simp: word_set_def owns_def owned_def path_nodes_def)
  then show ?thesis using b 2(2) by blast
qed

text \<open>The steps of a lookup, and what they find.\<close>
lemma lookup_ok:
  assumes "word_set h n W"
  shows "\<exists>q h1 out h2 found. TokenSet_fromClause c h = Some (q, h1) \<and> TokenSet_intersect n q h1 = Some (out, h2) \<and>
    TokenSet_toArray h2 out = Some found \<and> distinct found \<and> set found = {w \<in> W. w \<noteq> [] \<and> clause_matches c w} \<and>
    word_set h2 n W \<and> extends h h2"
proof -
  have ok: "heap_ok h" using assms by (simp add: word_set_def)
  obtain q h1 where q: "TokenSet_fromClause c h = Some (q, h1)" "heap_ok h1" "extends h h1" "q < nextId h1"
      "\<forall>w. w \<noteq> [] \<longrightarrow> (matches h1 q w \<longleftrightarrow> clause_matches c w)"
    using fromClause_ok [OF ok, of c] by blast
  have 1: "word_set h1 n W" using word_set_extends [OF assms q(3,2)] .
  then obtain k where "n < nextId h1" "bounded h1 n k" by (auto simp: word_set_def)
  then obtain out h2 where out: "TokenSet_intersect n q h1 = Some (out, h2)" "heap_ok h2" "extends h1 h2" "bounded h2 out k"
      "\<forall>w. accepts h2 out w \<longleftrightarrow> w \<noteq> [] \<and> accepts h1 n w \<and> matches h1 q w"
    using intersect_words [OF q(2) _ q(4), of n k] by blast
  obtain found where found: "TokenSet_toArray h2 out = Some found" "set found = {w. accepts h2 out w}" "distinct found"
    using toArray_words [OF out(2,4)] by blast
  have "set found = {w \<in> W. w \<noteq> [] \<and> clause_matches c w}" using 1 q(5) out(5) found(2) by (auto simp: word_set_def)
  then show ?thesis
    using q(1) out(1) found(1,3) word_set_extends [OF 1 out(3,2)] extends_trans [OF q(3) out(3)] by blast
qed

lemma fromArray_word_set:
  assumes "sorted ws" "list_all (list_all (\<lambda>c. \<not> is_digit c)) ws" "heap_ok h"
  shows "\<exists>n h'. TokenSet_fromArray ws h = Inr (n, h') \<and> word_set h' n (set ws) \<and> extends h h'"
proof -
  obtain b h1 b' h' where b: "insert_all ws (fst (new_Builder h)) (snd (new_Builder h)) = Inr (b, h1)"
      "Builder_finish b h1 = (b', h')" "word_set h' (root b') (set ws)" "extends h h'"
    using builder_word_set [OF assms] by blast
  then show ?thesis by (simp add: TokenSet_fromArray_def case_prod_unfold Let_def)
qed

text \<open>C25. Looking a query term up in a set built from a sorted list of words without digits always ends and finds
  exactly the words that match, each once: with wildcards as written, or within the edit distance.\<close>
theorem lookup_finds_words:
  assumes "sorted ws" "list_all (list_all (\<lambda>c. \<not> is_digit c)) ws" "heap_ok h"
  shows "\<exists>n h0 q h1 out h2 found. TokenSet_fromArray ws h = Inr (n, h0) \<and> TokenSet_fromClause c h0 = Some (q, h1) \<and>
    TokenSet_intersect n q h1 = Some (out, h2) \<and> TokenSet_toArray h2 out = Some found \<and>
    distinct found \<and> set found = {w \<in> set ws. w \<noteq> [] \<and> clause_matches c w}"
proof -
  obtain n h0 where n: "TokenSet_fromArray ws h = Inr (n, h0)" and ws: "word_set h0 n (set ws)"
    using fromArray_word_set [OF assms] by blast
  obtain q h1 out h2 found where "TokenSet_fromClause c h0 = Some (q, h1)" "TokenSet_intersect n q h1 = Some (out, h2)"
      "TokenSet_toArray h2 out = Some found" "distinct found" "set found = {w \<in> set ws. w \<noteq> [] \<and> clause_matches c w}"
    using lookup_ok [OF ws, of c] by (elim exE conjE) (rule that; assumption)
  then show ?thesis using n by (intro exI conjI) assumption+
qed

definition sample_clause :: clause where
  "sample_clause = \<lparr>c_term = ''c*t'', c_fields = [], c_boost = 1, c_usePipeline = False, c_wildcard = 0,
    c_presence = OPTIONAL, c_editDistance = None\<rparr>"

theorem lookup_finds_words_witness:
  "\<exists>n h0 q h1 out h2. TokenSet_fromArray [''cat'', ''coat'', ''dog''] empty_heap = Inr (n, h0) \<and>
    TokenSet_fromClause sample_clause h0 = Some (q, h1) \<and> TokenSet_intersect n q h1 = Some (out, h2) \<and>
    (\<exists>found. TokenSet_toArray h2 out = Some found \<and> set found = {''cat'', ''coat''})"
proof -
  have "sorted [''cat'', ''coat'', ''dog'']" "list_all (list_all (\<lambda>c. \<not> is_digit c)) [''cat'', ''coat'', ''dog'']"
    by code_simp+
  moreover have "{w \<in> set [''cat'', ''coat'', ''dog'']. w \<noteq> [] \<and> clause_matches sample_clause w} = {''cat'', ''coat''}"
    by (auto simp: clause_matches_def sample_clause_def)
  ultimately show ?thesis using lookup_finds_words [of "[''cat'', ''coat'', ''dog'']" empty_heap sample_clause] by auto
qed

end
