(* ===== verification/Lunr_Results.thy ===== *)
theory Lunr_Results
  imports Lunr_Index Lunr_Match
begin

text \<open>
  What a query of \<open>lunr.Index\<close> returns: on an index whose parts fit together, every query ends, and the documents
  in its result are exactly those that its clauses ask for, each once and the best first.
\<close>

section \<open>Names of terms, fields and documents\<close>

definition ref_of :: "string \<Rightarrow> string \<Rightarrow> string" where
  "ref_of f d = FieldRef_toString (new_FieldRef d f)"

lemma sep_unique: "c \<notin> set f \<Longrightarrow> c \<notin> set f' \<Longrightarrow> f @ c # w = f' @ c # w' \<longleftrightarrow> f = f' \<and> w = w'"
proof (induction f arbitrary: f')
  case Nil
  then show ?case by (cases f') auto
next
  case (Cons a f)
  then show ?case by (cases f') auto
qed

lemma ref_of_append: "ref_of f d = f @ joiner # d"
  by (simp add: ref_of_def FieldRef_toString_def new_FieldRef_def)

lemma ref_of_inj: "joiner \<notin> set f \<Longrightarrow> joiner \<notin> set f' \<Longrightarrow> ref_of f d = ref_of f' d' \<longleftrightarrow> f = f' \<and> d = d'"
  by (simp add: ref_of_append sep_unique)

lemma ref_of_read:
  assumes "joiner \<notin> set f"
  obtains r where "FieldRef_fromString (ref_of f d) = Inr r" "docRef r = d" "fieldName r = f" "FieldRef_toString r = ref_of f d"
  using assms by (simp add: ref_of_append FieldRef_fromString_def FieldRef_toString_def index_of_append_sep)

lemma term_field_inj:
  assumes "CHR ''/'' \<notin> set f" "CHR ''/'' \<notin> set f'"
  shows "w @ ''/'' @ f = w' @ ''/'' @ f' \<longleftrightarrow> w = w' \<and> f = f'"
proof -
  have "w @ ''/'' @ f = w' @ ''/'' @ f' \<longleftrightarrow> rev f @ CHR ''/'' # rev w = rev f' @ CHR ''/'' # rev w'"
    by (metis append.assoc append_Cons append_Nil rev.simps(2) rev_append rev_is_rev_conv)
  then show ?thesis using sep_unique [of "CHR ''/''" "rev f" "rev f'"] assms by auto
qed

section \<open>An index whose parts fit together\<close>

text \<open>The documents that have a term of the index in a field.\<close>
definition docs_in :: "'f index \<Rightarrow> string \<Rightarrow> string \<Rightarrow> string set" where
  "docs_in idx w f =
     (case map_of (i_invertedIndex idx) w of None \<Rightarrow> {}
      | Some p \<Rightarrow> (case map_of (p_fields p) f of None \<Rightarrow> {} | Some docs \<Rightarrow> fst ` set docs))"

text \<open>Every posting has every field, and the vectors are those of the fields of documents.\<close>
definition index_ok :: "'f index \<Rightarrow> bool" where
  "index_ok idx \<longleftrightarrow>
     (\<forall>f \<in> set (i_fields idx). joiner \<notin> set f) \<and>
     (\<forall>w p f. map_of (i_invertedIndex idx) w = Some p \<longrightarrow> f \<in> set (i_fields idx) \<longrightarrow> map_of (p_fields p) f \<noteq> None) \<and>
     (\<forall>w f d. f \<in> set (i_fields idx) \<longrightarrow> d \<in> docs_in idx w f \<longrightarrow> map_of (i_fieldVectors idx) (ref_of f d) \<noteq> None) \<and>
     (\<forall>r. map_of (i_fieldVectors idx) r \<noteq> None \<longrightarrow> (\<exists>f \<in> set (i_fields idx). \<exists>d. r = ref_of f d))"

lemma index_okD:
  assumes "index_ok idx"
  shows "\<And>f. f \<in> set (i_fields idx) \<Longrightarrow> joiner \<notin> set f"
    and "\<And>w p f. map_of (i_invertedIndex idx) w = Some p \<Longrightarrow> f \<in> set (i_fields idx) \<Longrightarrow> \<exists>docs. map_of (p_fields p) f = Some docs"
    and "\<And>w f d. f \<in> set (i_fields idx) \<Longrightarrow> d \<in> docs_in idx w f \<Longrightarrow> \<exists>v. map_of (i_fieldVectors idx) (ref_of f d) = Some v"
    and "\<And>r. map_of (i_fieldVectors idx) r \<noteq> None \<Longrightarrow> \<exists>f \<in> set (i_fields idx). \<exists>d. r = ref_of f d"
  using assms unfolding index_ok_def by blast+

section \<open>One clause\<close>

text \<open>The state of a query between two steps: there is a query vector for every field, what the cache says was
  collected was collected, and what was collected are fields of documents.\<close>
definition good :: "'f index \<Rightarrow> qstate \<Rightarrow> bool" where
  "good idx s \<longleftrightarrow>
     (\<forall>f \<in> set (i_fields idx). map_of (queryVectors s) f \<noteq> None) \<and>
     (\<forall>w f d. f \<in> set (i_fields idx) \<longrightarrow> map_of (termFieldCache s) (w @ ''/'' @ f) = Some True \<longrightarrow>
        d \<in> docs_in idx w f \<longrightarrow> map_of (matchingFields s) (ref_of f d) \<noteq> None) \<and>
     (\<forall>r. map_of (matchingFields s) r \<noteq> None \<longrightarrow>
        (\<exists>f \<in> set (i_fields idx). \<exists>d. r = ref_of f d \<and> map_of (i_fieldVectors idx) r \<noteq> None)) \<and>
     (\<forall>f m. map_of (requiredMatches s) f = Some m \<or> map_of (prohibitedMatches s) f = Some m \<longrightarrow> set_ok m)"

definition prohibits :: "'f index \<Rightarrow> qstate \<Rightarrow> string \<Rightarrow> bool" where
  "prohibits idx s d \<longleftrightarrow> (\<exists>f \<in> set (i_fields idx). \<exists>m. map_of (prohibitedMatches s) f = Some m \<and> set_contains m d)"

text \<open>The documents and field references of pairs of a term and a field.\<close>
definition docs_of :: "'f index \<Rightarrow> (string \<times> string) set \<Rightarrow> string set" where
  "docs_of idx X = (\<Union>(w, f) \<in> X. docs_in idx w f)"

definition refs_of :: "'f index \<Rightarrow> (string \<times> string) set \<Rightarrow> string set" where
  "refs_of idx X = (\<Union>(w, f) \<in> X. ref_of f ` docs_in idx w f)"

lemma docs_of_simps [simp]:
  "docs_of idx {} = {}" "docs_of idx (X \<union> Y) = docs_of idx X \<union> docs_of idx Y" "docs_of idx {(w, f)} = docs_in idx w f"
  by (simp_all add: docs_of_def)

lemma refs_of_simps [simp]:
  "refs_of idx {} = {}" "refs_of idx (X \<union> Y) = refs_of idx X \<union> refs_of idx Y" "refs_of idx {(w, f)} = ref_of f ` docs_in idx w f"
  by (simp_all add: refs_of_def)

text \<open>What the terms and fields \<open>X\<close> of a clause add to the state and to the documents of the clause.\<close>
definition effect :: "'f index \<Rightarrow> clause \<Rightarrow> (string \<times> string) set \<Rightarrow> qstate \<times> lset \<Rightarrow> qstate \<times> lset \<Rightarrow> bool" where
  "effect idx c X sc sc' \<longleftrightarrow> good idx (fst sc') \<and> set_ok (snd sc') \<and>
     (\<forall>r. map_of (matchingFields (fst sc')) r \<noteq> None \<longleftrightarrow> map_of (matchingFields (fst sc)) r \<noteq> None \<or>
        c_presence c \<noteq> PROHIBITED \<and> r \<in> refs_of idx X) \<and>
     (\<forall>d. prohibits idx (fst sc') d \<longleftrightarrow> prohibits idx (fst sc) d \<or> c_presence c = PROHIBITED \<and> d \<in> docs_of idx X) \<and>
     (\<forall>d. set_contains (snd sc') d \<longleftrightarrow> set_contains (snd sc) d \<or> c_presence c = REQUIRED \<and> d \<in> docs_of idx X) \<and>
     (\<forall>f. map_of (requiredMatches (fst sc')) f =
        (if c_presence c = REQUIRED \<and> f \<in> snd ` X \<and> map_of (requiredMatches (fst sc)) f = None
         then Some Set_complete else map_of (requiredMatches (fst sc)) f))"

lemma effect_refl: "good idx (fst sc) \<Longrightarrow> set_ok (snd sc) \<Longrightarrow> effect idx c {} sc sc"
  by (simp add: effect_def)

lemma effect_trans: "effect idx c X sc sc' \<Longrightarrow> effect idx c Y sc' sc'' \<Longrightarrow> effect idx c (X \<union> Y) sc sc''"
  unfolding effect_def by (simp add: image_Un) blast

lemma effect_good: "effect idx c X sc sc' \<Longrightarrow> good idx (fst sc') \<and> set_ok (snd sc')"
  by (simp add: effect_def)

lemma match_docs:
  "map_of (foldl (match_doc w f fp) mf ds) r \<noteq> None \<longleftrightarrow> map_of mf r \<noteq> None \<or> r \<in> ref_of f ` set ds"
  by (induction ds arbitrary: mf) (auto simp: match_doc_def ref_of_def Let_def)

lemma upsert_adds: "\<exists>v'. upsert i x (\<lambda>a b. Inr (a + b)) v = Inr v'"
  by (simp add: upsert_def Let_def)

lemma good_ok:
  "good idx s \<Longrightarrow> map_of (requiredMatches s) f = Some m \<Longrightarrow> set_ok m"
  "good idx s \<Longrightarrow> map_of (prohibitedMatches s) f = Some m \<Longrightarrow> set_ok m"
  unfolding good_def by blast+

lemma prohibited_field:
  assumes good: "good idx s" and fs: "f \<in> set (i_fields idx)" and docs: "map_of (p_fields p) f = Some docs"
    and p: "map_of (i_invertedIndex idx) w = Some p" and pres: "c_presence c = PROHIBITED" and cm: "set_ok cm"
  shows "\<exists>sc'. query_field c w p (Inr (s, cm)) f = Inr sc' \<and> effect idx c {(w, f)} (s, cm) sc'"
proof -
  define m0 where "m0 = (case map_of (prohibitedMatches s) f of None \<Rightarrow> Set_empty | Some m \<Rightarrow> m)"
  define s' where "s' = s\<lparr>prohibitedMatches := AList.update f (set_union m0 (new_Set (js_keys docs))) (prohibitedMatches s)\<rparr>"
  have ok: "set_ok m0" using good_ok(2) [OF good] by (auto simp: m0_def split: option.splits)
  have d: "docs_in idx w f = fst ` set docs" using docs p by (simp add: docs_in_def)
  have "query_field c w p (Inr (s, cm)) f = Inr (s', cm)"
    using docs pres by (simp add: query_field_def s'_def m0_def upd_default_def Let_def)
  moreover have "good idx s'"
    using good ok by (auto simp: good_def s'_def lset.ok_union split: if_splits)
  moreover have "prohibits idx s' x \<longleftrightarrow> prohibits idx s x \<or> x \<in> docs_in idx w f" for x
  proof -
    have "(\<exists>m. map_of (prohibitedMatches s') g = Some m \<and> set_contains m x) \<longleftrightarrow>
        (\<exists>m. map_of (prohibitedMatches s) g = Some m \<and> set_contains m x) \<or> g = f \<and> x \<in> docs_in idx w f" for g
      using ok by (cases "map_of (prohibitedMatches s) f") (auto simp: s'_def m0_def lset.in_union d)
    then show ?thesis unfolding prohibits_def using fs by blast
  qed
  ultimately show ?thesis using cm pres by (intro exI [of _ "(s', cm)"]) (simp add: effect_def s'_def)
qed

lemma matching_field:
  assumes good: "good idx s" and fs: "f \<in> set (i_fields idx)" and docs: "map_of (p_fields p) f = Some docs"
    and p: "map_of (i_invertedIndex idx) w = Some p" and pres: "c_presence c \<noteq> PROHIBITED" and cm: "set_ok cm"
    and ok: "index_ok idx"
  shows "\<exists>sc'. query_field c w p (Inr (s, cm)) f = Inr sc' \<and> effect idx c {(w, f)} (s, cm) sc'"
proof -
  let ?req = "c_presence c = REQUIRED"
  define s1 where "s1 = (if ?req then s\<lparr>requiredMatches := upd_default f Set_complete id (requiredMatches s)\<rparr> else s)"
  define cm' where "cm' = (if ?req then set_union cm (new_Set (js_keys docs)) else cm)"
  obtain v where v: "map_of (queryVectors s) f = Some v" using good fs by (auto simp: good_def)
  obtain v' where v': "upsert (of_nat (p_index p)) (c_boost c) (\<lambda>a b. Inr (a + b)) v = Inr v'" using upsert_adds by blast
  define s2 where "s2 = s1\<lparr>queryVectors := AList.update f v' (queryVectors s1)\<rparr>"
  define seen where "seen \<longleftrightarrow> map_of (termFieldCache s) (w @ ''/'' @ f) = Some True"
  define s' where "s' = (if seen then s2 else
      s2\<lparr>matchingFields := foldl (match_doc w f docs) (matchingFields s2) (js_keys docs),
         termFieldCache := AList.update (w @ ''/'' @ f) True (termFieldCache s2)\<rparr>)"
  have d: "docs_in idx w f = fst ` set docs" using docs p by (simp add: docs_in_def)
  have "query_field c w p (Inr (s, cm)) f = Inr (s', cm')"
    using docs pres v v' by (simp add: query_field_def s'_def s2_def s1_def cm'_def seen_def Let_def)
  moreover have mf: "map_of (matchingFields s') r \<noteq> None \<longleftrightarrow> map_of (matchingFields s) r \<noteq> None \<or> r \<in> ref_of f ` docs_in idx w f" for r
  proof (cases seen)
    case True
    then have "map_of (matchingFields s) (ref_of f x) \<noteq> None" if "x \<in> docs_in idx w f" for x
      using good fs that by (auto simp: good_def seen_def)
    then show ?thesis using True by (auto simp: s'_def s2_def s1_def)
  next
    case False
    then show ?thesis using match_docs [of w f docs "matchingFields s" "js_keys docs" r] by (simp add: s'_def s2_def s1_def d)
  qed
  moreover have rest: "requiredMatches s' = requiredMatches s1" "prohibitedMatches s' = prohibitedMatches s"
      "queryVectors s' = AList.update f v' (queryVectors s)"
    by (simp_all add: s'_def s2_def s1_def)
  moreover have req: "map_of (requiredMatches s1) g = (if ?req \<and> g = f \<and> map_of (requiredMatches s) g = None then Some Set_complete
      else map_of (requiredMatches s) g)" for g
    by (auto simp: s1_def upd_default_def split: option.splits)
  moreover have "good idx s'"
    unfolding good_def
  proof (intro conjI ballI allI impI)
    fix u g x assume g: "g \<in> set (i_fields idx)" and seen': "map_of (termFieldCache s') (u @ ''/'' @ g) = Some True"
      and x: "x \<in> docs_in idx u g"
    have "CHR ''/'' \<notin> set f" "CHR ''/'' \<notin> set g" using index_okD(1) [OF ok] fs g by (auto simp: joiner_def)
    note inj = term_field_inj [OF this(2,1), of u w]
    show "map_of (matchingFields s') (ref_of g x) \<noteq> None"
    proof (cases "u = w \<and> g = f")
      case True
      then show ?thesis using mf x by simp
    next
      case False
      then have "map_of (termFieldCache s) (u @ ''/'' @ g) = Some True"
        using seen' inj by (auto simp: s'_def s2_def s1_def split: if_splits)
      then show ?thesis using good g x mf by (simp add: good_def)
    qed
  next
    fix r assume "map_of (matchingFields s') r \<noteq> None"
    then consider "map_of (matchingFields s) r \<noteq> None" | x where "x \<in> docs_in idx w f" "r = ref_of f x" using mf by blast
    then show "\<exists>f \<in> set (i_fields idx). \<exists>d. r = ref_of f d \<and> map_of (i_fieldVectors idx) r \<noteq> None"
      using good fs index_okD(3) [OF ok fs] by cases (auto simp: good_def)
  qed (use good v rest req in \<open>auto simp: good_def split: if_splits\<close>)
  moreover have "set_ok cm'" using cm by (simp add: cm'_def lset.ok_union)
  moreover have "set_contains cm' x \<longleftrightarrow> set_contains cm x \<or> ?req \<and> x \<in> docs_in idx w f" for x
    using cm by (simp add: cm'_def lset.in_union d)
  moreover have "prohibits idx s' x \<longleftrightarrow> prohibits idx s x" for x by (simp add: prohibits_def rest)
  ultimately show ?thesis using pres by (intro exI [of _ "(s', cm')"]) (simp add: effect_def, auto)
qed

lemma query_field_ok:
  assumes "index_ok idx" "good idx (fst sc)" "set_ok (snd sc)" "f \<in> set (i_fields idx)" "map_of (i_invertedIndex idx) w = Some p"
  shows "\<exists>sc'. query_field c w p (Inr sc) f = Inr sc' \<and> effect idx c {(w, f)} sc sc'"
proof -
  obtain docs where "map_of (p_fields p) f = Some docs" using index_okD(2) [OF assms(1,5,4)] by blast
  then show ?thesis
    using prohibited_field [OF assms(2,4) _ assms(5) _ assms(3)] matching_field [OF assms(2,4) _ assms(5) _ assms(3,1)]
    by (cases "c_presence c = PROHIBITED") simp_all
qed

text \<open>A loop of steps with effects has the effect of all of them.\<close>
lemma effect_fold:
  assumes step: "\<And>x sc. x \<in> set xs \<Longrightarrow> good idx (fst sc) \<Longrightarrow> set_ok (snd sc) \<Longrightarrow>
      \<exists>sc'. f (Inr sc) x = Inr sc' \<and> effect idx c (X x) sc sc'"
    and "good idx (fst sc)" "set_ok (snd sc)"
  shows "\<exists>sc'. foldl f (Inr sc) xs = Inr sc' \<and> effect idx c (\<Union> (X ` set xs)) sc sc'"
  using assms
proof (induction xs arbitrary: sc)
  case Nil
  then show ?case using effect_refl by force
next
  case (Cons x xs)
  obtain sc1 where 1: "f (Inr sc) x = Inr sc1" "effect idx c (X x) sc sc1" using Cons.prems(1) [of x sc] Cons.prems(2,3) by auto
  then obtain sc' where "foldl f (Inr sc1) xs = Inr sc'" "effect idx c (\<Union> (X ` set xs)) sc1 sc'"
    using Cons.IH [of sc1] Cons.prems(1) effect_good [OF 1(2)] by auto
  then show ?case using 1 effect_trans [OF 1(2)] by auto
qed

lemma query_term_ok:
  assumes "index_ok idx" "good idx (fst sc)" "set_ok (snd sc)" "set (c_fields c) \<subseteq> set (i_fields idx)"
    "map_of (i_invertedIndex idx) w \<noteq> None"
  shows "\<exists>sc'. query_term idx c (Inr sc) w = Inr sc' \<and> effect idx c ({w} \<times> set (c_fields c)) sc sc'"
proof -
  obtain p where p: "map_of (i_invertedIndex idx) w = Some p" using assms(5) by auto
  have "\<exists>sc'. foldl (query_field c w p) (Inr sc) (c_fields c) = Inr sc' \<and>
      effect idx c (\<Union> ((\<lambda>f. {(w, f)}) ` set (c_fields c))) sc sc'"
    using assms(4) by (intro effect_fold query_field_ok [OF assms(1) _ _ _ p] assms(2,3)) auto
  moreover have "\<Union> ((\<lambda>f. {(w, f)}) ` set (c_fields c)) = {w} \<times> set (c_fields c)" by auto
  ultimately show ?thesis using p by (simp add: query_term_def)
qed

section \<open>The terms of a clause\<close>

text \<open>The terms of the index, those that match a term of a clause, and a heap in which the index can be searched.\<close>
definition words :: "'f index \<Rightarrow> string set" where
  "words idx = {w. map_of (i_invertedIndex idx) w \<noteq> None}"

definition hits :: "'f index \<Rightarrow> clause \<Rightarrow> string \<Rightarrow> string set" where
  "hits idx c t = {w \<in> words idx. w \<noteq> [] \<and> clause_matches (c\<lparr>c_term := t\<rparr>) w}"

definition searchable :: "'f index \<Rightarrow> ts_heap \<Rightarrow> bool" where
  "searchable idx h \<longleftrightarrow> word_set h (i_tokenSet idx) (words idx)"

lemma expand_ok:
  assumes "searchable idx h"
  shows "\<exists>ws h'. expand idx (c\<lparr>c_term := t\<rparr>) h = Some (ws, h') \<and> distinct ws \<and> set ws = hits idx c t \<and>
    searchable idx h' \<and> extends h h'"
proof -
  obtain q h1 out h2 found where "TokenSet_fromClause (c\<lparr>c_term := t\<rparr>) h = Some (q, h1)"
      "TokenSet_intersect (i_tokenSet idx) q h1 = Some (out, h2)" "TokenSet_toArray h2 out = Some found" "distinct found"
      "set found = {w \<in> words idx. w \<noteq> [] \<and> clause_matches (c\<lparr>c_term := t\<rparr>) w}"
      "word_set h2 (i_tokenSet idx) (words idx)" "extends h h2"
    using lookup_ok [OF assms [unfolded searchable_def], of "c\<lparr>c_term := t\<rparr>"] by (elim exE conjE) (rule that; assumption)
  then show ?thesis by (simp add: expand_def hits_def searchable_def)
qed

text \<open>A required clause is hopeless if one of its terms matches nothing.\<close>
definition hopeless :: "'f index \<Rightarrow> clause \<Rightarrow> string list \<Rightarrow> bool" where
  "hopeless idx c ts \<longleftrightarrow> c_presence c = REQUIRED \<and> (\<exists>t \<in> set ts. hits idx c t = {})"

definition term_pairs :: "'f index \<Rightarrow> clause \<Rightarrow> string list \<Rightarrow> (string \<times> string) set" where
  "term_pairs idx c ts = (\<Union>t \<in> set ts. hits idx c t \<times> set (c_fields c))"

lemma expanded_ok:
  assumes "index_ok idx" "good idx (fst sc)" "set_ok (snd sc)" "set (c_fields c) \<subseteq> set (i_fields idx)" "set ws = hits idx c t"
  shows "\<exists>sc'. foldl (query_term idx c) (Inr sc) ws = Inr sc' \<and> effect idx c (hits idx c t \<times> set (c_fields c)) sc sc'"
proof -
  have "\<exists>sc'. foldl (query_term idx c) (Inr sc) ws = Inr sc' \<and> effect idx c (\<Union> ((\<lambda>w. {w} \<times> set (c_fields c)) ` set ws)) sc sc'"
    using assms(5) by (intro effect_fold query_term_ok [OF assms(1) _ _ assms(4)] assms(2,3)) (auto simp: hits_def words_def)
  moreover have "\<Union> ((\<lambda>w. {w} \<times> set (c_fields c)) ` set ws) = hits idx c t \<times> set (c_fields c)" using assms(5) by auto
  ultimately show ?thesis by simp
qed

lemma query_terms_ok:
  assumes ok: "index_ok idx" and fs: "set (c_fields c) \<subseteq> set (i_fields idx)"
    and "good idx (fst sc)" "set_ok (snd sc)" "searchable idx h"
  shows "\<exists>sc' h'. query_terms idx c ts sc h = Some (Inr sc', h') \<and> searchable idx h' \<and> extends h h' \<and>
    good idx (fst sc') \<and> set_ok (snd sc') \<and>
    (if hopeless idx c ts then \<forall>f \<in> set (c_fields c). map_of (requiredMatches (fst sc')) f = Some Set_empty
     else effect idx c (term_pairs idx c ts) sc sc')"
  using assms(3-)
proof (induction ts arbitrary: sc h)
  case Nil
  then show ?case using effect_refl [OF Nil(1,2)] by (auto simp: hopeless_def term_pairs_def)
next
  case (Cons t ts)
  obtain ws h1 where e: "expand idx (c\<lparr>c_term := t\<rparr>) h = Some (ws, h1)" "set ws = hits idx c t"
      "searchable idx h1" "extends h h1" using expand_ok [OF Cons.prems(3)] by blast
  show ?case
  proof (cases "ws = [] \<and> c_presence c = REQUIRED")
    case True
    define s' where "s' = (fst sc)\<lparr>requiredMatches := foldl (\<lambda>m f. AList.update f Set_empty m) (requiredMatches (fst sc)) (c_fields c)\<rparr>"
    have "map_of (requiredMatches s') f = (if f \<in> set (c_fields c) then Some Set_empty else map_of (requiredMatches (fst sc)) f)" for f
      by (simp add: s'_def map_of_foldl_update)
    moreover from this have "good idx s'" using Cons.prems(1) by (auto simp: good_def s'_def split: if_splits)
    moreover have "query_terms idx c (t # ts) sc h = Some (Inr (s', snd sc), h1)" using e(1) True by (simp add: s'_def)
    moreover have "hopeless idx c (t # ts)" using True e(2) by (simp add: hopeless_def)
    ultimately show ?thesis using e(3,4) Cons.prems(2) by (intro exI [of _ "(s', snd sc)"] exI [of _ h1]) simp
  next
    case False
    obtain sc1 where 1: "foldl (query_term idx c) (Inr sc) ws = Inr sc1" "effect idx c (hits idx c t \<times> set (c_fields c)) sc sc1"
      using expanded_ok [OF ok Cons.prems(1,2) fs e(2)] by blast
    obtain sc' h' where 2: "query_terms idx c ts sc1 h1 = Some (Inr sc', h')" "searchable idx h'" "extends h1 h'"
        "good idx (fst sc')" "set_ok (snd sc')"
        "if hopeless idx c ts then \<forall>f \<in> set (c_fields c). map_of (requiredMatches (fst sc')) f = Some Set_empty
         else effect idx c (term_pairs idx c ts) sc1 sc'"
      using Cons.IH [of sc1 h1] effect_good [OF 1(2)] e(3) by blast
    have "query_terms idx c (t # ts) sc h = Some (Inr sc', h')" using e(1) False 1(1) 2(1) by auto
    moreover have "hopeless idx c (t # ts) \<longleftrightarrow> hopeless idx c ts" using False e(2) by (auto simp: hopeless_def)
    moreover have "term_pairs idx c (t # ts) = hits idx c t \<times> set (c_fields c) \<union> term_pairs idx c ts" by (simp add: term_pairs_def)
    ultimately show ?thesis using 2 effect_trans [OF 1(2)] extends_trans [OF e(4) 2(3)] by auto
  qed
qed

section \<open>All clauses\<close>

text \<open>Whether the required terms of a field admit a document.\<close>
definition admits :: "qstate \<Rightarrow> string \<Rightarrow> string \<Rightarrow> bool" where
  "admits s f d \<longleftrightarrow> (case map_of (requiredMatches s) f of None \<Rightarrow> True | Some m \<Rightarrow> set_contains m d)"

lemma restrict_ok:
  assumes "good idx s" "set_ok cm" "c_presence c = REQUIRED \<Longrightarrow> \<forall>f \<in> set (c_fields c). map_of (requiredMatches s) f \<noteq> None"
  shows "\<exists>s'. restrict_required c (s, cm) = Inr s' \<and> good idx s' \<and> matchingFields s' = matchingFields s \<and>
    prohibitedMatches s' = prohibitedMatches s \<and>
    (\<forall>f d. admits s' f d \<longleftrightarrow> admits s f d \<and> (c_presence c = REQUIRED \<and> f \<in> set (c_fields c) \<longrightarrow> set_contains cm d))"
proof (cases "c_presence c = REQUIRED")
  case False
  then show ?thesis using assms(1) by (simp add: restrict_required_def)
next
  case True
  let ?step = "\<lambda>r f. bindr r (\<lambda>s. case map_of (requiredMatches s) f of
                 None \<Rightarrow> Inl type_error
               | Some m \<Rightarrow> Inr (s\<lparr>requiredMatches := AList.update f (set_intersect m cm) (requiredMatches s)\<rparr>))"
  have "\<exists>s'. foldl ?step (Inr s) fs = Inr s' \<and> good idx s' \<and> matchingFields s' = matchingFields s \<and>
      prohibitedMatches s' = prohibitedMatches s \<and>
      (\<forall>f d. admits s' f d \<longleftrightarrow> admits s f d \<and> (f \<in> set fs \<longrightarrow> set_contains cm d))"
    if "good idx s" "\<forall>f \<in> set fs. map_of (requiredMatches s) f \<noteq> None" for fs s
    using that
  proof (induction fs arbitrary: s)
    case (Cons f fs)
    obtain m where m: "map_of (requiredMatches s) f = Some m" using Cons.prems(2) by auto
    define s1 where "s1 = s\<lparr>requiredMatches := AList.update f (set_intersect m cm) (requiredMatches s)\<rparr>"
    have "set_ok m" using good_ok(1) [OF Cons.prems(1) m] .
    then have "good idx s1" "\<And>g d. admits s1 g d \<longleftrightarrow> admits s g d \<and> (g = f \<longrightarrow> set_contains cm d)"
      using Cons.prems(1) assms(2) m
      by (auto simp: good_def s1_def admits_def lset.ok_inter lset.in_inter split: if_splits option.splits)
    moreover have "\<forall>g \<in> set fs. map_of (requiredMatches s1) g \<noteq> None" using Cons.prems(2) by (simp add: s1_def)
    ultimately obtain s' where "foldl ?step (Inr s1) fs = Inr s'" "good idx s'" "matchingFields s' = matchingFields s1"
        "prohibitedMatches s' = prohibitedMatches s1"
        "\<forall>g d. admits s' g d \<longleftrightarrow> (admits s g d \<and> (g = f \<longrightarrow> set_contains cm d)) \<and> (g \<in> set fs \<longrightarrow> set_contains cm d)"
      using Cons.IH [of s1] by auto
    then show ?case using m by (auto simp: s1_def)
  qed simp
  from this [OF assms(1), of "c_fields c"] show ?thesis using assms(3) True by (simp add: restrict_required_def)
qed

text \<open>A clause a query can have: it names fields of the index, and the pipeline leaves something of a required term.\<close>
definition clause_ok ::
  "('f \<Rightarrow> token \<Rightarrow> nat \<Rightarrow> token list \<Rightarrow> pl_result) \<Rightarrow> 'f index \<Rightarrow> clause \<Rightarrow> bool" where
  "clause_ok call idx c \<longleftrightarrow> c_fields c \<noteq> [] \<and> set (c_fields c) \<subseteq> set (i_fields idx) \<and>
     (c_presence c = REQUIRED \<longrightarrow> clause_terms call idx c \<noteq> [])"

definition clause_pairs ::
  "('f \<Rightarrow> token \<Rightarrow> nat \<Rightarrow> token list \<Rightarrow> pl_result) \<Rightarrow> 'f index \<Rightarrow> clause \<Rightarrow> (string \<times> string) set" where
  "clause_pairs call idx c = term_pairs idx c (clause_terms call idx c)"

definition clause_hopeless ::
  "('f \<Rightarrow> token \<Rightarrow> nat \<Rightarrow> token list \<Rightarrow> pl_result) \<Rightarrow> 'f index \<Rightarrow> clause \<Rightarrow> bool" where
  "clause_hopeless call idx c = hopeless idx c (clause_terms call idx c)"

text \<open>The state after the clauses \<open>cs\<close>: what they match, prohibit and require.  After a hopeless clause nothing is
  admitted any more.\<close>
definition state_for ::
  "('f \<Rightarrow> token \<Rightarrow> nat \<Rightarrow> token list \<Rightarrow> pl_result) \<Rightarrow> 'f index \<Rightarrow> clause set \<Rightarrow> qstate \<Rightarrow> bool" where
  "state_for call idx C s \<longleftrightarrow> good idx s \<and>
     (if \<exists>c \<in> C. clause_hopeless call idx c then \<exists>f \<in> set (i_fields idx). \<forall>d. \<not> admits s f d
      else
        (\<forall>r. map_of (matchingFields s) r \<noteq> None \<longleftrightarrow> (\<exists>c \<in> C. c_presence c \<noteq> PROHIBITED \<and> r \<in> refs_of idx (clause_pairs call idx c))) \<and>
        (\<forall>d. prohibits idx s d \<longleftrightarrow> (\<exists>c \<in> C. c_presence c = PROHIBITED \<and> d \<in> docs_of idx (clause_pairs call idx c))) \<and>
        (\<forall>f d. admits s f d \<longleftrightarrow>
           (\<forall>c \<in> C. c_presence c = REQUIRED \<and> f \<in> set (c_fields c) \<longrightarrow> d \<in> docs_of idx (clause_pairs call idx c))))"

lemma effect_admits: "effect idx c X sc sc' \<Longrightarrow> admits (fst sc') f d \<longleftrightarrow> admits (fst sc) f d"
  by (auto simp: effect_def admits_def split: option.splits if_splits)

lemma term_pairs_fields:
  assumes "\<not> hopeless idx c ts" "c_presence c = REQUIRED" "ts \<noteq> []"
  shows "snd ` term_pairs idx c ts = set (c_fields c)"
proof -
  obtain t where "t \<in> set ts" using assms(3) by (cases ts) auto
  moreover from this obtain w where "w \<in> hits idx c t" using assms(1,2) by (auto simp: hopeless_def)
  ultimately show ?thesis by (force simp: term_pairs_def)
qed

lemma clause_step:
  assumes ok: "index_ok idx" and cok: "clause_ok call idx c" and st: "state_for call idx C s" and h: "searchable idx h"
  shows "\<exists>sc s' h'. query_terms idx c (clause_terms call idx c) (s, Set_empty) h = Some (Inr sc, h') \<and>
    restrict_required c sc = Inr s' \<and> state_for call idx (insert c C) s' \<and> searchable idx h' \<and> extends h h'"
proof -
  let ?ts = "clause_terms call idx c"
  have fs: "set (c_fields c) \<subseteq> set (i_fields idx)" and good: "good idx s"
    using cok st by (simp_all add: clause_ok_def state_for_def)
  obtain sc h' where sc: "query_terms idx c ?ts (s, Set_empty) h = Some (Inr sc, h')" "searchable idx h'" "extends h h'"
      "good idx (fst sc)" "set_ok (snd sc)"
      "if hopeless idx c ?ts then \<forall>f \<in> set (c_fields c). map_of (requiredMatches (fst sc)) f = Some Set_empty
       else effect idx c (term_pairs idx c ?ts) (s, Set_empty) sc"
    using query_terms_ok [OF ok fs, of "(s, Set_empty)" h ?ts] good h by (auto simp del: if_split)
  have reqs: "\<forall>f \<in> set (c_fields c). map_of (requiredMatches (fst sc)) f \<noteq> None" if "c_presence c = REQUIRED"
  proof (cases "hopeless idx c ?ts")
    case False
    then have "snd ` term_pairs idx c ?ts = set (c_fields c)" using term_pairs_fields [of idx c ?ts] that cok by (simp add: clause_ok_def)
    then show ?thesis using sc(6) False that by (auto simp: effect_def split: if_splits)
  qed (use sc(6) in auto)
  obtain s' where s': "restrict_required c sc = Inr s'" "good idx s'" "matchingFields s' = matchingFields (fst sc)"
      "prohibitedMatches s' = prohibitedMatches (fst sc)"
      "\<forall>f d. admits s' f d \<longleftrightarrow> admits (fst sc) f d \<and> (c_presence c = REQUIRED \<and> f \<in> set (c_fields c) \<longrightarrow> set_contains (snd sc) d)"
    using restrict_ok [OF sc(4,5), of c] reqs by (auto simp: prod.collapse)
  have "state_for call idx (insert c C) s'"
  proof (cases "clause_hopeless call idx c")
    case True
    obtain f where "f \<in> set (c_fields c)" using cok by (cases "c_fields c") (auto simp: clause_ok_def)
    then have "f \<in> set (i_fields idx)" "\<forall>d. \<not> admits s' f d"
      using fs sc(6) True s'(5) by (auto simp: clause_hopeless_def admits_def)
    then show ?thesis using True s'(2) by (auto simp: state_for_def)
  next
    case False
    then have eff: "effect idx c (term_pairs idx c ?ts) (s, Set_empty) sc" using sc(6) by (simp add: clause_hopeless_def)
    have adm: "admits s' f d \<longleftrightarrow> admits s f d \<and>
        (c_presence c = REQUIRED \<and> f \<in> set (c_fields c) \<longrightarrow> d \<in> docs_of idx (clause_pairs call idx c))" for f d
      using s'(5) effect_admits [OF eff] eff by (auto simp: effect_def clause_pairs_def)
    have mf: "map_of (matchingFields s') r \<noteq> None \<longleftrightarrow> map_of (matchingFields s) r \<noteq> None \<or>
        c_presence c \<noteq> PROHIBITED \<and> r \<in> refs_of idx (clause_pairs call idx c)" for r
      using eff by (simp add: effect_def s'(3) clause_pairs_def)
    have pr: "prohibits idx s' d \<longleftrightarrow> prohibits idx s d \<or> c_presence c = PROHIBITED \<and> d \<in> docs_of idx (clause_pairs call idx c)" for d
      using eff by (simp add: effect_def prohibits_def s'(4) clause_pairs_def)
    show ?thesis
    proof (cases "\<exists>c \<in> C. clause_hopeless call idx c")
      case True
      then show ?thesis using st adm s'(2) unfolding state_for_def by auto
    next
      case nh: False
      then show ?thesis using st False s'(2) unfolding state_for_def mf pr adm by auto
    qed
  qed
  then show ?thesis using sc(1-3) s'(1) by blast
qed

lemma query_clauses_ok:
  assumes "index_ok idx" "\<forall>c \<in> set cs. clause_ok call idx c" "state_for call idx C s" "searchable idx h"
  shows "\<exists>s' h'. query_clauses call idx cs s h = Some (Inr s', h') \<and> state_for call idx (C \<union> set cs) s' \<and>
    searchable idx h' \<and> extends h h'"
  using assms(2-)
proof (induction cs arbitrary: C s h)
  case (Cons c cs)
  have "clause_ok call idx c" using Cons.prems(1) by simp
  then obtain sc s1 h1 where 1: "query_terms idx c (clause_terms call idx c) (s, Set_empty) h = Some (Inr sc, h1)"
      "restrict_required c sc = Inr s1" "state_for call idx (insert c C) s1" "searchable idx h1" "extends h h1"
    using clause_step [OF assms(1) _ Cons.prems(2,3)] by blast
  obtain s' h' where 2: "query_clauses call idx cs s1 h1 = Some (Inr s', h')" "state_for call idx (insert c C \<union> set cs) s'"
      "searchable idx h'" "extends h1 h'"
    using Cons.IH [OF _ 1(3,4)] Cons.prems(1) by auto
  have "query_clauses call idx (c # cs) s h = Some (Inr s', h')" using 1(1,2) 2(1) by simp
  moreover have "insert c C \<union> set cs = C \<union> set (c # cs)" by auto
  ultimately show ?case using 2 extends_trans [OF 1(5) 2(4)] by metis
qed simp

lemma new_qstate_ok: "state_for call idx {} (new_qstate (i_fields idx))"
  by (simp add: state_for_def good_def new_qstate_def prohibits_def admits_def map_of_foldl_update)

section \<open>From matches to results\<close>

lemma all_required_contains:
  assumes "good idx s"
  shows "set_contains (all_required fs s) d \<longleftrightarrow> (\<forall>f \<in> set fs. admits s f d)"
proof -
  let ?step = "\<lambda>m f. case map_of (requiredMatches s) f of None \<Rightarrow> m | Some r \<Rightarrow> set_intersect m r"
  have "set_ok m \<Longrightarrow> set_contains (foldl ?step m fs) d \<longleftrightarrow> set_contains m d \<and> (\<forall>f \<in> set fs. admits s f d)" for m
    by (induction fs arbitrary: m)
      (auto simp: admits_def lset.in_inter lset.ok_inter split: option.splits dest: good_ok(1) [OF assms])
  then show ?thesis by (simp add: all_required_def)
qed

lemma all_prohibited_contains:
  assumes "good idx s"
  shows "set_contains (all_prohibited (i_fields idx) s) d \<longleftrightarrow> prohibits idx s d"
proof -
  let ?step = "\<lambda>m f. case map_of (prohibitedMatches s) f of None \<Rightarrow> m | Some r \<Rightarrow> set_union m r"
  have "set_ok m \<Longrightarrow> set_contains (foldl ?step m fs) d \<longleftrightarrow>
      set_contains m d \<or> (\<exists>f \<in> set fs. \<exists>r. map_of (prohibitedMatches s) f = Some r \<and> set_contains r d)" for m fs
  proof (induction fs arbitrary: m)
    case (Cons f fs)
    show ?case
    proof (cases "map_of (prohibitedMatches s) f")
      case None
      then show ?thesis using Cons by simp
    next
      case (Some r)
      then have "set_ok r" using good_ok(2) [OF assms] by blast
      then show ?thesis using Cons Some by (simp add: lset.in_union lset.ok_union)
    qed
  qed simp
  then show ?thesis by (simp add: all_prohibited_def prohibits_def)
qed

lemma add_result_refs:
  "map r_ref (add_result d x md rs) = (if d \<in> set (map r_ref rs) then map r_ref rs else map r_ref rs @ [d])"
  by (simp add: add_result_def o_def if_distrib)

lemma collect_ok:
  assumes ok: "index_ok idx"
    and "\<forall>r \<in> set refs. \<exists>f \<in> set (i_fields idx). \<exists>d. r = ref_of f d \<and> map_of (i_fieldVectors idx) r \<noteq> None"
    and "\<forall>f \<in> set (i_fields idx). map_of vs f \<noteq> None"
  shows "\<exists>vs' rs'. foldl (collect msqrt idx req pro mf) (Inr (vs, rs)) refs = Inr (vs', rs') \<and>
    (distinct (map r_ref rs) \<longrightarrow> distinct (map r_ref rs')) \<and>
    set (map r_ref rs') = set (map r_ref rs) \<union>
      {d. (\<exists>f \<in> set (i_fields idx). ref_of f d \<in> set refs) \<and> set_contains req d \<and> \<not> set_contains pro d}"
  using assms(2-)
proof (induction refs arbitrary: vs rs)
  case (Cons r refs)
  obtain f d v where r: "f \<in> set (i_fields idx)" "r = ref_of f d" "map_of (i_fieldVectors idx) r = Some v"
    using Cons.prems(1) by auto
  have nj: "joiner \<notin> set g" if "g \<in> set (i_fields idx)" for g using index_okD(1) [OF ok that] .
  obtain fr where fr: "FieldRef_fromString r = Inr fr" "docRef fr = d" "fieldName fr = f" "FieldRef_toString fr = r"
    using ref_of_read [OF nj [OF r(1)], of d] r(2) by metis
  obtain qv where qv: "map_of vs f = Some qv" using Cons.prems(2) r(1) by auto
  let ?in = "set_contains req d \<and> \<not> set_contains pro d"
  define vs1 rs1 where "vs1 = (if ?in then AList.update f (snd (similarity msqrt qv v)) vs else vs)"
    and "rs1 = (if ?in then add_result d (fst (similarity msqrt qv v)) (the (map_of mf r)) rs else rs)"
  have step: "collect msqrt idx req pro mf (Inr (vs, rs)) r = Inr (vs1, rs1)"
    using fr qv r(3) by (auto simp: collect_def vs1_def rs1_def Let_def split: prod.splits)
  have "\<forall>g \<in> set (i_fields idx). map_of vs1 g \<noteq> None" using Cons.prems(2) by (simp add: vs1_def)
  then obtain vs' rs' where rest: "foldl (collect msqrt idx req pro mf) (Inr (vs1, rs1)) refs = Inr (vs', rs')"
      "distinct (map r_ref rs1) \<longrightarrow> distinct (map r_ref rs')"
      "set (map r_ref rs') = set (map r_ref rs1) \<union>
        {d. (\<exists>f \<in> set (i_fields idx). ref_of f d \<in> set refs) \<and> set_contains req d \<and> \<not> set_contains pro d}"
    using Cons.IH [of vs1 rs1] Cons.prems(1) by auto
  have "set (map r_ref rs1) = set (map r_ref rs) \<union> (if ?in then {d} else {})" "distinct (map r_ref rs) \<longrightarrow> distinct (map r_ref rs1)"
    by (auto simp: rs1_def add_result_refs simp del: set_map)
  moreover have "(\<exists>g \<in> set (i_fields idx). ref_of g x \<in> set (r # refs)) \<longleftrightarrow> x = d \<or> (\<exists>g \<in> set (i_fields idx). ref_of g x \<in> set refs)" for x
    using ref_of_inj [OF nj nj [OF r(1)]] r(1,2) by auto
  ultimately show ?case using step rest by (intro exI [of _ vs'] exI [of _ rs']) auto
qed simp

section \<open>What a query answers\<close>

text \<open>The documents a clause matches, and those a query asks for: a query of prohibited clauses only asks for all
  documents without them, any other one for the documents of its clauses.\<close>
definition clause_docs ::
  "('f \<Rightarrow> token \<Rightarrow> nat \<Rightarrow> token list \<Rightarrow> pl_result) \<Rightarrow> 'f index \<Rightarrow> clause \<Rightarrow> string set" where
  "clause_docs call idx c =
     {d. \<exists>t \<in> set (clause_terms call idx c). \<exists>w \<in> hits idx c t. \<exists>f \<in> set (c_fields c). d \<in> docs_in idx w f}"

definition all_docs :: "'f index \<Rightarrow> string set" where
  "all_docs idx = {d. \<exists>f \<in> set (i_fields idx). map_of (i_fieldVectors idx) (ref_of f d) \<noteq> None}"

definition answers ::
  "('f \<Rightarrow> token \<Rightarrow> nat \<Rightarrow> token list \<Rightarrow> pl_result) \<Rightarrow> 'f index \<Rightarrow> query \<Rightarrow> string set" where
  "answers call idx q =
     {d \<in> (if isNegated q then all_docs idx else (\<Union>c \<in> {c \<in> set (clauses q). c_presence c \<noteq> PROHIBITED}. clause_docs call idx c)).
        (\<forall>c \<in> set (clauses q). c_presence c = REQUIRED \<longrightarrow>
           d \<in> clause_docs call idx c \<and> (\<forall>t \<in> set (clause_terms call idx c). hits idx c t \<noteq> {})) \<and>
        (\<forall>c \<in> set (clauses q). c_presence c = PROHIBITED \<longrightarrow> d \<notin> clause_docs call idx c)}"

lemma docs_of_clause: "docs_of idx (clause_pairs call idx c) = clause_docs call idx c"
  by (auto simp: docs_of_def clause_pairs_def term_pairs_def clause_docs_def)

lemma refs_of_clause:
  assumes "index_ok idx" "clause_ok call idx c"
  shows "(\<exists>f \<in> set (i_fields idx). ref_of f d \<in> refs_of idx (clause_pairs call idx c)) \<longleftrightarrow> d \<in> clause_docs call idx c"
proof -
  have fs: "f \<in> set (i_fields idx)" "joiner \<notin> set f" if "(w, f) \<in> clause_pairs call idx c" for w f
    using assms that index_okD(1) by (auto simp: clause_ok_def clause_pairs_def term_pairs_def)
  show ?thesis
    unfolding docs_of_clause [symmetric]
  proof
    assume "\<exists>f \<in> set (i_fields idx). ref_of f d \<in> refs_of idx (clause_pairs call idx c)"
    then obtain f w g e where f: "f \<in> set (i_fields idx)" and wg: "(w, g) \<in> clause_pairs call idx c" "e \<in> docs_in idx w g"
      and eq: "ref_of f d = ref_of g e" by (auto simp: refs_of_def)
    have "d = e" using eq ref_of_inj [OF index_okD(1) [OF assms(1) f] fs(2) [OF wg(1)]] by simp
    then show "d \<in> docs_of idx (clause_pairs call idx c)" using wg by (auto simp: docs_of_def)
  next
    assume "d \<in> docs_of idx (clause_pairs call idx c)"
    then obtain w f where "(w, f) \<in> clause_pairs call idx c" "d \<in> docs_in idx w f" by (auto simp: docs_of_def)
    then show "\<exists>f \<in> set (i_fields idx). ref_of f d \<in> refs_of idx (clause_pairs call idx c)"
      using fs(1) by (intro bexI [of _ f]) (auto simp: refs_of_def)
  qed
qed

lemma score_order_sorts: "sorted_wrt (\<lambda>a b. r_score b \<le> r_score a) (sort_cmp score_order rs)"
proof -
  have "score_order a b \<le> 0 \<longleftrightarrow> r_score b \<le> r_score a" for a b :: result by (auto simp: score_order_def Let_def)
  then show ?thesis using sorted_sort_cmp [of score_order rs] by force
qed

lemma distinct_insert_cmp: "distinct (map g (insert_cmp f x xs)) \<longleftrightarrow> g x \<notin> g ` set xs \<and> distinct (map g xs)"
  by (induction xs) auto

lemma distinct_sort_cmp: "distinct (map g (sort_cmp f xs)) \<longleftrightarrow> distinct (map g xs)"
proof (induction xs)
  case (Cons x xs)
  have "sort_cmp f (x # xs) = insert_cmp f x (sort_cmp f xs)" by (simp add: sort_cmp_def)
  then show ?case using Cons by (simp add: distinct_insert_cmp)
qed (simp add: sort_cmp_def)

lemma blank_matches:
  assumes "\<forall>r \<in> set refs. \<exists>f d. joiner \<notin> set f \<and> r = ref_of f d"
  shows "\<exists>mf'. foldl (\<lambda>r ref. bindr r (\<lambda>mf. mapr (\<lambda>_. AList.update ref blank_MatchData mf) (FieldRef_fromString ref)))
    (Inr mf) refs = Inr mf'"
  using assms
proof (induction refs arbitrary: mf)
  case (Cons r refs)
  obtain f d where "joiner \<notin> set f" "r = ref_of f d" using Cons.prems by auto
  then obtain fr where "FieldRef_fromString r = Inr fr" using ref_of_read by metis
  then show ?case using Cons by simp
qed simp

text \<open>The documents left after the required and prohibited terms are those the query asks for.\<close>
lemma state_answers:
  assumes ok: "index_ok idx" and cok: "\<forall>c \<in> set (clauses q). clause_ok call idx c"
    and st: "state_for call idx (set (clauses q)) s"
    and refs: "\<And>r. r \<in> R \<longleftrightarrow> (if isNegated q then map_of (i_fieldVectors idx) r \<noteq> None else map_of (matchingFields s) r \<noteq> None)"
  shows "{d. (\<exists>f \<in> set (i_fields idx). ref_of f d \<in> R) \<and> (\<forall>f \<in> set (i_fields idx). admits s f d) \<and> \<not> prohibits idx s d} =
    answers call idx q"
proof (cases "\<exists>c \<in> set (clauses q). clause_hopeless call idx c")
  case True
  then have "answers call idx q = {}" by (auto simp: answers_def clause_hopeless_def hopeless_def)
  moreover have "\<exists>f \<in> set (i_fields idx). \<forall>d. \<not> admits s f d" using st True by (simp add: state_for_def)
  ultimately show ?thesis by auto
next
  case False
  then have mf: "map_of (matchingFields s) r \<noteq> None \<longleftrightarrow>
        (\<exists>c \<in> set (clauses q). c_presence c \<noteq> PROHIBITED \<and> r \<in> refs_of idx (clause_pairs call idx c))"
    and pro: "prohibits idx s d \<longleftrightarrow> (\<exists>c \<in> set (clauses q). c_presence c = PROHIBITED \<and> d \<in> clause_docs call idx c)"
    and adm: "admits s f d \<longleftrightarrow>
        (\<forall>c \<in> set (clauses q). c_presence c = REQUIRED \<and> f \<in> set (c_fields c) \<longrightarrow> d \<in> clause_docs call idx c)" for r d f
    using st by (simp_all add: state_for_def docs_of_clause)
  have cand: "(\<exists>f \<in> set (i_fields idx). ref_of f d \<in> R) \<longleftrightarrow>
      d \<in> (if isNegated q then all_docs idx else (\<Union>c \<in> {c \<in> set (clauses q). c_presence c \<noteq> PROHIBITED}. clause_docs call idx c))" for d
  proof (cases "isNegated q")
    case False
    then have "(\<exists>f \<in> set (i_fields idx). ref_of f d \<in> R) \<longleftrightarrow> (\<exists>c \<in> set (clauses q). c_presence c \<noteq> PROHIBITED \<and>
        (\<exists>f \<in> set (i_fields idx). ref_of f d \<in> refs_of idx (clause_pairs call idx c)))"
      using mf by (simp add: refs) blast
    also have "\<dots> \<longleftrightarrow> (\<exists>c \<in> set (clauses q). c_presence c \<noteq> PROHIBITED \<and> d \<in> clause_docs call idx c)"
      using refs_of_clause [OF ok] cok by blast
    finally show ?thesis using False by auto
  qed (simp add: refs all_docs_def)
  have "(\<forall>f \<in> set (i_fields idx). admits s f d) \<longleftrightarrow> (\<forall>c \<in> set (clauses q). c_presence c = REQUIRED \<longrightarrow> d \<in> clause_docs call idx c)" for d
  proof -
    have "\<exists>f \<in> set (i_fields idx). f \<in> set (c_fields c)" if "c \<in> set (clauses q)" for c
    proof -
      have "c_fields c \<noteq> []" "set (c_fields c) \<subseteq> set (i_fields idx)" using cok that by (simp_all add: clause_ok_def)
      then show ?thesis using hd_in_set by blast
    qed
    then show ?thesis unfolding adm by blast
  qed
  moreover have "hits idx c t \<noteq> {}" if "c \<in> set (clauses q)" "c_presence c = REQUIRED" "t \<in> set (clause_terms call idx c)" for c t
    using False that by (auto simp: clause_hopeless_def hopeless_def)
  ultimately show ?thesis unfolding answers_def cand pro by blast
qed

lemma query_results_ok:
  assumes ok: "index_ok idx" and cok: "\<forall>c \<in> set (clauses q). clause_ok call idx c"
    and st: "state_for call idx (set (clauses q)) s"
  shows "\<exists>rs. query_results msqrt idx q s = Inr rs \<and> distinct (map r_ref rs) \<and>
    sorted_wrt (\<lambda>a b. r_score b \<le> r_score a) rs \<and> set (map r_ref rs) = answers call idx q"
proof -
  have good: "good idx s" using st by (simp add: state_for_def)
  define refs where "refs = (if isNegated q then js_keys (i_fieldVectors idx) else js_keys (matchingFields s))"
  have in_refs: "r \<in> set refs \<longleftrightarrow>
      (if isNegated q then map_of (i_fieldVectors idx) r \<noteq> None else map_of (matchingFields s) r \<noteq> None)" for r
    by (simp add: refs_def in_js_keys del: set_js_keys)
  have refs: "\<forall>r \<in> set refs. \<exists>f \<in> set (i_fields idx). \<exists>d. r = ref_of f d \<and> map_of (i_fieldVectors idx) r \<noteq> None"
  proof
    fix r assume "r \<in> set refs"
    then show "\<exists>f \<in> set (i_fields idx). \<exists>d. r = ref_of f d \<and> map_of (i_fieldVectors idx) r \<noteq> None"
      using in_refs [of r] index_okD(4) [OF ok, of r] good by (cases "isNegated q") (auto simp: good_def)
  qed
  let ?req = "all_required (i_fields idx) s" and ?pro = "all_prohibited (i_fields idx) s"
  obtain mf where mf: "(if isNegated q
        then foldl (\<lambda>r ref. bindr r (\<lambda>mf. mapr (\<lambda>_. AList.update ref blank_MatchData mf) (FieldRef_fromString ref)))
               (Inr (matchingFields s)) refs else Inr (matchingFields s)) = Inr mf"
    using blank_matches [of refs "matchingFields s"] refs index_okD(1) [OF ok] by (cases "isNegated q") (auto, blast)
  have "\<forall>f \<in> set (i_fields idx). map_of (queryVectors s) f \<noteq> None" using good by (simp add: good_def)
  then obtain vs rs where rs: "foldl (collect msqrt idx ?req ?pro mf) (Inr (queryVectors s, [])) refs = Inr (vs, rs)"
      "distinct (map r_ref rs)"
      "set (map r_ref rs) = {d. (\<exists>f \<in> set (i_fields idx). ref_of f d \<in> set refs) \<and> set_contains ?req d \<and> \<not> set_contains ?pro d}"
    using collect_ok [OF ok refs, of "queryVectors s" msqrt ?req ?pro mf "[]"] by auto
  have "query_results msqrt idx q s = Inr (sort_cmp score_order rs)"
    using mf rs(1) by (simp add: query_results_def Let_def refs_def split: if_splits)
  moreover have "set (map r_ref rs) = answers call idx q"
    using rs(3) state_answers [OF ok cok st in_refs] by (simp add: all_required_contains [OF good] all_prohibited_contains [OF good])
  ultimately show ?thesis using rs(2) by (simp add: score_order_sorts distinct_sort_cmp)
qed

lemma query_ok:
  assumes "index_ok idx" "searchable idx h" "\<forall>c \<in> set (clauses q). clause_ok call idx c"
  shows "\<exists>rs h'. Index_query msqrt call idx q h = Some (Inr rs, h') \<and> set (map r_ref rs) = answers call idx q \<and>
    distinct (map r_ref rs) \<and> sorted_wrt (\<lambda>a b. r_score b \<le> r_score a) rs \<and> searchable idx h'"
proof -
  obtain s h' where s: "query_clauses call idx (clauses q) (new_qstate (i_fields idx)) h = Some (Inr s, h')"
      "state_for call idx (set (clauses q)) s" "searchable idx h'"
    using query_clauses_ok [OF assms(1,3) new_qstate_ok assms(2)] by auto
  then show ?thesis using query_results_ok [OF assms(1,3) s(2), of msqrt] by (auto simp: Index_query_def)
qed

text \<open>C4. A query always returns: on an index that fits together, with its token set in a heap that holds
  exactly its terms, the result lists the documents the clauses ask for and no others, each once and the best
  score first, and the index can be queried again.\<close>
theorem query_answers:
  assumes "index_ok idx" "searchable idx h" "\<forall>c \<in> set (clauses q). clause_ok call idx c"
  shows "\<exists>rs h'. Index_query msqrt call idx q h = Some (Inr rs, h') \<and> set (map r_ref rs) = answers call idx q \<and>
    distinct (map r_ref rs) \<and> sorted_wrt (\<lambda>a b. r_score b \<le> r_score a) rs \<and> searchable idx h'"
  using assms by (rule query_ok)

end
