(* ===== verification/Lunr_Build.thy ===== *)
theory Lunr_Build
  imports Lunr_Results
begin

text \<open>
  What \<open>lunr.Builder\<close> builds: the postings record which document has which term in which field, the numbers of
  the terms are distinct, so no vector refuses a term, and the index that comes out fits together and can be
  searched.
\<close>

section \<open>The invariant of a builder\<close>

lemma keys_map_of: "x \<in> fst ` set kvs \<longleftrightarrow> map_of kvs x \<noteq> None"
  by (simp add: map_of_eq_None_iff)

lemma map_of_upd_default [simp]:
  "map_of (upd_default k d g kvs) = (map_of kvs)(k \<mapsto> g (case map_of kvs k of None \<Rightarrow> d | Some v \<Rightarrow> v))"
  by (simp add: upd_default_def)

text \<open>\<open>H\<close> are the documents, fields and terms seen so far, \<open>F\<close> the fields: each term seen has a posting with a number
  of its own below \<open>n\<close>, and the posting lists the documents per field.\<close>
definition posting_ok :: "string set \<Rightarrow> (string \<times> string \<times> string) set \<Rightarrow> string \<Rightarrow> posting \<Rightarrow> bool" where
  "posting_ok F H w p \<longleftrightarrow> (\<forall>f. map_of (p_fields p) f \<noteq> None \<longleftrightarrow> f \<in> F) \<and>
     (\<forall>f docs d. map_of (p_fields p) f = Some docs \<longrightarrow> (map_of docs d \<noteq> None \<longleftrightarrow> (d, f, w) \<in> H))"

definition postings_ok :: "string set \<Rightarrow> (string \<times> string \<times> string) set \<Rightarrow> posting obj \<Rightarrow> nat \<Rightarrow> bool" where
  "postings_ok F H ps n \<longleftrightarrow>
     (\<forall>w p. map_of ps w = Some p \<longrightarrow> p_index p < n \<and> posting_ok F H w p) \<and>
     (\<forall>w w' p p'. map_of ps w = Some p \<longrightarrow> map_of ps w' = Some p' \<longrightarrow> p_index p = p_index p' \<longrightarrow> w = w') \<and>
     (\<forall>w. map_of ps w \<noteq> None \<longleftrightarrow> (\<exists>d f. (d, f, w) \<in> H))"

text \<open>The frequencies are kept for the field references \<open>R\<close> and count terms of \<open>W\<close>.\<close>
definition freqs_ok :: "string set \<Rightarrow> string set \<Rightarrow> nat obj obj \<Rightarrow> bool" where
  "freqs_ok R W ftf \<longleftrightarrow> (\<forall>r. map_of ftf r \<noteq> None \<longleftrightarrow> r \<in> R) \<and>
     (\<forall>r tf. map_of ftf r = Some tf \<longrightarrow> distinct (map fst tf) \<and> fst ` set tf \<subseteq> W)"

definition field_set :: "'f builder \<Rightarrow> string set" where
  "field_set b = {f. map_of (b_fields b) f \<noteq> None}"

lemma set_js_keys_fields: "set (js_keys (b_fields b)) = field_set b"
  by (rule set_eqI) (simp only: in_js_keys field_set_def mem_Collect_eq)

definition seen_words :: "(string \<times> string \<times> string) set \<Rightarrow> string set" where
  "seen_words H = {w. \<exists>d f. (d, f, w) \<in> H}"

definition builder_inv :: "(string \<times> string \<times> string) set \<Rightarrow> string set \<Rightarrow> 'f builder \<Rightarrow> bool" where
  "builder_inv H R b \<longleftrightarrow>
     (\<forall>f \<in> field_set b. joiner \<notin> set f) \<and>
     postings_ok (field_set b) H (b_invertedIndex b) (termIndex b) \<and>
     freqs_ok R (seen_words H) (fieldTermFrequencies b) \<and>
     (\<forall>r. map_of (fieldLengths b) r \<noteq> None \<longleftrightarrow> r \<in> R) \<and>
     (\<forall>d f w. (d, f, w) \<in> H \<longrightarrow> f \<in> field_set b \<and> ref_of f d \<in> R) \<and>
     (\<forall>r \<in> R. \<exists>f \<in> field_set b. \<exists>d. map_of (b_documents b) d \<noteq> None \<and> r = ref_of f d)"

text \<open>What adding documents leaves alone.\<close>
definition same_config :: "'f builder \<Rightarrow> 'f builder \<Rightarrow> bool" where
  "same_config b b' \<longleftrightarrow> b_ref b' = b_ref b \<and> b_fields b' = b_fields b \<and> b_pipeline b' = b_pipeline b \<and>
     searchPipeline b' = searchPipeline b \<and> metadataWhitelist b' = metadataWhitelist b"

lemma same_config_refl [simp]: "same_config b b"
  by (simp add: same_config_def)

lemma same_config_trans: "same_config a b \<Longrightarrow> same_config b c \<Longrightarrow> same_config a c"
  by (simp add: same_config_def)

lemma seen_words_insert [simp]: "seen_words (insert (d, f, w) H) = insert w (seen_words H)"
  by (auto simp: seen_words_def)

lemma empty_posting:
  "map_of (foldl (\<lambda>p f. AList.update f [] p) [] flds) f = (if f \<in> set flds then Some [] else None)"
  by (simp add: map_of_foldl_update)

text \<open>Changing the posting of one term.\<close>
lemma postings_ok_update:
  assumes ok: "postings_ok F H ps n" and "n \<le> n'" "p_index p < n'" "posting_ok F (insert (d, f, w) H) w p"
    and new: "\<And>u q. u \<noteq> w \<Longrightarrow> map_of ps u = Some q \<Longrightarrow> p_index q \<noteq> p_index p"
    and ps': "\<And>u. map_of ps' u = (if u = w then Some p else map_of ps u)"
  shows "postings_ok F (insert (d, f, w) H) ps' n'"
proof -
  have "posting_ok F (insert (d, f, w) H) u q" if "u \<noteq> w" "map_of ps u = Some q" for u q
    using ok that unfolding postings_ok_def posting_ok_def by blast
  moreover have "p_index q < n'" if "map_of ps u = Some q" for u q using ok that assms(2) unfolding postings_ok_def by fastforce
  moreover have "u = u'" if "map_of ps' u = Some q" "map_of ps' u' = Some q'" "p_index q = p_index q'" for u u' q q'
  proof (cases "u = w \<or> u' = w")
    case True
    then show ?thesis using that new [of u q] new [of u' q'] by (auto simp: ps' split: if_splits)
  next
    case False
    then have "map_of ps u = Some q" "map_of ps u' = Some q'" using that by (auto simp: ps')
    then show ?thesis using ok that(3) unfolding postings_ok_def by blast
  qed
  moreover have "map_of ps' u \<noteq> None \<longleftrightarrow> (\<exists>e g. (e, g, u) \<in> insert (d, f, w) H)" for u
    using ok unfolding postings_ok_def ps' by auto
  moreover have "p_index q < n' \<and> posting_ok F (insert (d, f, w) H) u q" if "map_of ps' u = Some q" for u q
    using that assms(3,4) calculation(1,2) [of u q] by (cases "u = w") (simp_all add: ps')
  ultimately show ?thesis unfolding postings_ok_def by blast
qed

text \<open>The posting \<open>add_term\<close> works on: an old one, or a new one that is empty and has a new number.\<close>
lemma ensure_posting_ok:
  assumes ok: "postings_ok F H (b_invertedIndex b) (termIndex b)" and F: "F = set flds"
  shows "\<exists>p. map_of (b_invertedIndex (ensure_posting flds w b)) w = Some p \<and> posting_ok F H w p \<and>
    p_index p < termIndex (ensure_posting flds w b) \<and> termIndex b \<le> termIndex (ensure_posting flds w b) \<and>
    (\<forall>u. u \<noteq> w \<longrightarrow> map_of (b_invertedIndex (ensure_posting flds w b)) u = map_of (b_invertedIndex b) u) \<and>
    (\<forall>u q. u \<noteq> w \<longrightarrow> map_of (b_invertedIndex b) u = Some q \<longrightarrow> p_index q \<noteq> p_index p)"
proof (cases "map_of (b_invertedIndex b) w")
  case None
  then have "(d, f, w) \<notin> H" for d f using ok unfolding postings_ok_def by blast
  then have "posting_ok F H w \<lparr>p_index = termIndex b, p_fields = foldl (\<lambda>p f. AList.update f [] p) [] flds\<rparr>"
    by (auto simp: posting_ok_def empty_posting F)
  moreover have "p_index q \<noteq> termIndex b" if "map_of (b_invertedIndex b) u = Some q" for u q
    using ok that unfolding postings_ok_def by fastforce
  ultimately show ?thesis using None by (auto simp: ensure_posting_def)
next
  case (Some p)
  then have "posting_ok F H w p" "p_index p < termIndex b" "\<forall>u q. u \<noteq> w \<longrightarrow> map_of (b_invertedIndex b) u = Some q \<longrightarrow> p_index q \<noteq> p_index p"
    using ok unfolding postings_ok_def by blast+
  then show ?thesis using Some by (simp add: ensure_posting_def)
qed

lemma freqs_ok_count:
  assumes "freqs_ok R W ftf" "r \<in> R"
  shows "freqs_ok R (insert w W) (upd_default r [] (upd_default w 0 Suc) ftf)"
proof -
  have "map_of ftf r \<noteq> None" using assms by (simp add: freqs_ok_def)
  then obtain tf where tf: "map_of ftf r = Some tf" by auto
  let ?tf = "upd_default w 0 Suc tf" and ?ftf = "upd_default r [] (upd_default w 0 Suc) ftf"
  have old: "distinct (map fst v) \<and> fst ` set v \<subseteq> W" if "map_of ftf u = Some v" for u v
    using assms(1) that by (simp add: freqs_ok_def)
  have new: "map_of ?ftf u = (if u = r then Some ?tf else map_of ftf u)" for u by (simp add: tf)
  have "fst ` set ?tf = insert w (fst ` set tf)" by (auto simp: keys_map_of set_eq_iff)
  moreover have "distinct (map fst ?tf)" using old [OF tf] by (simp add: upd_default_def distinct_update)
  ultimately have "distinct (map fst v) \<and> fst ` set v \<subseteq> insert w W" if "map_of ?ftf u = Some v" for u v
    using that old [OF tf] old [of u v] unfolding new by (cases "u = r") auto
  moreover have "map_of ?ftf u \<noteq> None \<longleftrightarrow> u \<in> R" for u
    using assms unfolding new freqs_ok_def by (cases "u = r") simp_all
  ultimately show ?thesis unfolding freqs_ok_def by blast
qed

lemma add_term_ok:
  assumes ok: "builder_inv H R b" and f: "f \<in> field_set b" and R: "ref_of f d \<in> R"
  shows "\<exists>b'. add_term (js_keys (b_fields b)) f d b t = Inr b' \<and> builder_inv (insert (d, f, Token_toString t) H) R b' \<and>
    same_config b b' \<and> b_documents b' = b_documents b"
proof -
  let ?w = "Token_toString t" and ?F = "field_set b"
  define b1 where "b1 = b\<lparr>fieldTermFrequencies := upd_default (ref_of f d) [] (upd_default ?w 0 Suc) (fieldTermFrequencies b)\<rparr>"
  define b2 where "b2 = ensure_posting (js_keys (b_fields b)) ?w b1"
  have post: "postings_ok ?F H (b_invertedIndex b1) (termIndex b1)" using ok by (simp add: builder_inv_def b1_def)
  have "?F = set (js_keys (b_fields b))" by (rule set_js_keys_fields [symmetric])
  then obtain p where p: "map_of (b_invertedIndex b2) ?w = Some p" "posting_ok ?F H ?w p" "p_index p < termIndex b2"
      "termIndex b1 \<le> termIndex b2" "\<forall>u. u \<noteq> ?w \<longrightarrow> map_of (b_invertedIndex b2) u = map_of (b_invertedIndex b1) u"
      "\<forall>u q. u \<noteq> ?w \<longrightarrow> map_of (b_invertedIndex b1) u = Some q \<longrightarrow> p_index q \<noteq> p_index p"
    using ensure_posting_ok [OF post, of _ ?w] unfolding b2_def by blast
  obtain docs where docs: "map_of (p_fields p) f = Some docs" using p(2) f unfolding posting_ok_def by blast
  define docs' where "docs' = upd_default d [] (push_metadata t (metadataWhitelist b2)) docs"
  define p' where "p' = p\<lparr>p_fields := AList.update f docs' (p_fields p)\<rparr>"
  define b' where "b' = b2\<lparr>b_invertedIndex := AList.update ?w p' (b_invertedIndex b2)\<rparr>"
  have same: "b_fields b' = b_fields b" "b_documents b' = b_documents b" "fieldLengths b' = fieldLengths b"
      "fieldTermFrequencies b' = fieldTermFrequencies b1" "same_config b b'"
    by (auto simp: b'_def b2_def b1_def ensure_posting_def same_config_def)
  have "posting_ok ?F (insert (d, f, ?w) H) ?w p'"
  proof -
    have "map_of docs' e \<noteq> None \<longleftrightarrow> e = d \<or> (e, f, ?w) \<in> H" for e
      using p(2) docs unfolding posting_ok_def docs'_def by auto
    then show ?thesis using p(2) f unfolding posting_ok_def p'_def by (auto split: if_splits)
  qed
  then have "postings_ok ?F (insert (d, f, ?w) H) (b_invertedIndex b') (termIndex b2)"
    using p by (intro postings_ok_update [OF post, of _ p']) (simp_all add: p'_def b'_def)
  moreover have "termIndex b' = termIndex b2" "field_set b' = ?F" using same(1) by (simp_all add: b'_def field_set_def)
  moreover have "freqs_ok R (seen_words (insert (d, f, ?w) H)) (fieldTermFrequencies b')"
    using ok R freqs_ok_count by (simp add: builder_inv_def same b1_def)
  ultimately have "builder_inv (insert (d, f, ?w) H) R b'"
    using ok f R unfolding builder_inv_def by (auto simp: same)
  moreover have "add_term (js_keys (b_fields b)) f d b t = Inr b'"
    using p(1) docs
    by (simp add: add_term_def ref_of_def [symmetric] b1_def [symmetric] b2_def [symmetric] Let_def b'_def p'_def docs'_def)
  ultimately show ?thesis using same by blast
qed

section \<open>Adding documents\<close>

text \<open>The terms a document has in a field, or the exception that reading or cutting it throws.\<close>
definition doc_terms ::
  "('f \<Rightarrow> token \<Rightarrow> nat \<Rightarrow> token list \<Rightarrow> pl_result) \<Rightarrow> (char \<Rightarrow> bool) \<Rightarrow> 'f builder \<Rightarrow> jsval \<Rightarrow> string \<Rightarrow> string list jsr" where
  "doc_terms call sep b doc f =
     bindr (field_value (the (map_of (b_fields b) f)) f doc) (\<lambda>v.
     mapr (\<lambda>tokens. map Token_toString (Pipeline_run call (b_pipeline b) tokens))
       (tokenizer sep v (Some [(''fields'', Arr [Str f])])))"

lemma doc_terms_same: "same_config b b' \<Longrightarrow> doc_terms call sep b' doc f = doc_terms call sep b doc f"
  by (simp add: doc_terms_def same_config_def)

lemma field_set_same: "same_config b b' \<Longrightarrow> field_set b' = field_set b"
  by (simp add: field_set_def same_config_def)

lemma add_terms_ok:
  assumes "builder_inv H R b" "f \<in> field_set b" "ref_of f d \<in> R"
  shows "\<exists>b'. foldl (\<lambda>r t. bindr r (\<lambda>b. add_term (js_keys (b_fields b)) f d b t)) (Inr b) ts = Inr b' \<and>
    builder_inv (H \<union> {(d, f, w) |w. w \<in> set (map Token_toString ts)}) R b' \<and> same_config b b' \<and> b_documents b' = b_documents b"
  using assms(1,2)
proof (induction ts arbitrary: H b)
  case (Cons t ts)
  obtain b1 where 1: "add_term (js_keys (b_fields b)) f d b t = Inr b1" "builder_inv (insert (d, f, Token_toString t) H) R b1"
      "same_config b b1" "b_documents b1 = b_documents b"
    using add_term_ok [OF Cons.prems assms(3)] by blast
  obtain b' where 2: "foldl (\<lambda>r t. bindr r (\<lambda>b. add_term (js_keys (b_fields b)) f d b t)) (Inr b1) ts = Inr b'"
      "builder_inv (insert (d, f, Token_toString t) H \<union> {(d, f, w) |w. w \<in> set (map Token_toString ts)}) R b'"
      "same_config b1 b'" "b_documents b' = b_documents b1"
    using Cons.IH [OF 1(2)] Cons.prems(2) field_set_same [OF 1(3)] by blast
  moreover have "insert (d, f, Token_toString t) H \<union> {(d, f, w) |w. w \<in> set (map Token_toString ts)} =
      H \<union> {(d, f, w) |w. w \<in> set (map Token_toString (t # ts))}" by auto
  ultimately show ?case using 1 same_config_trans [OF 1(3) 2(3)] by (intro exI [of _ b']) simp
qed simp

lemma add_field_ok:
  assumes ok: "builder_inv H R b" and f: "f \<in> field_set b" and d: "map_of (b_documents b) d \<noteq> None"
    and ts: "doc_terms call sep b doc f = Inr ws"
  shows "\<exists>b'. add_field call sep d doc b f = Inr b' \<and> builder_inv (H \<union> {(d, f, w) |w. w \<in> set ws}) (insert (ref_of f d) R) b' \<and>
    same_config b b' \<and> b_documents b' = b_documents b"
proof -
  obtain v tokens where v: "field_value (the (map_of (b_fields b) f)) f doc = Inr v"
      "tokenizer sep v (Some [(''fields'', Arr [Str f])]) = Inr tokens"
      "ws = map Token_toString (Pipeline_run call (b_pipeline b) tokens)"
    using ts by (auto simp: doc_terms_def bindr_Inr_conv mapr_Inr_conv)
  let ?ts = "Pipeline_run call (b_pipeline b) tokens"
  define b1 where "b1 = b\<lparr>fieldTermFrequencies := AList.update (ref_of f d) [] (fieldTermFrequencies b),
      fieldLengths := AList.update (ref_of f d) (length ?ts) (fieldLengths b)\<rparr>"
  have same: "same_config b b1" "b_documents b1 = b_documents b" "field_set b1 = field_set b"
    by (simp_all add: b1_def same_config_def field_set_def)
  have "freqs_ok (insert (ref_of f d) R) (seen_words H) (fieldTermFrequencies b1)"
    using ok by (auto simp: builder_inv_def freqs_ok_def b1_def)
  then have "builder_inv H (insert (ref_of f d) R) b1"
    using ok f d unfolding builder_inv_def same by (auto simp: b1_def)
  then obtain b' where "foldl (\<lambda>r t. bindr r (\<lambda>b. add_term (js_keys (b_fields b)) f d b t)) (Inr b1) ?ts = Inr b'"
      "builder_inv (H \<union> {(d, f, w) |w. w \<in> set ws}) (insert (ref_of f d) R) b'" "same_config b1 b'" "b_documents b' = b_documents b1"
    using add_terms_ok [of H "insert (ref_of f d) R" b1 f d ?ts] f same(3) v(3) by auto
  then show ?thesis
    using v(1,2) same same_config_trans by (auto simp: add_field_def Let_def ref_of_def [symmetric] b1_def [symmetric])
qed

text \<open>What one document adds: its fields and terms.\<close>
definition doc_hits ::
  "('f \<Rightarrow> token \<Rightarrow> nat \<Rightarrow> token list \<Rightarrow> pl_result) \<Rightarrow> (char \<Rightarrow> bool) \<Rightarrow> 'f builder \<Rightarrow> string \<Rightarrow> jsval \<Rightarrow> (string \<times> string \<times> string) set" where
  "doc_hits call sep b d doc = {(d, f, w) |f w ws. f \<in> field_set b \<and> doc_terms call sep b doc f = Inr ws \<and> w \<in> set ws}"

lemma add_fields_ok:
  assumes "builder_inv H R b" "set fs \<subseteq> field_set b" "map_of (b_documents b) d \<noteq> None"
    "\<forall>f \<in> set fs. \<exists>ws. doc_terms call sep b doc f = Inr ws"
  shows "\<exists>b'. foldl (\<lambda>r f. bindr r (\<lambda>b. add_field call sep d doc b f)) (Inr b) fs = Inr b' \<and>
    builder_inv (H \<union> {(d, f, w) |f w ws. f \<in> set fs \<and> doc_terms call sep b doc f = Inr ws \<and> w \<in> set ws})
      (R \<union> (\<lambda>f. ref_of f d) ` set fs) b' \<and> same_config b b' \<and> b_documents b' = b_documents b"
  using assms
proof (induction fs arbitrary: H R b)
  case (Cons f fs)
  obtain ws where ws: "doc_terms call sep b doc f = Inr ws" using Cons.prems(4) by auto
  obtain b1 where 1: "add_field call sep d doc b f = Inr b1" "builder_inv (H \<union> {(d, f, w) |w. w \<in> set ws}) (insert (ref_of f d) R) b1"
      "same_config b b1" "b_documents b1 = b_documents b"
    using add_field_ok [OF Cons.prems(1) _ Cons.prems(3) ws] Cons.prems(2) by auto
  have terms: "doc_terms call sep b1 doc g = doc_terms call sep b doc g" for g by (rule doc_terms_same [OF 1(3)])
  obtain b' where 2: "foldl (\<lambda>r f. bindr r (\<lambda>b. add_field call sep d doc b f)) (Inr b1) fs = Inr b'"
      "builder_inv ((H \<union> {(d, f, w) |w. w \<in> set ws}) \<union> {(d, f, w) |f w ws. f \<in> set fs \<and> doc_terms call sep b doc f = Inr ws \<and> w \<in> set ws})
        (insert (ref_of f d) R \<union> (\<lambda>f. ref_of f d) ` set fs) b'" "same_config b1 b'" "b_documents b' = b_documents b1"
    using Cons.IH [OF 1(2)] Cons.prems(2-4) field_set_same [OF 1(3)] 1(4) unfolding terms by auto
  moreover have "(H \<union> {(d, f, w) |w. w \<in> set ws}) \<union> {(d, f, w) |f w ws. f \<in> set fs \<and> doc_terms call sep b doc f = Inr ws \<and> w \<in> set ws} =
      H \<union> {(d, g, w) |g w ws. g \<in> set (f # fs) \<and> doc_terms call sep b doc g = Inr ws \<and> w \<in> set ws}" using ws by auto
  moreover have "insert (ref_of f d) R \<union> (\<lambda>f. ref_of f d) ` set fs = R \<union> (\<lambda>f. ref_of f d) ` set (f # fs)" by auto
  ultimately show ?case using 1 same_config_trans [OF 1(3) 2(3)] by (intro exI [of _ b']) simp
qed simp

text \<open>Documents that can be added: reading the reference and cutting every field succeeds.\<close>
definition addable ::
  "('f \<Rightarrow> token \<Rightarrow> nat \<Rightarrow> token list \<Rightarrow> pl_result) \<Rightarrow> (char \<Rightarrow> bool) \<Rightarrow> 'f builder \<Rightarrow> jsval \<Rightarrow> bool" where
  "addable call sep b doc \<longleftrightarrow> (\<exists>v. get doc (b_ref b) = Inr v) \<and> (\<forall>f \<in> field_set b. \<exists>ws. doc_terms call sep b doc f = Inr ws)"

definition doc_ref :: "'f builder \<Rightarrow> jsval \<Rightarrow> string" where
  "doc_ref b doc = (case get doc (b_ref b) of Inr v \<Rightarrow> to_str v | Inl _ \<Rightarrow> [])"

lemma builder_add_ok:
  assumes ok: "builder_inv H R b" and a: "addable call sep b doc"
  defines "d \<equiv> doc_ref b doc"
  shows "\<exists>b'. builder_add call sep doc boost b = Inr b' \<and> same_config b b' \<and>
    builder_inv (H \<union> doc_hits call sep b d doc) (R \<union> (\<lambda>f. ref_of f d) ` field_set b) b' \<and>
    (\<forall>e. map_of (b_documents b') e \<noteq> None \<longleftrightarrow> e = d \<or> map_of (b_documents b) e \<noteq> None)"
proof -
  obtain v where v: "get doc (b_ref b) = Inr v" "d = to_str v" using a by (auto simp: addable_def d_def doc_ref_def)
  define b1 where "b1 = b\<lparr>b_documents := AList.update d boost (b_documents b), documentCount := documentCount b + 1\<rparr>"
  have same: "same_config b b1" "field_set b1 = field_set b" by (simp_all add: b1_def same_config_def field_set_def)
  have terms: "doc_terms call sep b1 doc f = doc_terms call sep b doc f" for f by (rule doc_terms_same [OF same(1)])
  note fs = set_js_keys_fields [of b]
  have docs1: "map_of (b_documents b1) e \<noteq> None \<longleftrightarrow> e = d \<or> map_of (b_documents b) e \<noteq> None" for e by (simp add: b1_def)
  have eqs: "b_invertedIndex b1 = b_invertedIndex b" "termIndex b1 = termIndex b" "fieldTermFrequencies b1 = fieldTermFrequencies b"
      "fieldLengths b1 = fieldLengths b" by (simp_all add: b1_def)
  have inv1: "builder_inv H R b1" using ok unfolding builder_inv_def same eqs docs1 by blast
  have d1: "map_of (b_documents b1) d \<noteq> None" by (simp add: b1_def)
  have tms: "\<forall>f \<in> field_set b. \<exists>ws. doc_terms call sep b doc f = Inr ws" using a by (simp add: addable_def)
  note add = add_fields_ok [of H R b1 "js_keys (b_fields b)" d call sep doc, unfolded fs same(2) terms,
      folded doc_hits_def, OF inv1 subset_refl d1 tms]
  then obtain b' where b': "foldl (\<lambda>r f. bindr r (\<lambda>b. add_field call sep d doc b f)) (Inr b1) (js_keys (b_fields b)) = Inr b'"
      "builder_inv (H \<union> doc_hits call sep b d doc) (R \<union> (\<lambda>f. ref_of f d) ` field_set b) b'" "same_config b1 b'" "b_documents b' = b_documents b1"
    by blast
  moreover have "builder_add call sep doc boost b = Inr b'"
    using v b'(1) by (simp add: builder_add_def b1_def Let_def)
  ultimately show ?thesis using same_config_trans [OF same(1)] docs1 by auto
qed

section \<open>Building the vectors\<close>

lemma vec_insert_new:
  assumes "vec_ok v" "component v k = None"
  shows "\<exists>v'. vec_insert k x v = Inr v' \<and> vec_ok v' \<and> component v' = (component v)(k \<mapsto> x)"
proof -
  obtain kvs where kvs: "elements v = flat kvs" "sorted_keys kvs" using assms(1) by (auto simp: vec_ok_def)
  then have "map_of kvs k = None" using assms(2) by (simp add: component_def)
  then show ?thesis
    using kvs sorted_upd [OF kvs(2)] map_of_upd [OF kvs(2)]
    by (auto simp: vec_insert_def upsert_pairs [OF kvs] vec_ok_def component_def)
qed

text \<open>The number of a term, its weight in a field of a document, and a cache of inverse frequencies that is right.\<close>
definition term_no :: "'f builder \<Rightarrow> string \<Rightarrow> rat" where
  "term_no b w = of_nat (p_index (the (map_of (b_invertedIndex b) w)))"

definition weight :: "(rat \<Rightarrow> rat) \<Rightarrow> 'f builder \<Rightarrow> FieldRef \<Rightarrow> rat \<Rightarrow> rat \<Rightarrow> string \<Rightarrow> rat" where
  "weight mlog b fr fieldBoost docBoost w =
     term_score (idf mlog (the (map_of (b_invertedIndex b) w)) (documentCount b)) (b_k1 b) (b_b b)
       (of_nat (the (map_of (the (map_of (fieldTermFrequencies b) (FieldRef_toString fr))) w)))
       (of_nat (the (map_of (fieldLengths b) (FieldRef_toString fr))))
       (case map_of (averageFieldLength b) (fieldName fr) of Some (Some a) \<Rightarrow> a | _ \<Rightarrow> 0) fieldBoost docBoost"

definition idf_cache_ok :: "(rat \<Rightarrow> rat) \<Rightarrow> 'f builder \<Rightarrow> rat obj \<Rightarrow> bool" where
  "idf_cache_ok mlog b cache \<longleftrightarrow>
     (\<forall>w i. map_of cache w = Some i \<longrightarrow> i = idf mlog (the (map_of (b_invertedIndex b) w)) (documentCount b))"

lemma vector_term_ok:
  assumes "idf_cache_ok mlog b cache" "vec_ok v" "component v (term_no b w) = None"
  shows "\<exists>v' cache'. vector_term mlog b fr fb db (Inr (v, cache)) w = Inr (v', cache') \<and> idf_cache_ok mlog b cache' \<and>
    vec_ok v' \<and> component v' = (component v)(term_no b w \<mapsto> weight mlog b fr fb db w)"
proof -
  obtain v' where v': "vec_insert (term_no b w) (weight mlog b fr fb db w) v = Inr v'" "vec_ok v'"
      "component v' = (component v)(term_no b w \<mapsto> weight mlog b fr fb db w)" using vec_insert_new [OF assms(2,3)] by blast
  show ?thesis
  proof (cases "map_of cache w")
    case None
    then show ?thesis
      using v' assms(1) by (simp add: vector_term_def Let_def term_no_def weight_def idf_cache_ok_def)
  next
    case (Some i)
    then have "i = idf mlog (the (map_of (b_invertedIndex b) w)) (documentCount b)" using assms(1) by (simp add: idf_cache_ok_def)
    then show ?thesis
      using v' assms(1) Some by (simp add: vector_term_def Let_def term_no_def weight_def)
  qed
qed

lemma vector_terms_ok:
  assumes "idf_cache_ok mlog b cache" "vec_ok v" "distinct ws" "inj_on (term_no b) (set ws)"
    "\<forall>w \<in> set ws. component v (term_no b w) = None"
  shows "\<exists>v' cache'. foldl (vector_term mlog b fr fb db) (Inr (v, cache)) ws = Inr (v', cache') \<and> idf_cache_ok mlog b cache' \<and>
    vec_ok v' \<and> (\<forall>w \<in> set ws. component v' (term_no b w) = Some (weight mlog b fr fb db w)) \<and>
    (\<forall>k. k \<notin> term_no b ` set ws \<longrightarrow> component v' k = component v k)"
  using assms
proof (induction ws arbitrary: v cache)
  case (Cons w ws)
  obtain v1 c1 where 1: "vector_term mlog b fr fb db (Inr (v, cache)) w = Inr (v1, c1)" "idf_cache_ok mlog b c1" "vec_ok v1"
      "component v1 = (component v)(term_no b w \<mapsto> weight mlog b fr fb db w)"
    using vector_term_ok [OF Cons.prems(1,2), of w fr fb db] Cons.prems(5) by auto
  have w: "term_no b w \<notin> term_no b ` set ws" using Cons.prems(3,4) by (auto simp: inj_on_def)
  have "\<forall>u \<in> set ws. component v1 (term_no b u) = None"
  proof
    fix u assume u: "u \<in> set ws"
    then have "term_no b u \<noteq> term_no b w" using w by (metis image_eqI)
    then show "component v1 (term_no b u) = None" using Cons.prems(5) u by (simp add: 1(4))
  qed
  moreover have "inj_on (term_no b) (set ws)" using Cons.prems(4) by (auto simp: inj_on_def)
  ultimately obtain v' c' where 2: "foldl (vector_term mlog b fr fb db) (Inr (v1, c1)) ws = Inr (v', c')" "idf_cache_ok mlog b c'" "vec_ok v'"
      "\<forall>w \<in> set ws. component v' (term_no b w) = Some (weight mlog b fr fb db w)"
      "\<forall>k. k \<notin> term_no b ` set ws \<longrightarrow> component v' k = component v1 k"
    using Cons.IH [OF 1(2,3)] Cons.prems(3) by auto
  have "component v' (term_no b w) = Some (weight mlog b fr fb db w)" using 2(5) w by (simp add: 1(4))
  moreover have "component v' k = component v k" if "k \<notin> term_no b ` set (w # ws)" for k using 2(5) that by (simp add: 1(4))
  ultimately show ?case using 1(1) 2 by (intro exI [of _ v'] exI [of _ c']) simp
qed simp

text \<open>The vector of a field of a document: at the number of each of its terms the weight of the term, nothing else.\<close>
definition vector_ok :: "(rat \<Rightarrow> rat) \<Rightarrow> 'f builder \<Rightarrow> string \<Rightarrow> vec \<Rightarrow> bool" where
  "vector_ok mlog b r v \<longleftrightarrow> vec_ok v \<and>
     (\<exists>fr attrs boost tf. FieldRef_fromString r = Inr fr \<and> map_of (b_fields b) (fieldName fr) = Some attrs \<and>
        map_of (b_documents b) (docRef fr) = Some boost \<and> map_of (fieldTermFrequencies b) r = Some tf \<and>
        (\<forall>w \<in> fst ` set tf. component v (term_no b w) =
           Some (weight mlog b fr (boost_or_1 (fa_boost attrs)) (boost_or_1 boost) w)) \<and>
        (\<forall>k. k \<notin> term_no b ` fst ` set tf \<longrightarrow> component v k = None))"

lemma component_new [simp]: "component (new_Vector []) k = None" "vec_ok (new_Vector [])"
  by (simp_all add: component_def new_Vector_def vec_ok_def sorted_keys_def) (rule exI [of _ "[]"], simp)

lemma vector_field_ok:
  assumes ok: "builder_inv H R b" and r: "r \<in> R" and cache: "idf_cache_ok mlog b cache"
  shows "\<exists>v cache'. vector_field mlog b (Inr (vs, cache)) r = Inr (AList.update r v vs, cache') \<and> idf_cache_ok mlog b cache' \<and>
    vector_ok mlog b r v"
proof -
  obtain f d where fd: "f \<in> field_set b" "map_of (b_documents b) d \<noteq> None" "r = ref_of f d"
    using ok r unfolding builder_inv_def by blast
  have "joiner \<notin> set f" using ok fd(1) by (simp add: builder_inv_def)
  then obtain fr where fr: "FieldRef_fromString r = Inr fr" "docRef fr = d" "fieldName fr = f" "FieldRef_toString fr = r"
    using ref_of_read [of f d] fd(3) by metis
  obtain attrs boost where ab: "map_of (b_fields b) f = Some attrs" "map_of (b_documents b) d = Some boost"
    using fd(1,2) by (auto simp: field_set_def)
  have freqs: "freqs_ok R (seen_words H) (fieldTermFrequencies b)" and post: "postings_ok (field_set b) H (b_invertedIndex b) (termIndex b)"
    using ok by (simp_all add: builder_inv_def)
  have "map_of (fieldTermFrequencies b) r \<noteq> None" using freqs r by (simp add: freqs_ok_def)
  then obtain tf where tf: "map_of (fieldTermFrequencies b) r = Some tf" by auto
  have dtf: "distinct (map fst tf)" "fst ` set tf \<subseteq> seen_words H" using freqs tf by (simp_all add: freqs_ok_def)
  have "inj_on (term_no b) (fst ` set tf)"
  proof (rule inj_onI)
    fix u w assume u: "u \<in> fst ` set tf" and w: "w \<in> fst ` set tf" and eq: "term_no b u = term_no b w"
    have "map_of (b_invertedIndex b) x \<noteq> None" if "x \<in> fst ` set tf" for x
    proof -
      have "\<exists>d f. (d, f, x) \<in> H" using dtf(2) that by (auto simp: seen_words_def)
      then show ?thesis using post unfolding postings_ok_def by blast
    qed
    from this [OF u] this [OF w] obtain p q where
      pq: "map_of (b_invertedIndex b) u = Some p" "map_of (b_invertedIndex b) w = Some q" by auto
    then have "p_index p = p_index q" using eq by (simp add: term_no_def)
    then show "u = w" using post pq unfolding postings_ok_def by blast
  qed
  then obtain v c' where v: "foldl (vector_term mlog b fr (boost_or_1 (fa_boost attrs)) (boost_or_1 boost)) (Inr (new_Vector [], cache)) (js_keys tf) = Inr (v, c')"
      "idf_cache_ok mlog b c'" "vec_ok v"
      "\<forall>w \<in> fst ` set tf. component v (term_no b w) = Some (weight mlog b fr (boost_or_1 (fa_boost attrs)) (boost_or_1 boost) w)"
      "\<forall>k. k \<notin> term_no b ` fst ` set tf \<longrightarrow> component v k = None"
    using vector_terms_ok [OF cache component_new(2) distinct_js_keys [OF dtf(1)], of fr "boost_or_1 (fa_boost attrs)" "boost_or_1 boost"] by auto
  have "vector_ok mlog b r v" using v(3-5) fr ab tf unfolding vector_ok_def by blast
  moreover have "vector_field mlog b (Inr (vs, cache)) r = Inr (AList.update r v vs, c')"
    using fr ab tf v(1) by (simp add: vector_field_def)
  ultimately show ?thesis using v(2) by blast
qed

lemma vector_fields_ok:
  assumes "builder_inv H R b" "set rs \<subseteq> R" "idf_cache_ok mlog b cache"
  shows "\<exists>vs' cache'. foldl (vector_field mlog b) (Inr (vs, cache)) rs = Inr (vs', cache') \<and>
    (\<forall>r. r \<notin> set rs \<longrightarrow> map_of vs' r = map_of vs r) \<and>
    (\<forall>r \<in> set rs. \<exists>v. map_of vs' r = Some v \<and> vector_ok mlog b r v)"
  using assms(2,3)
proof (induction rs arbitrary: vs cache)
  case (Cons r rs)
  obtain v c1 where 1: "vector_field mlog b (Inr (vs, cache)) r = Inr (AList.update r v vs, c1)" "idf_cache_ok mlog b c1"
      "vector_ok mlog b r v"
    using vector_field_ok [OF assms(1) _ Cons.prems(2), of r vs] Cons.prems(1) by auto
  obtain vs' c' where 2: "foldl (vector_field mlog b) (Inr (AList.update r v vs, c1)) rs = Inr (vs', c')"
      "\<forall>r'. r' \<notin> set rs \<longrightarrow> map_of vs' r' = map_of (AList.update r v vs) r'"
      "\<forall>r \<in> set rs. \<exists>v. map_of vs' r = Some v \<and> vector_ok mlog b r v"
    using Cons.IH [OF _ 1(2), of "AList.update r v vs"] Cons.prems(1) by auto
  have "\<exists>v. map_of vs' r = Some v \<and> vector_ok mlog b r v" using 2(2,3) 1(3) by (cases "r \<in> set rs") auto
  then show ?case using 1(1) 2 by (intro exI [of _ vs'] exI [of _ c']) auto
qed simp

section \<open>The index\<close>

lemma count_fields_ok:
  assumes "\<forall>r \<in> set refs. \<exists>fr. FieldRef_fromString r = Inr fr"
  shows "\<exists>acc'. foldl (count_field lens) (Inr acc) refs = Inr acc'"
  using assms
proof (induction refs arbitrary: acc)
  case (Cons r refs)
  then obtain fr where "FieldRef_fromString r = Inr fr" by auto
  then obtain acc1 where "count_field lens (Inr acc) r = Inr acc1" by (cases acc) (simp add: count_field_def)
  then show ?case using Cons by simp
qed simp

lemma average_ok:
  assumes "builder_inv H R b"
  shows "\<exists>avg. calculateAverageFieldLengths b = Inr (b\<lparr>averageFieldLength := avg\<rparr>)"
proof -
  have "\<exists>fr. FieldRef_fromString r = Inr fr" if "r \<in> set (js_keys (fieldLengths b))" for r
  proof -
    have "r \<in> R" using assms that unfolding builder_inv_def in_js_keys by blast
    then obtain f d where "f \<in> field_set b" "r = ref_of f d" using assms unfolding builder_inv_def by blast
    moreover from this have "joiner \<notin> set f" using assms unfolding builder_inv_def by blast
    ultimately show ?thesis using ref_of_read [of f d] by metis
  qed
  then have "\<exists>acc'. foldl (count_field (fieldLengths b)) (Inr ([], [])) (js_keys (fieldLengths b)) = Inr acc'"
    by (intro count_fields_ok) blast
  then show ?thesis by (auto simp: calculateAverageFieldLengths_def)
qed

text \<open>A vector of weights for every field reference.\<close>
lemma vectors_ok:
  assumes ok: "builder_inv H R b"
  shows "\<exists>vs. createFieldVectors mlog b = Inr (b\<lparr>b_fieldVectors := vs\<rparr>) \<and> (\<forall>r. map_of vs r \<noteq> None \<longleftrightarrow> r \<in> R) \<and>
    (\<forall>r \<in> R. \<exists>v. map_of vs r = Some v \<and> vector_ok mlog b r v)"
proof -
  have keys: "set (js_keys (fieldTermFrequencies b)) = R"
    using ok unfolding builder_inv_def freqs_ok_def by (intro set_eqI) (simp only: in_js_keys)
  obtain vs c where vs: "foldl (vector_field mlog b) (Inr ([], [])) (js_keys (fieldTermFrequencies b)) = Inr (vs, c)"
      "\<forall>r. r \<notin> R \<longrightarrow> map_of vs r = None" "\<forall>r \<in> R. \<exists>v. map_of vs r = Some v \<and> vector_ok mlog b r v"
    using vector_fields_ok [OF ok, of "js_keys (fieldTermFrequencies b)" mlog "[]" "[]"] unfolding keys
    by (auto simp: idf_cache_ok_def)
  moreover have "map_of vs r \<noteq> None \<longleftrightarrow> r \<in> R" for r using vs(2,3) by (cases "r \<in> R") auto
  ultimately show ?thesis by (intro exI [of _ vs]) (simp add: createFieldVectors_def)
qed

definition no_digits :: "string \<Rightarrow> bool" where
  "no_digits w \<longleftrightarrow> list_all (\<lambda>c. \<not> is_digit c) w"

lemma build_ok:
  assumes ok: "builder_inv H R b" and digits: "\<forall>w \<in> seen_words H. no_digits w" and h: "heap_ok h"
  shows "\<exists>idx h'. builder_build mlog b h = Inr (idx, h') \<and> index_ok idx \<and> searchable idx h' \<and> extends h h' \<and>
    words idx = seen_words H \<and> (\<forall>w f. f \<in> field_set b \<longrightarrow> docs_in idx w f = {d. (d, f, w) \<in> H}) \<and>
    set (i_fields idx) = field_set b \<and> i_pipeline idx = searchPipeline b \<and>
    (\<forall>r. map_of (i_fieldVectors idx) r \<noteq> None \<longleftrightarrow> r \<in> R)"
proof -
  obtain avg where b1: "calculateAverageFieldLengths b = Inr (b\<lparr>averageFieldLength := avg\<rparr>)" using average_ok [OF ok] by blast
  let ?b1 = "b\<lparr>averageFieldLength := avg\<rparr>"
  have ok1: "builder_inv H R ?b1" using ok by (simp add: builder_inv_def field_set_def)
  obtain vs where vs: "createFieldVectors mlog ?b1 = Inr (?b1\<lparr>b_fieldVectors := vs\<rparr>)" "\<forall>r. map_of vs r \<noteq> None \<longleftrightarrow> r \<in> R"
    using vectors_ok [OF ok1, of mlog] by blast
  have post: "postings_ok (field_set b) H (b_invertedIndex b) (termIndex b)" using ok by (simp add: builder_inv_def)
  have keys: "set (js_keys (b_invertedIndex b)) = seen_words H"
    using post unfolding postings_ok_def seen_words_def by (intro set_eqI) (simp only: in_js_keys mem_Collect_eq)
  then have "list_all (list_all (\<lambda>c. \<not> is_digit c)) (sort (js_keys (b_invertedIndex b)))"
    using digits by (simp add: list_all_iff no_digits_def)
  then obtain n h' where n: "TokenSet_fromArray (sort (js_keys (b_invertedIndex b))) h = Inr (n, h')"
      "word_set h' n (seen_words H)" "extends h h'"
    using fromArray_word_set [OF sorted_sort _ h, of "js_keys (b_invertedIndex b)"] keys by auto
  define idx where "idx = \<lparr>i_invertedIndex = b_invertedIndex b, i_fieldVectors = vs, i_tokenSet = n,
      i_fields = js_keys (b_fields b), i_pipeline = searchPipeline b\<rparr>"
  have build: "builder_build mlog b h = Inr (idx, h')"
    using b1 vs(1) n(1) by (simp add: builder_build_def createTokenSet_def idx_def)
  have fields: "set (i_fields idx) = field_set b" by (simp add: idx_def set_js_keys_fields del: set_js_keys)
  have ws: "words idx = seen_words H" using post unfolding words_def idx_def postings_ok_def seen_words_def by simp
  have docs: "docs_in idx w f = {d. (d, f, w) \<in> H}" if f: "f \<in> field_set b" for w f
  proof (cases "map_of (b_invertedIndex b) w")
    case None
    then have "(d, f, w) \<notin> H" for d using post unfolding postings_ok_def by blast
    then show ?thesis using None by (simp add: docs_in_def idx_def)
  next
    case (Some p)
    then have p: "posting_ok (field_set b) H w p" using post unfolding postings_ok_def by blast
    then obtain docs where "map_of (p_fields p) f = Some docs" using f unfolding posting_ok_def by blast
    then show ?thesis using Some p unfolding posting_ok_def docs_in_def idx_def by (simp add: set_eq_iff keys_map_of)
  qed
  have "index_ok idx"
    unfolding index_ok_def fields
  proof (intro conjI ballI allI impI)
    show "joiner \<notin> set f" if "f \<in> field_set b" for f using ok that unfolding builder_inv_def by blast
    show "map_of (p_fields p) f \<noteq> None" if "map_of (i_invertedIndex idx) w = Some p" "f \<in> field_set b" for w p f
      using post that unfolding postings_ok_def posting_ok_def idx_def by simp
    show "map_of (i_fieldVectors idx) (ref_of f d) \<noteq> None" if "f \<in> field_set b" "d \<in> docs_in idx w f" for w f d
    proof -
      have "ref_of f d \<in> R" using ok that docs unfolding builder_inv_def by blast
      then show ?thesis using vs(2) by (simp add: idx_def)
    qed
    show "\<exists>f \<in> field_set b. \<exists>d. r = ref_of f d" if "map_of (i_fieldVectors idx) r \<noteq> None" for r
    proof -
      have "r \<in> R" using vs(2) that by (simp add: idx_def)
      then show ?thesis using ok unfolding builder_inv_def by blast
    qed
  qed
  moreover have "searchable idx h'" using n(2) ws unfolding searchable_def by (simp add: idx_def)
  ultimately show ?thesis using build n(3) ws docs fields vs(2) by (intro exI [of _ idx] exI [of _ h']) (simp add: idx_def)
qed

section \<open>An index of a list of documents\<close>

text \<open>A builder that is configured and has no documents yet.\<close>
definition fresh_builder :: "'f builder \<Rightarrow> bool" where
  "fresh_builder b \<longleftrightarrow> list_all (\<lambda>(f, _). joiner \<notin> set f) (b_fields b) \<and> b_documents b = [] \<and> b_invertedIndex b = [] \<and>
     fieldTermFrequencies b = [] \<and> fieldLengths b = []"

lemma fresh_inv: "fresh_builder b \<Longrightarrow> builder_inv {} {} b"
  unfolding fresh_builder_def builder_inv_def field_set_def
  by (auto simp: postings_ok_def freqs_ok_def list_all_iff dest: map_of_SomeD)

text \<open>Whether a document has a term in a field.\<close>
definition has_term ::
  "('f \<Rightarrow> token \<Rightarrow> nat \<Rightarrow> token list \<Rightarrow> pl_result) \<Rightarrow> (char \<Rightarrow> bool) \<Rightarrow> 'f builder \<Rightarrow> jsval \<Rightarrow> string \<Rightarrow> string \<Rightarrow> bool" where
  "has_term call sep b doc f w \<longleftrightarrow> (case doc_terms call sep b doc f of Inl _ \<Rightarrow> False | Inr ws \<Rightarrow> w \<in> set ws)"

lemma doc_hits_iff: "(e, f, w) \<in> doc_hits call sep b d doc \<longleftrightarrow> e = d \<and> f \<in> field_set b \<and> has_term call sep b doc f w"
  by (auto simp: doc_hits_def has_term_def split: sum.splits)

definition add_docs ::
  "('f \<Rightarrow> token \<Rightarrow> nat \<Rightarrow> token list \<Rightarrow> pl_result) \<Rightarrow> (char \<Rightarrow> bool) \<Rightarrow> (jsval \<times> rat option) list \<Rightarrow> 'f builder \<Rightarrow> 'f builder jsr" where
  "add_docs call sep docs b = foldl (\<lambda>r (doc, boost). bindr r (builder_add call sep doc boost)) (Inr b) docs"

definition hits_of ::
  "('f \<Rightarrow> token \<Rightarrow> nat \<Rightarrow> token list \<Rightarrow> pl_result) \<Rightarrow> (char \<Rightarrow> bool) \<Rightarrow> 'f builder \<Rightarrow> jsval set \<Rightarrow> (string \<times> string \<times> string) set" where
  "hits_of call sep b D = (\<Union>doc \<in> D. doc_hits call sep b (doc_ref b doc) doc)"

definition refs_for :: "'f builder \<Rightarrow> jsval set \<Rightarrow> string set" where
  "refs_for b D = (\<Union>doc \<in> D. (\<lambda>f. ref_of f (doc_ref b doc)) ` field_set b)"

lemma same_config_docs:
  assumes "same_config b b'"
  shows "addable call sep b' doc \<longleftrightarrow> addable call sep b doc" "hits_of call sep b' D = hits_of call sep b D"
    "refs_for b' D = refs_for b D" "has_term call sep b' doc f w \<longleftrightarrow> has_term call sep b doc f w"
proof -
  note [simp] = doc_terms_same [OF assms] field_set_same [OF assms]
  have [simp]: "b_ref b' = b_ref b" using assms by (simp add: same_config_def)
  show "addable call sep b' doc \<longleftrightarrow> addable call sep b doc" by (simp add: addable_def)
  show "hits_of call sep b' D = hits_of call sep b D" by (simp add: hits_of_def doc_hits_def doc_ref_def)
  show "refs_for b' D = refs_for b D" by (simp add: refs_for_def doc_ref_def)
  show "has_term call sep b' doc f w \<longleftrightarrow> has_term call sep b doc f w" by (simp add: has_term_def)
qed

lemma add_docs_ok:
  assumes "builder_inv H R b" "\<forall>doc \<in> fst ` set docs. addable call sep b doc"
  shows "\<exists>b'. add_docs call sep docs b = Inr b' \<and> same_config b b' \<and>
    builder_inv (H \<union> hits_of call sep b (fst ` set docs)) (R \<union> refs_for b (fst ` set docs)) b'"
  using assms
proof (induction docs arbitrary: H R b)
  case Nil
  then show ?case by (simp add: add_docs_def hits_of_def refs_for_def)
next
  case (Cons x docs)
  obtain doc boost where x: "x = (doc, boost)" by (cases x)
  let ?H = "doc_hits call sep b (doc_ref b doc) doc" and ?R = "(\<lambda>f. ref_of f (doc_ref b doc)) ` field_set b"
  obtain b1 where 1: "builder_add call sep doc boost b = Inr b1" "same_config b b1" "builder_inv (H \<union> ?H) (R \<union> ?R) b1"
    using builder_add_ok [OF Cons.prems(1), of call sep doc boost] Cons.prems(2) x by auto
  note same = same_config_docs [OF 1(2)]
  obtain b' where 2: "add_docs call sep docs b1 = Inr b'" "same_config b1 b'"
      "builder_inv ((H \<union> ?H) \<union> hits_of call sep b (fst ` set docs)) ((R \<union> ?R) \<union> refs_for b (fst ` set docs)) b'"
    using Cons.IH [OF 1(3)] Cons.prems(2) unfolding same by auto
  moreover have "(H \<union> ?H) \<union> hits_of call sep b (fst ` set docs) = H \<union> hits_of call sep b (fst ` set (x # docs))"
    and "(R \<union> ?R) \<union> refs_for b (fst ` set docs) = R \<union> refs_for b (fst ` set (x # docs))"
    by (auto simp: x hits_of_def refs_for_def)
  moreover have "add_docs call sep (x # docs) b = Inr b'" using 1(1) 2(1) by (simp add: add_docs_def x)
  ultimately show ?case using same_config_trans [OF 1(2) 2(2)] by metis
qed

lemma index_of_docs:
  assumes "fresh_builder b" "\<forall>doc \<in> set docs. addable call sep b doc"
    and "\<forall>doc \<in> set docs. \<forall>f \<in> field_set b. \<forall>w. has_term call sep b doc f w \<longrightarrow> no_digits w" "heap_ok h"
  shows "\<exists>b' idx h'. add_docs call sep (map (\<lambda>d. (d, boost d)) docs) b = Inr b' \<and> builder_build mlog b' h = Inr (idx, h') \<and>
    index_ok idx \<and> searchable idx h' \<and> set (i_fields idx) = field_set b \<and> i_pipeline idx = searchPipeline b \<and>
    (\<forall>f \<in> field_set b. \<forall>w. docs_in idx w f = {doc_ref b doc |doc. doc \<in> set docs \<and> has_term call sep b doc f w}) \<and>
    (\<forall>r. map_of (i_fieldVectors idx) r \<noteq> None \<longleftrightarrow> (\<exists>doc \<in> set docs. \<exists>f \<in> field_set b. r = ref_of f (doc_ref b doc)))"
proof -
  have docs: "fst ` set (map (\<lambda>d. (d, boost d)) docs) = set docs" by force
  let ?H = "hits_of call sep b (set docs)" and ?R = "refs_for b (set docs)"
  obtain b' where b': "add_docs call sep (map (\<lambda>d. (d, boost d)) docs) b = Inr b'" "same_config b b'" "builder_inv ?H ?R b'"
    using add_docs_ok [OF fresh_inv [OF assms(1)], of "map (\<lambda>d. (d, boost d)) docs" call sep] assms(2) unfolding docs by auto
  have "\<forall>w \<in> seen_words ?H. no_digits w" using assms(3) by (auto simp: seen_words_def hits_of_def doc_hits_iff)
  from build_ok [OF b'(3) this assms(4), of mlog] obtain idx h' where idx: "builder_build mlog b' h = Inr (idx, h')"
      "index_ok idx" "searchable idx h'" "\<forall>w f. f \<in> field_set b' \<longrightarrow> docs_in idx w f = {d. (d, f, w) \<in> ?H}"
      "set (i_fields idx) = field_set b'" "i_pipeline idx = searchPipeline b'"
      "\<forall>r. map_of (i_fieldVectors idx) r \<noteq> None \<longleftrightarrow> r \<in> ?R"
    by blast
  have same: "field_set b' = field_set b" "searchPipeline b' = searchPipeline b"
    using b'(2) field_set_same by (auto simp: same_config_def)
  have "docs_in idx w f = {doc_ref b doc |doc. doc \<in> set docs \<and> has_term call sep b doc f w}" if "f \<in> field_set b" for f w
    using idx(4) that unfolding same by (auto simp: hits_of_def doc_hits_iff)
  moreover have "map_of (i_fieldVectors idx) r \<noteq> None \<longleftrightarrow> (\<exists>doc \<in> set docs. \<exists>f \<in> field_set b. r = ref_of f (doc_ref b doc))" for r
    using idx(7) by (auto simp: refs_for_def)
  ultimately show ?thesis using b'(1) idx(1-3,5,6) unfolding same by blast
qed

section \<open>Saving and loading an index\<close>

lemma map_of_load:
  "map_of (foldl (\<lambda>kvs (k, v). AList.update k (f v) kvs) [] (map (\<lambda>k. (k, g k)) ks)) x = (if x \<in> set ks then Some (f (g x)) else None)"
  using map_of_foldl_update [of "\<lambda>k. f (g k)" "[]" ks x] by (simp add: foldl_map)

text \<open>What a query answers depends on the postings, the fields that have vectors, and the pipeline only.\<close>
lemma answers_cong:
  assumes "map_of (i_invertedIndex idx') = map_of (i_invertedIndex idx)" "i_fields idx' = i_fields idx" "i_pipeline idx' = i_pipeline idx"
    "\<And>r. map_of (i_fieldVectors idx') r \<noteq> None \<longleftrightarrow> map_of (i_fieldVectors idx) r \<noteq> None"
  shows "answers call idx' q = answers call idx q" "docs_in idx' = docs_in idx" "words idx' = words idx"
proof -
  show docs: "docs_in idx' = docs_in idx" by (intro ext) (simp add: docs_in_def assms(1))
  show ws: "words idx' = words idx" by (simp add: words_def assms(1))
  have "hits idx' c t = hits idx c t" for c t by (simp add: hits_def ws)
  moreover have "clause_terms call idx' c = clause_terms call idx c" for c by (simp add: clause_terms_def assms(3))
  moreover have "all_docs idx' = all_docs idx" unfolding all_docs_def assms(2,4) ..
  ultimately show "answers call idx' q = answers call idx q" by (simp add: answers_def clause_docs_def docs)
qed

text \<open>C24. An index survives serialisation: loading what \<open>toJSON\<close> gives for an index that fits together, with terms
  without digits and a pipeline of registered functions, gives an index with the same postings, vectors,
  fields and pipeline, prints no warning, builds a token set that can be searched, and every query has the
  same answers on it.\<close>
theorem index_roundtrip:
  assumes ok: "index_ok idx" and digits: "\<forall>w \<in> words idx. no_digits w" and reg: "list_all (registered R) (i_pipeline idx)" and h: "heap_ok h"
  shows "\<exists>idx' h'. Index_load R (Index_toJSON R idx) h = Inr (R, idx', h') \<and> index_ok idx' \<and> searchable idx' h' \<and>
    i_fields idx' = i_fields idx \<and> i_pipeline idx' = i_pipeline idx \<and> map_of (i_invertedIndex idx') = map_of (i_invertedIndex idx) \<and>
    (\<forall>r. map_option elements (map_of (i_fieldVectors idx') r) = map_option elements (map_of (i_fieldVectors idx) r)) \<and>
    (\<forall>q. answers call idx' q = answers call idx q)"
proof -
  let ?ws = "sort (js_keys (i_invertedIndex idx))" and ?ser = "Index_toJSON R idx"
  have ws: "set ?ws = words idx" by (rule set_eqI) (simp only: set_sort in_js_keys words_def mem_Collect_eq)
  then have "list_all (list_all (\<lambda>c. \<not> is_digit c)) ?ws" using digits by (simp add: list_all_iff no_digits_def)
  from builder_word_set [OF sorted_sort this h] obtain b h1 b' h' where
    b: "insert_all ?ws (fst (new_Builder h)) (snd (new_Builder h)) = Inr (b, h1)" "Builder_finish b h1 = (b', h')"
      "word_set h' (root b') (words idx)" unfolding ws by blast
  define idx' where "idx' = \<lparr>i_invertedIndex = foldl (\<lambda>o' (t, p). AList.update t p o') [] (s_invertedIndex ?ser),
      i_fieldVectors = foldl (\<lambda>vs (ref, els). AList.update ref (new_Vector els) vs) [] (s_fieldVectors ?ser),
      i_tokenSet = root b', i_fields = i_fields idx, i_pipeline = i_pipeline idx\<rparr>"
  have pl: "s_pipeline ?ser = map Some (map (\<lambda>f. the (map_of (labels R) f)) (i_pipeline idx))"
    using pipeline_labels [OF reg] by (simp add: Index_toJSON_def)
  have load: "Index_load R ?ser h = Inr (R, idx', h')"
    using b(1,2) pipeline_loads [OF reg] unfolding Index_load_def pl
    by (simp add: case_prod_unfold Let_def idx'_def label_text_def o_def) (simp add: Index_toJSON_def o_def)
  have inv: "map_of (i_invertedIndex idx') = map_of (i_invertedIndex idx)"
  proof
    show "map_of (i_invertedIndex idx') x = map_of (i_invertedIndex idx) x" for x
      using map_of_load [of "\<lambda>p. p" "\<lambda>t. the (map_of (i_invertedIndex idx) t)" ?ws x] in_js_keys [of x "i_invertedIndex idx"]
      by (auto simp: idx'_def Index_toJSON_def simp del: set_js_keys)
  qed
  have vecs: "map_of (i_fieldVectors idx') r = map_option (\<lambda>v. new_Vector (elements v)) (map_of (i_fieldVectors idx) r)" for r
    using map_of_load [of new_Vector _ "js_keys (i_fieldVectors idx)" r] in_js_keys [of r "i_fieldVectors idx"]
    by (auto simp: idx'_def Index_toJSON_def vec_toJSON_def simp del: set_js_keys)
  have same: "i_fields idx' = i_fields idx" "i_pipeline idx' = i_pipeline idx"
      "\<And>r. map_of (i_fieldVectors idx') r \<noteq> None \<longleftrightarrow> map_of (i_fieldVectors idx) r \<noteq> None"
    by (simp_all add: idx'_def [THEN arg_cong [of _ _ i_fields]] idx'_def [THEN arg_cong [of _ _ i_pipeline]] vecs)
  note cong = answers_cong [OF inv same]
  have "index_ok idx'" using ok unfolding index_ok_def inv same cong(2) .
  moreover have "searchable idx' h'" using b(3) unfolding searchable_def cong(3) by (simp add: idx'_def)
  moreover have "map_option elements (map_of (i_fieldVectors idx') r) = map_option elements (map_of (i_fieldVectors idx) r)" for r
    by (simp add: vecs option.map_comp o_def new_Vector_def)
  ultimately show ?thesis using load inv same(1,2) cong(1) by blast
qed

section \<open>The default pipelines\<close>

text \<open>The term that \<open>lunr()\<close> indexes for a word of a text, and the one it looks up for a word of a query.\<close>
definition index_term :: "string \<Rightarrow> string option" where
  "index_term w = (let t = trim_nonword w in if t \<in> set stop_words then None else Some (porterStemmer t))"

lemma default_run_one:
  "default.run_one [Pf_trimmer, Pf_stopWordFilter, Pf_stemmer] t =
     (case index_term (tok_str t) of None \<Rightarrow> [] | Some w \<Rightarrow> [t\<lparr>tok_str := w\<rparr>])"
  by (simp add: trimmer_def stopWordFilter_spec stemmer_def Token_update_def index_term_def result_tokens_def Let_def)

lemma default_run:
  "map Token_toString (Pipeline_run default_call [Pf_trimmer, Pf_stopWordFilter, Pf_stemmer] ts) =
     List.map_filter index_term (map tok_str ts)"
  unfolding default.run_concat default_run_one
  by (induction ts) (simp_all add: Token_toString_def List.map_filter_simps split: option.split)

lemma default_runString: "Pipeline_runString default_call [Pf_stemmer] w md = [porterStemmer w]"
  unfolding Pipeline_runString_def default.run_concat
  by (simp add: stemmer_def Token_update_def Token_toString_def new_Token_def result_tokens_def)

lemma default_builder_simps [simp]:
  "b_pipeline default_builder = [Pf_trimmer, Pf_stopWordFilter, Pf_stemmer]" "searchPipeline default_builder = [Pf_stemmer]"
  "b_documents default_builder = []" "b_invertedIndex default_builder = []" "fieldTermFrequencies default_builder = []"
  "fieldLengths default_builder = []" "b_fields default_builder = []"
  by (simp_all add: default_builder_def new_builder_def Pipeline_add_stack)

lemma clone_fields: "clone (Some [(''fields'', Arr vs)]) = Inr (Some [(''fields'', Arr vs)])"
proof -
  have "js_keys [(''fields'', Arr vs)] = [''fields'']" by (simp add: js_keys_def array_index_def is_digit_def)
  then show ?thesis by (simp add: clone_def)
qed

text \<open>The terms of a field that is a text.\<close>
lemma default_doc_terms:
  assumes "b_pipeline b = [Pf_trimmer, Pf_stopWordFilter, Pf_stemmer]"
    and "field_value (the (map_of (b_fields b) f)) f doc = Inr (Str s)"
  shows "doc_terms default_call sep b doc f = Inr (List.map_filter index_term (words_of sep (toLowerCase s)))"
proof -
  have "tokens_placed (toLowerCase s) []" by (simp add: tokens_placed_def)
  from slice_loop_spec [OF clone_fields, of 0 0 "toLowerCase s" "[]" sep "[Str f]", OF _ _ this]
  obtain ts where "slice_loop sep (Some [(''fields'', Arr [Str f])]) (toLowerCase s) 0 0 [] = Inr ts"
      "map tok_str ts = words_of sep (toLowerCase s)" by auto
  then have "tokenizer sep (Str s) (Some [(''fields'', Arr [Str f])]) = Inr ts" "map tok_str ts = words_of sep (toLowerCase s)"
    by (simp_all add: tokenizer_def js_toString_def)
  then show ?thesis using assms by (simp add: doc_terms_def default_run del: Pipeline_run.simps)
qed

text \<open>The documents a plain word asks for.\<close>
lemma plain_clause_docs:
  assumes "i_pipeline idx = [Pf_stemmer]" "CHR ''*'' \<notin> set w" "w \<noteq> []"
  shows "clause_docs default_call idx (word_clause flds w) = (\<Union>f \<in> set flds. docs_in idx (porterStemmer (toLowerCase w)) f)"
proof -
  let ?t = "porterStemmer (toLowerCase w)"
  have "toLowerCase w \<noteq> []" using assms(3) by (simp add: toLowerCase_def)
  then have t: "?t \<noteq> []" "CHR ''*'' \<notin> set ?t"
    using shortens_stemmer [of "toLowerCase w"] stem_no_star [of "toLowerCase w"] assms(2) by (auto simp: shortens_def)
  have terms: "clause_terms default_call idx (word_clause flds w) = [?t]"
    using assms(1,2) by (simp add: clause_terms_def word_clause_def default_runString)
  have "hits idx (word_clause flds w) ?t = {?t} \<inter> words idx"
    using t glob_plain by (auto simp: hits_def clause_matches_def word_clause_def)
  moreover have "docs_in idx ?t f = {}" if "?t \<notin> words idx" for f using that by (simp add: docs_in_def words_def)
  ultimately show ?thesis unfolding clause_docs_def terms by (auto simp: word_clause_def)
qed

lemma plain_answers:
  assumes "i_pipeline idx = [Pf_stemmer]" "\<forall>w \<in> set ws. CHR ''*'' \<notin> set w \<and> w \<noteq> []" "ws \<noteq> []"
  shows "answers default_call idx \<lparr>clauses = map (word_clause flds) ws, allFields = fs\<rparr> =
    (\<Union>w \<in> set ws. \<Union>f \<in> set flds. docs_in idx (porterStemmer (toLowerCase w)) f)"
proof -
  have "isNegated \<lparr>clauses = map (word_clause flds) ws, allFields = fs\<rparr> = False"
    using assms(3) by (cases ws) (simp_all add: isNegated_def word_clause_def)
  moreover have "clause_docs default_call idx (word_clause flds w) = (\<Union>f \<in> set flds. docs_in idx (porterStemmer (toLowerCase w)) f)"
    if "w \<in> set ws" for w using plain_clause_docs assms that by blast
  moreover have "c_presence (word_clause flds w) = OPTIONAL" for w by (simp add: word_clause_def)
  ultimately show ?thesis by (auto simp: answers_def)
qed

section \<open>Indexing pages\<close>

text \<open>The builder of the documentation search: pages with a title and a text, known by their location.\<close>
definition pages_builder :: "pl_fun builder" where
  "pages_builder = default_builder\<lparr>b_fields := [(''title'', no_attrs), (''text'', no_attrs)], b_ref := ''location''\<rparr>"

definition sample_doc :: jsval where
  "sample_doc = Obj [(''location'', Str ''intro/''), (''title'', Str ''Home''), (''text'', Str ''Restore the files'')]"

lemma sample_fresh: "fresh_builder pages_builder"
  by (simp add: fresh_builder_def pages_builder_def joiner_def)

lemma sample_fields: "field_set pages_builder = {''title'', ''text''}"
  by (auto simp: field_set_def pages_builder_def)

lemma sample_terms:
  "doc_terms default_call separator pages_builder sample_doc ''title'' = Inr [''home'']"
  "doc_terms default_call separator pages_builder sample_doc ''text'' = Inr [''restor'', ''file'']"
proof -
  have f: "field_value (the (map_of (b_fields pages_builder) ''title'')) ''title'' sample_doc = Inr (Str ''Home'')"
    "field_value (the (map_of (b_fields pages_builder) ''text'')) ''text'' sample_doc = Inr (Str ''Restore the files'')"
    by (simp_all add: field_value_def pages_builder_def sample_doc_def no_attrs_def obj_get_def)
  have p: "b_pipeline pages_builder = [Pf_trimmer, Pf_stopWordFilter, Pf_stemmer]" by (simp add: pages_builder_def)
  have w: "words_of separator (toLowerCase ''Home'') = [''home'']"
    "words_of separator (toLowerCase ''Restore the files'') = [''restore'', ''the'', ''files'']"
    by code_simp+
  have "index_term ''home'' = Some ''home''" "index_term ''restore'' = Some ''restor''" "index_term ''files'' = Some ''file''"
      "index_term ''the'' = None"
    by code_simp+
  then show "doc_terms default_call separator pages_builder sample_doc ''title'' = Inr [''home'']"
      "doc_terms default_call separator pages_builder sample_doc ''text'' = Inr [''restor'', ''file'']"
    unfolding default_doc_terms [OF p f(1)] default_doc_terms [OF p f(2)] w by (simp_all add: List.map_filter_def)
qed

lemma sample_ref: "get sample_doc (b_ref pages_builder) = Inr (Str ''intro/'')"
  by (simp add: sample_doc_def pages_builder_def obj_get_def)

lemma sample_addable:
  "addable default_call separator pages_builder sample_doc" "doc_ref pages_builder sample_doc = ''intro/''"
  "has_term default_call separator pages_builder sample_doc ''title'' w \<longleftrightarrow> w = ''home''"
  "has_term default_call separator pages_builder sample_doc ''text'' w \<longleftrightarrow> w = ''restor'' \<or> w = ''file''"
  by (simp_all add: addable_def sample_ref sample_fields sample_terms doc_ref_def has_term_def)

lemma sample_no_digits: "no_digits ''home''" "no_digits ''restor''" "no_digits ''file''"
  by code_simp+



text \<open>The small index itself.\<close>
lemma sample_index:
  obtains idx :: "pl_fun index" and h where "index_ok idx" "searchable idx h" "set (i_fields idx) = {''title'', ''text''}"
    "i_pipeline idx = [Pf_stemmer]" "\<forall>w \<in> words idx. no_digits w"
    "docs_in idx ''file'' ''text'' = {''intro/''}" "docs_in idx ''file'' ''title'' = {}"
proof -
  let ?H = "hits_of default_call separator pages_builder {sample_doc}"
  have addable: "\<forall>doc \<in> fst ` set [(sample_doc, None)]. addable default_call separator pages_builder doc" using sample_addable(1) by simp
  obtain b' where b': "same_config pages_builder b'" "builder_inv ?H (refs_for pages_builder {sample_doc}) b'"
    using add_docs_ok [OF fresh_inv [OF sample_fresh] addable] by auto
  have H: "(d, f, w) \<in> ?H \<longleftrightarrow> d = ''intro/'' \<and> f \<in> {''title'', ''text''} \<and> has_term default_call separator pages_builder sample_doc f w" for d f w
    by (simp add: hits_of_def doc_hits_iff sample_fields sample_addable(2))
  have "no_digits w" if "(d, f, w) \<in> ?H" for d f w using that sample_no_digits unfolding H by (auto simp: sample_addable(3,4))
  then have digits: "\<forall>w \<in> seen_words ?H. no_digits w" by (auto simp: seen_words_def)
  from build_ok [OF b'(2) digits heap_ok_empty, of id] obtain idx h' where idx: "index_ok idx" "searchable idx h'"
      "words idx = seen_words ?H" "set (i_fields idx) = field_set b'" "i_pipeline idx = searchPipeline b'"
      "\<forall>w f. f \<in> field_set b' \<longrightarrow> docs_in idx w f = {d. (d, f, w) \<in> ?H}"
    by blast
  have same: "field_set b' = {''title'', ''text''}" "searchPipeline b' = [Pf_stemmer]"
    using b'(1) by (simp_all only: field_set_same sample_fields) (simp add: same_config_def pages_builder_def)
  show thesis
  proof (rule that [OF idx(1,2)])
    show "set (i_fields idx) = {''title'', ''text''}" "i_pipeline idx = [Pf_stemmer]" by (simp_all only: idx(4,5) same)
    show "\<forall>w \<in> words idx. no_digits w" using digits by (simp only: idx(3))
    show "docs_in idx ''file'' ''text'' = {''intro/''}" using idx(6) [rule_format, of "''text''" "''file''"] by (simp add: same H sample_addable(4))
    show "docs_in idx ''file'' ''title'' = {}" using idx(6) [rule_format, of "''title''" "''file''"] by (simp add: same H sample_addable(3))
  qed
qed

text \<open>The query on the small index: the word \<open>files\<close> finds the page.\<close>
theorem query_answers_witness:
  "\<exists>(idx :: pl_fun index) h rs h'. Index_query id default_call idx
      \<lparr>clauses = [word_clause [''title'', ''text''] ''Files''], allFields = [''title'', ''text'']\<rparr> h = Some (Inr rs, h') \<and>
    map r_ref rs = [''intro/'']"
proof -
  let ?q = "\<lparr>clauses = [word_clause [''title'', ''text''] ''Files''], allFields = [''title'', ''text'']\<rparr>"
  obtain idx :: "pl_fun index" and h' where idx: "index_ok idx" "searchable idx h'" "set (i_fields idx) = {''title'', ''text''}"
      "i_pipeline idx = [Pf_stemmer]" "\<forall>w \<in> words idx. no_digits w"
      "docs_in idx ''file'' ''text'' = {''intro/''}" "docs_in idx ''file'' ''title'' = {}"
    by (rule sample_index)
  have stem: "porterStemmer (toLowerCase ''Files'') = ''file''" by code_simp
  have "\<forall>c \<in> set (clauses ?q). clause_ok default_call idx c"
    using idx(3) by (auto simp: clause_ok_def word_clause_def)
  from query_answers [OF idx(1,2) this, of id] obtain rs h'' where
    rs: "Index_query id default_call idx ?q h' = Some (Inr rs, h'')" "set (map r_ref rs) = answers default_call idx ?q"
      "distinct (map r_ref rs)" by blast
  have "answers default_call idx ?q = {''intro/''}"
    using plain_answers [OF idx(4), of "[''Files'']" "[''title'', ''text'']"] idx(6,7) by (simp add: stem)
  then have "map r_ref rs = [''intro/'']" using rs(2,3) by (cases "map r_ref rs"; cases "tl (map r_ref rs)") auto
  with rs(1) show ?thesis by (intro exI conjI)
qed

text \<open>Saving the small index and loading it again.\<close>
theorem index_roundtrip_witness:
  "\<exists>(idx :: pl_fun index) idx' h'. docs_in idx ''file'' ''text'' = {''intro/''} \<and>
    Index_load default_registry (Index_toJSON default_registry idx) empty_heap = Inr (default_registry, idx', h') \<and>
    searchable idx' h' \<and> map_of (i_invertedIndex idx') = map_of (i_invertedIndex idx)"
proof -
  obtain idx :: "pl_fun index" and h' where idx: "index_ok idx" "searchable idx h'" "set (i_fields idx) = {''title'', ''text''}"
      "i_pipeline idx = [Pf_stemmer]" "\<forall>w \<in> words idx. no_digits w"
      "docs_in idx ''file'' ''text'' = {''intro/''}" "docs_in idx ''file'' ''title'' = {}"
    by (rule sample_index)
  have "list_all (registered default_registry) (i_pipeline idx)"
    by (simp add: idx(4) default_registry_def registerFunction_def registered_def)
  from index_roundtrip [OF idx(1,5) this heap_ok_empty, of default_call] idx(6) show ?thesis by blast
qed

end
