(* ===== verification/Docs_Worker.thy ===== *)
theory Docs_Worker
  imports Lunr_Build Json
begin

text \<open>
  The worker of the documentation search (\<open>search/worker.js\<close>): it fetches the list of pages, loads the scripts
  it needs, builds or loads the index, and answers queries with pages.

  A step is a function on the worker's globals that also answers a value or an exception; what it does to
  the outside (console, requests, scripts, messages) is appended to \<open>out\<close>.  The same script runs in a web
  worker, where \<open>importScripts\<close> is a function, and in the page itself, where scripts are loaded one after
  the other by callbacks.

  Parameters of the environment: \<open>Math.log\<close> and \<open>Math.sqrt\<close>; what \<open>new RegExp(s)\<close> matches, asked for single
  characters only; what the language scripts, which are not part of the repository, do to a builder; and
  whether \<open>importScripts\<close> succeeds.  Functions those scripts add to a pipeline are outside the model.
\<close>

section \<open>State\<close>

datatype outcome =
    Log string
  | LogError string
  | Get string
  | LoadScript string
  | Import "string list"
  | Post jsval

record worker =
  has_import :: bool
  allowSearch :: bool
  w_index :: "pl_fun index option"
  documents :: "jsval obj"
  lang :: jsval
  data :: jsval
  tok_separator :: "char \<Rightarrow> bool"
  heap :: ts_heap
  registry_state :: "pl_fun registry"
  pending :: "string list"
  out :: "outcome list"

record environment =
  e_log :: "rat \<Rightarrow> rat"
  e_sqrt :: "rat \<Rightarrow> rat"
  e_regexp :: "string \<Rightarrow> (char \<Rightarrow> bool) jsr"
  e_plugin :: "string \<Rightarrow> (pl_fun builder \<Rightarrow> pl_fun builder jsr) option"
  e_multi :: "jsval list \<Rightarrow> pl_fun builder \<Rightarrow> pl_fun builder jsr"
  e_import :: "string list \<Rightarrow> unit jsr"

text \<open>The globals when the scripts have been read, \<open>lunr.tokenizer.separator\<close> included.\<close>
definition new_worker :: "bool \<Rightarrow> worker" where
  "new_worker isWorker = \<lparr>has_import = isWorker, allowSearch = False, w_index = None, documents = [], lang = Arr [Str ''en''],
     data = Undef, tok_separator = separator, heap = empty_heap, registry_state = default_registry, pending = [], out = []\<rparr>"

definition base_path :: "worker \<Rightarrow> string" where
  "base_path s = (if has_import s then ''.'' else ''/search/'')"

section \<open>Steps\<close>

type_synonym 'a act = "worker \<Rightarrow> 'a jsr \<times> worker"

definition lift_act :: "'a jsr \<Rightarrow> 'a act" where
  "lift_act r s = (r, s)"

definition bind_act :: "'a act \<Rightarrow> ('a \<Rightarrow> 'b act) \<Rightarrow> 'b act" where
  "bind_act m f s = (case m s of (Inl e, s') \<Rightarrow> (Inl e, s') | (Inr a, s') \<Rightarrow> f a s')"

definition modify :: "(worker \<Rightarrow> worker) \<Rightarrow> unit act" where
  "modify g s = (Inr (), g s)"

definition emits :: "outcome \<Rightarrow> unit act" where
  "emits x = modify (\<lambda>s. s\<lparr>out := out s @ [x]\<rparr>)"

section \<open>Loading scripts\<close>

definition getScript :: "string \<Rightarrow> unit act" where
  "getScript script =
     bind_act (emits (Log (''Loading script: '' @ script))) (\<lambda>_ s. emits (LoadScript (base_path s @ script)) s)"

text \<open>Without \<open>importScripts\<close> the scripts still to load are remembered in \<open>pending\<close>.\<close>
definition getScriptsInOrder :: "string list \<Rightarrow> unit act \<Rightarrow> unit act" where
  "getScriptsInOrder scripts callback =
     (case scripts of
        [] \<Rightarrow> callback
      | script # rest \<Rightarrow> bind_act (modify (\<lambda>s. s\<lparr>pending := rest\<rparr>)) (\<lambda>_. getScript script))"

definition loadScripts :: "environment \<Rightarrow> string list \<Rightarrow> unit act \<Rightarrow> unit act" where
  "loadScripts env urls callback s =
     (if has_import s
      then bind_act (emits (Import urls)) (\<lambda>_. bind_act (lift_act (e_import env urls)) (\<lambda>_. callback)) s
      else getScriptsInOrder urls callback s)"

text \<open>\<open>data.config && data.config.k && data.config.k.length\<close>, and then \<open>data.config.k\<close>\<close>
definition config_option :: "jsval \<Rightarrow> string \<Rightarrow> jsval option jsr" where
  "config_option d k =
     bindr (get d ''config'') (\<lambda>c.
       if \<not> truthy c then Inr None
       else bindr (get c k) (\<lambda>v.
         if \<not> truthy v then Inr None
         else mapr (\<lambda>n. if truthy n then Some v else None) (get v ''length'')))"

fun lang_includes :: "jsval \<Rightarrow> string \<Rightarrow> bool" where
  "lang_includes (Arr vs) x = (Str x \<in> set vs)"
| "lang_includes (Str s) x = sublist x s"
| "lang_includes _ x = False"

text \<open>\<open>v != 'en'\<close>\<close>
fun not_english :: "jsval \<Rightarrow> bool" where
  "not_english (Str s) = (s \<noteq> ''en'')"
| "not_english (Arr vs) = (to_str (Arr vs) \<noteq> ''en'')"
| "not_english v = True"

text \<open>\<open>['lunr', v, 'js'].join('.')\<close>\<close>
definition lang_script :: "jsval \<Rightarrow> string" where
  "lang_script v = join_with ''.'' [''lunr'', if nullish v then [] else to_str v, ''js'']"

text \<open>\<open>scriptsToLoad\<close>; a list of languages is an array, or a string read as its characters.\<close>
definition scripts_for :: "jsval \<Rightarrow> string list jsr" where
  "scripts_for l =
     mapr (\<lambda>ls.
       ''lunr.js'' #
       (if 1 < length ls \<or> take 1 ls \<noteq> [Str ''en'']
        then ''lunr.stemmer.support.js'' # (if 1 < length ls then [''lunr.multi.js''] else []) @
          (if lang_includes l ''ja'' \<or> lang_includes l ''jp'' then [''tinyseg.js''] else []) @
          map lang_script (filter not_english ls)
        else [])) (iterate l)"

section \<open>Building the index\<close>

text \<open>\<open>data.docs[i]\<close> for \<open>i < data.docs.length\<close>\<close>
fun indexed :: "jsval \<Rightarrow> jsval list jsr" where
  "indexed Undef = Inl type_error"
| "indexed Null = Inl type_error"
| "indexed (Arr vs) = Inr vs"
| "indexed (Str s) = Inr (map (\<lambda>c. Str [c]) s)"
| "indexed _ = Inr []"

text \<open>The loop over the pages: each is added to the builder and kept under its location.\<close>
fun add_loop :: "(char \<Rightarrow> bool) \<Rightarrow> jsval list \<Rightarrow> pl_fun builder \<Rightarrow> jsval obj \<Rightarrow> pl_fun builder jsr \<times> jsval obj" where
  "add_loop sep [] b ds = (Inr b, ds)"
| "add_loop sep (doc # docs) b ds =
     (case bindr (builder_add default_call sep doc None b) (\<lambda>b'. mapr (Pair b') (get doc ''location'')) of
        Inl e \<Rightarrow> (Inl e, ds)
      | Inr (b', l) \<Rightarrow> add_loop sep docs b' (obj_assign (to_str l) doc ds))"

definition use_language :: "environment \<Rightarrow> jsval list \<Rightarrow> pl_fun builder \<Rightarrow> pl_fun builder jsr" where
  "use_language env ls b =
     (case (if length ls = 1 \<and> ls \<noteq> [Str ''en''] then e_plugin env (to_str (hd ls)) else None) of
        Some plugin \<Rightarrow> builder_use plugin b
      | None \<Rightarrow> if 1 < length ls then builder_use (e_multi env ls) b else Inr b)"

text \<open>The function given to \<open>lunr\<close>: what it does to the builder and to \<open>documents\<close>.\<close>
definition configure ::
  "environment \<Rightarrow> (char \<Rightarrow> bool) \<Rightarrow> jsval list \<Rightarrow> jsval \<Rightarrow> pl_fun builder \<Rightarrow> jsval obj \<Rightarrow> pl_fun builder jsr \<times> jsval obj" where
  "configure env sep ls docs b ds =
     (case bindr (use_language env ls b) (\<lambda>b1.
           bindr (builder_field ''title'' no_attrs b1) (\<lambda>b2.
           bindr (builder_field ''text'' no_attrs b2) (\<lambda>b3.
           mapr (Pair (builder_ref ''location'' b3)) (indexed docs)))) of
        Inl e \<Rightarrow> (Inl e, ds)
      | Inr (b4, dl) \<Rightarrow> add_loop sep dl b4 ds)"

definition build_index :: "environment \<Rightarrow> unit act" where
  "build_index env s =
     (case bindr (iterate (lang s)) (\<lambda>ls. mapr (Pair ls) (get (data s) ''docs'')) of
        Inl e \<Rightarrow> (Inl e, s)
      | Inr (ls, docs) \<Rightarrow>
          let config = (\<lambda>b. configure env (tok_separator s) ls docs b (documents s));
              s1 = s\<lparr>documents := snd (config default_builder)\<rparr>
          in case lunr (e_log env) (\<lambda>b. fst (config b)) (heap s) of
               Inl e \<Rightarrow> (Inl e, s1)
             | Inr (idx, h) \<Rightarrow> emits (Log ''Lunr index built, search ready'') (s1\<lparr>w_index := Some idx, heap := h\<rparr>))"

text \<open>A serialised index, read in the shape \<open>Index.toJSON\<close> gives it; other shapes are an exception here.\<close>
fun members :: "jsval \<Rightarrow> (string \<times> jsval) list jsr" where
  "members (Obj kvs) = Inr kvs"
| "members _ = Inl type_error"

definition each_member :: "(jsval \<Rightarrow> 'a jsr) \<Rightarrow> jsval \<Rightarrow> (string \<times> 'a) list jsr" where
  "each_member f v = bindr (members v) (traverse (\<lambda>(k, w). mapr (Pair k) (f w)))"

fun as_number :: "jsval \<Rightarrow> rat jsr" where
  "as_number (Num x) = Inr x"
| "as_number _ = Inl type_error"

definition posting_of :: "jsval \<Rightarrow> posting jsr" where
  "posting_of v =
     bindr (members v) (\<lambda>kvs.
     bindr (bindr (get v ''_index'') as_number) (\<lambda>i.
     mapr (\<lambda>fs. \<lparr>p_index = nat \<lfloor>i\<rfloor>, p_fields = fs\<rparr>)
       (each_member (each_member (each_member array_of)) (Obj (filter (\<lambda>(k, _). k \<noteq> ''_index'') kvs)))))"

text \<open>An array of pairs.\<close>
definition pairs_of :: "(jsval \<Rightarrow> 'a jsr) \<Rightarrow> jsval \<Rightarrow> (string \<times> 'a) list jsr" where
  "pairs_of f v =
     bindr (array_of v) (traverse (\<lambda>p. bindr (array_of p) (\<lambda>xs.
       case xs of [Str k, w] \<Rightarrow> mapr (Pair k) (f w) | _ \<Rightarrow> Inl type_error)))"

definition strings_of :: "jsval \<Rightarrow> string list jsr" where
  "strings_of v = bindr (array_of v) (traverse (\<lambda>x. case x of Str w \<Rightarrow> Inr w | _ \<Rightarrow> Inl type_error))"

definition serialized_of :: "jsval \<Rightarrow> serialized jsr" where
  "serialized_of v =
     bindr (get v ''version'') (\<lambda>version.
     bindr (bindr (get v ''fields'') strings_of) (\<lambda>fs.
     bindr (bindr (get v ''fieldVectors'') (pairs_of (\<lambda>w. bindr (array_of w) (traverse as_number)))) (\<lambda>vs.
     bindr (bindr (get v ''invertedIndex'') (pairs_of posting_of)) (\<lambda>ps.
     mapr (\<lambda>pl. \<lparr>s_version = to_str version, s_fields = fs, s_fieldVectors = vs, s_invertedIndex = ps, s_pipeline = map Some pl\<rparr>)
       (bindr (get v ''pipeline'') strings_of)))))"

text \<open>\<open>documents[doc.location] = doc\<close> for every page\<close>
fun keep_docs :: "jsval list \<Rightarrow> jsval obj \<Rightarrow> unit jsr \<times> jsval obj" where
  "keep_docs [] ds = (Inr (), ds)"
| "keep_docs (doc # docs) ds =
     (case get doc ''location'' of Inl e \<Rightarrow> (Inl e, ds) | Inr l \<Rightarrow> keep_docs docs (obj_assign (to_str l) doc ds))"

definition load_index :: "jsval \<Rightarrow> unit act" where
  "load_index ix s =
     (case bindr (serialized_of ix) (\<lambda>ser. Index_load (registry_state s) ser (heap s)) of
        Inl e \<Rightarrow> (Inl e, s)
      | Inr (R, idx, h) \<Rightarrow>
          let s1 = s\<lparr>w_index := Some idx, registry_state := R, heap := h\<rparr> in
          (case bindr (get (data s) ''docs'') array_of of
             Inl e \<Rightarrow> (Inl e, s1)
           | Inr docs \<Rightarrow>
               (case keep_docs docs (documents s1) of
                  (Inl e, ds) \<Rightarrow> (Inl e, s1\<lparr>documents := ds\<rparr>)
                | (Inr _, ds) \<Rightarrow> emits (Log ''Lunr pre-built index loaded, search ready'') (s1\<lparr>documents := ds\<rparr>))))"

definition set_separator :: "environment \<Rightarrow> unit act" where
  "set_separator env s =
     (case config_option (data s) ''separator'' of
        Inl e \<Rightarrow> (Inl e, s)
      | Inr None \<Rightarrow> (Inr (), s)
      | Inr (Some v) \<Rightarrow>
          (case e_regexp env (to_str v) of Inl e \<Rightarrow> (Inl e, s) | Inr p \<Rightarrow> (Inr (), s\<lparr>tok_separator := p\<rparr>)))"

definition onScriptsLoaded :: "environment \<Rightarrow> unit act" where
  "onScriptsLoaded env =
     bind_act (emits (Log ''All search scripts loaded, building Lunr index...'')) (\<lambda>_.
     bind_act (set_separator env) (\<lambda>_.
     bind_act (\<lambda>s. (get (data s) ''index'', s)) (\<lambda>ix.
     bind_act (if truthy ix then load_index ix else build_index env) (\<lambda>_.
     bind_act (modify (\<lambda>s. s\<lparr>allowSearch := True\<rparr>)) (\<lambda>_.
     bind_act (\<lambda>s. (get (data s) ''config'', s)) (\<lambda>c.
     bind_act (emits (Post (Obj [(''config'', c)]))) (\<lambda>_.
     \<lambda>s. emits (Post (Obj [(''allowSearch'', Bool (allowSearch s))])) s)))))))"

text \<open>A script has arrived (or not) in the page that loads them one after the other.\<close>
definition script_loaded :: "environment \<Rightarrow> unit act" where
  "script_loaded env s = getScriptsInOrder (pending s) (onScriptsLoaded env) s"

definition script_failed :: "string \<Rightarrow> unit act" where
  "script_failed err = emits (Log (''Error: '' @ err))"

definition syntax_error :: js_error where
  "syntax_error = Exn ''SyntaxError'' ''JSON.parse''"

definition onJSONLoaded :: "environment \<Rightarrow> string \<Rightarrow> unit act" where
  "onJSONLoaded env responseText =
     bind_act (lift_act (case JSON_parse responseText of None \<Rightarrow> Inl syntax_error | Some d \<Rightarrow> Inr d)) (\<lambda>d.
     bind_act (modify (\<lambda>s. s\<lparr>data := d\<rparr>)) (\<lambda>_.
     bind_act (lift_act (config_option d ''lang'')) (\<lambda>l.
     bind_act (modify (\<lambda>s. case l of None \<Rightarrow> s | Some v \<Rightarrow> s\<lparr>lang := v\<rparr>)) (\<lambda>_.
     bind_act (\<lambda>s. (scripts_for (lang s), s)) (\<lambda>scriptsToLoad.
     loadScripts env scriptsToLoad (onScriptsLoaded env))))))"

definition init :: "unit act" where
  "init s = emits (Get (if has_import s then ''search_index.json'' else base_path s @ ''/search_index.json'')) s"

section \<open>Searching\<close>

text \<open>\<open>text.substring(0, 200)\<close>\<close>
fun first_200 :: "jsval \<Rightarrow> string jsr" where
  "first_200 (Str s) = Inr (take 200 s)"
| "first_200 _ = Inl type_error"

fun set_summary :: "string \<Rightarrow> jsval \<Rightarrow> jsval" where
  "set_summary t (Obj kvs) = Obj (obj_assign ''summary'' (Str t) kvs)"
| "set_summary t v = v"

text \<open>The loop over the results: the page of each, with a summary written into it.\<close>
fun result_docs :: "string list \<Rightarrow> jsval obj \<Rightarrow> jsval list jsr \<times> jsval obj" where
  "result_docs [] ds = (Inr [], ds)"
| "result_docs (ref # refs) ds =
     (let doc = obj_get ds ref in
      case bindr (get doc ''text'') first_200 of
        Inl e \<Rightarrow> (Inl e, ds)
      | Inr t \<Rightarrow>
          let doc' = set_summary t doc in
          case result_docs refs (AList.update ref doc' ds) of
            (Inl e, ds') \<Rightarrow> (Inl e, ds')
          | (Inr docs, ds') \<Rightarrow> (Inr (doc' # docs), ds'))"

text \<open>\<open>None\<close> if the search does not end.\<close>
definition search :: "environment \<Rightarrow> string \<Rightarrow> worker \<Rightarrow> (jsval jsr \<times> worker) option" where
  "search env query s =
     (if \<not> allowSearch s
      then Some (bind_act (emits (LogError ''Assets for search still loading'')) (\<lambda>_. lift_act (Inr Undef)) s)
      else
        (case w_index s of
           None \<Rightarrow> Some (Inl type_error, s)
         | Some idx \<Rightarrow>
             (case Index_search (e_sqrt env) default_call separator idx query (heap s) of
                None \<Rightarrow> None
              | Some (Inl e, h) \<Rightarrow> Some (Inl e, s\<lparr>heap := h\<rparr>)
              | Some (Inr results, h) \<Rightarrow>
                  (case result_docs (map r_ref results) (documents s) of
                     (r, ds) \<Rightarrow> Some (mapr Arr r, s\<lparr>heap := h, documents := ds\<rparr>)))))"

definition onmessage :: "environment \<Rightarrow> jsval \<Rightarrow> worker \<Rightarrow> (unit jsr \<times> worker) option" where
  "onmessage env msg s =
     (case get msg ''init'' of
        Inl e \<Rightarrow> Some (Inl e, s)
      | Inr i \<Rightarrow>
          if truthy i then Some (init s)
          else
            (case get msg ''query'' of
               Inl e \<Rightarrow> Some (Inl e, s)
             | Inr q \<Rightarrow>
                 if truthy q
                 then map_option (\<lambda>(r, s'). bind_act (lift_act r) (\<lambda>v. emits (Post (Obj [(''results'', v)]))) s')
                        (search env (to_str q) s)
                 else Some (emits (LogError ''Worker - Unrecognized message: [object MessageEvent]'') s)))"

section \<open>Pages and their terms\<close>

definition page_str :: "string \<Rightarrow> jsval \<Rightarrow> string" where
  "page_str k doc = (case get doc k of Inr (Str s) \<Rightarrow> s | _ \<Rightarrow> [])"

abbreviation location_of :: "jsval \<Rightarrow> string" where
  "location_of \<equiv> page_str ''location''"

text \<open>A page as the documentation generator writes it.\<close>
definition is_page :: "jsval \<Rightarrow> bool" where
  "is_page doc \<longleftrightarrow> (case doc of Obj _ \<Rightarrow> True | _ \<Rightarrow> False) \<and>
     list_all (\<lambda>k. get doc k = Inr (Str (page_str k doc))) [''location'', ''title'', ''text''] \<and> location_of doc \<noteq> ''__proto__''"

definition text_terms :: "(char \<Rightarrow> bool) \<Rightarrow> string \<Rightarrow> string list" where
  "text_terms sep s = List.map_filter index_term (words_of sep (toLowerCase s))"

definition page_terms :: "(char \<Rightarrow> bool) \<Rightarrow> jsval \<Rightarrow> string set" where
  "page_terms sep doc = set (text_terms sep (page_str ''title'' doc)) \<union> set (text_terms sep (page_str ''text'' doc))"

text \<open>A page whose terms have no digits.\<close>
definition page_ok :: "(char \<Rightarrow> bool) \<Rightarrow> jsval \<Rightarrow> bool" where
  "page_ok sep doc \<longleftrightarrow> is_page doc \<and>
     list_all no_digits (text_terms sep (page_str ''title'' doc) @ text_terms sep (page_str ''text'' doc))"

text \<open>The locations of the pages a plain query asks for: those with the stem of one of its words, or all pages if
  it has no word.\<close>
definition wanted :: "(char \<Rightarrow> bool) \<Rightarrow> jsval list \<Rightarrow> string \<Rightarrow> string set" where
  "wanted sep docs q =
     location_of ` {doc \<in> set docs. words_of separator q = [] \<or>
       (\<exists>w \<in> set (words_of separator q). porterStemmer (toLowerCase w) \<in> page_terms sep doc)}"

lemma is_page_get: "is_page doc \<Longrightarrow> k \<in> {''location'', ''title'', ''text''} \<Longrightarrow> get doc k = Inr (Str (page_str k doc))"
  by (auto simp: is_page_def)

lemma pages_builder_simps [simp]:
  "b_pipeline pages_builder = [Pf_trimmer, Pf_stopWordFilter, Pf_stemmer]" "searchPipeline pages_builder = [Pf_stemmer]"
  "b_ref pages_builder = ''location''" "b_fields pages_builder = [(''title'', no_attrs), (''text'', no_attrs)]"
  by (simp_all add: pages_builder_def)

lemma page_doc_terms:
  assumes "is_page doc" "f \<in> {''title'', ''text''}"
  shows "doc_terms default_call sep pages_builder doc f = Inr (text_terms sep (page_str f doc))"
proof -
  have "field_value (the (map_of (b_fields pages_builder) f)) f doc = Inr (Str (page_str f doc))"
    using assms is_page_get [OF assms(1), of f] by (auto simp: field_value_def no_attrs_def)
  from default_doc_terms [OF _ this] show ?thesis by (simp add: text_terms_def)
qed

lemma page_facts:
  assumes "page_ok sep doc"
  shows "addable default_call sep pages_builder doc" "doc_ref pages_builder doc = location_of doc"
    and "f \<in> {''title'', ''text''} \<Longrightarrow> has_term default_call sep pages_builder doc f w \<longleftrightarrow> w \<in> set (text_terms sep (page_str f doc))"
    and "f \<in> {''title'', ''text''} \<Longrightarrow> has_term default_call sep pages_builder doc f w \<Longrightarrow> no_digits w"
proof -
  have p: "is_page doc" using assms by (simp add: page_ok_def)
  note terms = page_doc_terms [OF p]
  show "addable default_call sep pages_builder doc"
    using is_page_get [OF p, of "''location''"] by (auto simp: addable_def sample_fields terms)
  show "doc_ref pages_builder doc = location_of doc"
    using is_page_get [OF p, of "''location''"] by (simp add: doc_ref_def)
  show h: "has_term default_call sep pages_builder doc f w \<longleftrightarrow> w \<in> set (text_terms sep (page_str f doc))"
    if "f \<in> {''title'', ''text''}" using that by (simp add: has_term_def terms)
  show "no_digits w" if "f \<in> {''title'', ''text''}" "has_term default_call sep pages_builder doc f w"
    using that assms h by (auto simp: page_ok_def list_all_iff)
qed

section \<open>A worker that is ready\<close>

text \<open>An index of the pages.\<close>
definition index_of_pages :: "(char \<Rightarrow> bool) \<Rightarrow> jsval list \<Rightarrow> pl_fun index \<Rightarrow> ts_heap \<Rightarrow> bool" where
  "index_of_pages sep docs idx h \<longleftrightarrow> index_ok idx \<and> searchable idx h \<and> set (i_fields idx) = {''title'', ''text''} \<and>
     i_pipeline idx = [Pf_stemmer] \<and>
     (\<forall>f \<in> {''title'', ''text''}. \<forall>w. docs_in idx w f = location_of ` {doc \<in> set docs. w \<in> set (text_terms sep (page_str f doc))}) \<and>
     all_docs idx = location_of ` set docs"

text \<open>A page with its strings, and the same with its summary.\<close>
definition shows_page :: "jsval \<Rightarrow> jsval \<Rightarrow> bool" where
  "shows_page v doc \<longleftrightarrow> (\<exists>kvs. v = Obj kvs \<and> (\<forall>k \<in> {''location'', ''title'', ''text''}. obj_get kvs k = Str (page_str k doc)))"

definition has_summary :: "jsval \<Rightarrow> jsval \<Rightarrow> bool" where
  "has_summary v doc \<longleftrightarrow> get v ''summary'' = Inr (Str (take 200 (page_str ''text'' doc)))"

definition stored :: "jsval list \<Rightarrow> jsval obj \<Rightarrow> bool" where
  "stored docs ds \<longleftrightarrow> (\<forall>doc \<in> set docs. \<exists>v. map_of ds (location_of doc) = Some v \<and>
     (\<exists>d \<in> set docs. location_of d = location_of doc \<and> shows_page v d))"

definition ready :: "(char \<Rightarrow> bool) \<Rightarrow> jsval list \<Rightarrow> worker \<Rightarrow> bool" where
  "ready sep docs s \<longleftrightarrow> allowSearch s \<and> (\<exists>idx. w_index s = Some idx \<and> index_of_pages sep docs idx (heap s)) \<and> stored docs (documents s)"

lemma index_pages:
  assumes "list_all (page_ok sep) docs" "heap_ok h"
  shows "\<exists>b' idx h'. add_docs default_call sep (map (\<lambda>d. (d, None)) docs) pages_builder = Inr b' \<and>
    builder_build mlog b' h = Inr (idx, h') \<and> index_of_pages sep docs idx h'"
proof -
  have ok: "page_ok sep doc" if "doc \<in> set docs" for doc using assms(1) that by (simp add: list_all_iff)
  note facts = page_facts [OF ok]
  obtain b' idx h' where idx: "add_docs default_call sep (map (\<lambda>d. (d, None)) docs) pages_builder = Inr b'"
      "builder_build mlog b' h = Inr (idx, h')" "index_ok idx" "searchable idx h'" "set (i_fields idx) = {''title'', ''text''}"
      "i_pipeline idx = [Pf_stemmer]"
      "\<forall>f \<in> {''title'', ''text''}. \<forall>w. docs_in idx w f =
         {doc_ref pages_builder doc |doc. doc \<in> set docs \<and> has_term default_call sep pages_builder doc f w}"
      "\<forall>r. map_of (i_fieldVectors idx) r \<noteq> None \<longleftrightarrow> (\<exists>doc \<in> set docs. \<exists>f \<in> {''title'', ''text''}. r = ref_of f (doc_ref pages_builder doc))"
    using index_of_docs [OF sample_fresh, of docs default_call sep h "\<lambda>_. None" mlog] facts(1,4) assms(2)
    unfolding sample_fields by (auto simp del: not_None_eq)
  have "docs_in idx w f = location_of ` {doc \<in> set docs. w \<in> set (text_terms sep (page_str f doc))}" if "f \<in> {''title'', ''text''}" for f w
    using idx(7) that facts(2,3) by fastforce
  moreover have "all_docs idx = location_of ` set docs"
  proof -
    have "joiner \<notin> set f" if "f \<in> {''title'', ''text''}" for f using that by (auto simp: joiner_def)
    then show ?thesis
      using ref_of_inj unfolding all_docs_def idx(5) idx(8) [rule_format] by (force simp: facts(2))
  qed
  ultimately show ?thesis using idx unfolding index_of_pages_def by blast
qed

text \<open>The loop over the pages fills the builder and \<open>documents\<close>.\<close>
lemma add_docs_Cons:
  "add_docs call sep (x # docs) b = Inr b' \<longleftrightarrow>
     (\<exists>b1. builder_add call sep (fst x) (snd x) b = Inr b1 \<and> add_docs call sep docs b1 = Inr b')"
proof -
  have err: "foldl (\<lambda>r (doc, boost). bindr r (builder_add call sep doc boost)) (Inl e) docs = Inl e" for e
    by (induction docs) (simp_all add: split_def)
  show ?thesis by (cases "builder_add call sep (fst x) (snd x) b") (simp_all add: add_docs_def split_def err [unfolded split_def])
qed

lemma add_loop_ok:
  assumes "add_docs default_call sep (map (\<lambda>d. (d, None)) docs) b = Inr b'" "list_all is_page docs"
  shows "add_loop sep docs b ds = (Inr b', foldl (\<lambda>ds doc. obj_assign (location_of doc) doc ds) ds docs)"
  using assms
proof (induction docs arbitrary: b ds)
  case (Cons doc docs)
  obtain b1 where 1: "builder_add default_call sep doc None b = Inr b1"
      "add_docs default_call sep (map (\<lambda>d. (d, None)) docs) b1 = Inr b'"
    using Cons.prems(1) by (auto simp: add_docs_Cons)
  moreover have "get doc ''location'' = Inr (Str (location_of doc))" using Cons.prems(2) is_page_get by simp
  ultimately show ?case using Cons.IH [OF 1(2)] Cons.prems(2) by simp
qed (simp add: add_docs_def)

lemma keep_docs_ok:
  "list_all is_page docs \<Longrightarrow> keep_docs docs ds = (Inr (), foldl (\<lambda>ds doc. obj_assign (location_of doc) doc ds) ds docs)"
proof (induction docs arbitrary: ds)
  case (Cons doc docs)
  moreover have "get doc ''location'' = Inr (Str (location_of doc))" using Cons.prems is_page_get by simp
  ultimately show ?case by simp
qed simp

lemma shows_page_self: "is_page doc \<Longrightarrow> shows_page doc doc"
  using is_page_get [of doc] by (cases doc) (auto simp: shows_page_def is_page_def)

lemma kept_docs:
  assumes "list_all is_page docs"
  shows "map_of (foldl (\<lambda>ds doc. obj_assign (location_of doc) doc ds) ds docs) l =
    (case List.find (\<lambda>d. location_of d = l) (rev docs) of None \<Rightarrow> map_of ds l | Some d \<Rightarrow> Some d)"
  using assms
proof (induction docs rule: rev_induct)
  case (snoc doc docs)
  then have "location_of doc \<noteq> ''__proto__''" by (simp add: is_page_def)
  then show ?case using snoc by (simp add: obj_assign_def)
qed simp

lemma stored_after:
  assumes "list_all is_page docs"
  shows "stored docs (foldl (\<lambda>ds doc. obj_assign (location_of doc) doc ds) ds docs)"
  unfolding stored_def
proof
  fix doc assume doc: "doc \<in> set docs"
  obtain d where "List.find (\<lambda>d. location_of d = location_of doc) (rev docs) = Some d"
    using doc by (cases "List.find (\<lambda>d. location_of d = location_of doc) (rev docs)") (auto simp: find_None_iff)
  moreover from this have "d \<in> set docs" "location_of d = location_of doc" by (auto simp: find_Some_iff) (metis nth_mem set_rev length_rev)
  moreover from this have "shows_page d d" using assms shows_page_self by (simp add: list_all_iff)
  ultimately show "\<exists>v. map_of (foldl (\<lambda>ds doc. obj_assign (location_of doc) doc ds) ds docs) (location_of doc) = Some v \<and>
      (\<exists>d \<in> set docs. location_of d = location_of doc \<and> shows_page v d)"
    by (auto simp: kept_docs [OF assms])
qed

lemma configure_english:
  assumes "add_docs default_call sep (map (\<lambda>d. (d, None)) docs) pages_builder = Inr b'" "list_all is_page docs"
  shows "configure env sep [Str ''en''] (Arr docs) default_builder ds =
    (Inr b', foldl (\<lambda>ds doc. obj_assign (location_of doc) doc ds) ds docs)"
proof -
  have "builder_ref ''location'' (default_builder\<lparr>b_fields := [(''title'', no_attrs), (''text'', no_attrs)]\<rparr>) = pages_builder"
    by (simp add: builder_ref_def pages_builder_def)
  then show ?thesis
    using add_loop_ok [OF assms, of ds] by (simp add: configure_def use_language_def builder_field_def)
qed

lemma build_index_ready:
  assumes "lang s = Arr [Str ''en'']" "get (data s) ''docs'' = Inr (Arr docs)" "heap_ok (heap s)"
    and pages: "list_all (page_ok (tok_separator s)) docs"
  shows "\<exists>s'. build_index env s = (Inr (), s') \<and> ready (tok_separator s) docs (s'\<lparr>allowSearch := True\<rparr>) \<and> data s' = data s \<and>
    out s' = out s @ [Log ''Lunr index built, search ready''] \<and> tok_separator s' = tok_separator s"
proof -
  have p: "list_all is_page docs" using pages by (simp add: list_all_iff page_ok_def)
  obtain b' idx h' where idx: "add_docs default_call (tok_separator s) (map (\<lambda>d. (d, None)) docs) pages_builder = Inr b'"
      "builder_build (e_log env) b' (heap s) = Inr (idx, h')" "index_of_pages (tok_separator s) docs idx h'"
    using index_pages [OF pages assms(3), of "e_log env"] by blast
  show ?thesis
    using assms(1,2) idx(2,3) stored_after [OF p, of "documents s"]
    by (simp add: build_index_def configure_english [OF idx(1) p] lunr_def emits_def modify_def ready_def Let_def)
qed

text \<open>The data file of a site: an object with a configuration and pages, and no index built beforehand.\<close>
definition site_data :: "jsval \<Rightarrow> string \<Rightarrow> jsval list \<Rightarrow> jsval \<Rightarrow> bool" where
  "site_data config sp docs d \<longleftrightarrow> get d ''config'' = Inr config \<and> get d ''docs'' = Inr (Arr docs) \<and> get d ''index'' = Inr Undef \<and>
     truthy config \<and> get config ''lang'' = Inr (Arr [Str ''en'']) \<and> get config ''separator'' = Inr (Str sp) \<and> sp \<noteq> []"

lemma onScriptsLoaded_ready:
  assumes "site_data config sp docs (data s)" "lang s = Arr [Str ''en'']" "heap_ok (heap s)" "e_regexp env sp = Inr sep"
    and "list_all (page_ok sep) docs"
  shows "\<exists>s'. onScriptsLoaded env s = (Inr (), s') \<and> ready sep docs s' \<and>
    out s' = out s @ [Log ''All search scripts loaded, building Lunr index...'', Log ''Lunr index built, search ready'',
      Post (Obj [(''config'', config)]), Post (Obj [(''allowSearch'', Bool True)])]"
proof -
  define s1 where "s1 = s\<lparr>out := out s @ [Log ''All search scripts loaded, building Lunr index...''], tok_separator := sep\<rparr>"
  have d: "config_option (data s) ''separator'' = Inr (Some (Str sp))"
    using assms(1) by (simp add: config_option_def site_data_def)
  have "lang s1 = Arr [Str ''en'']" "get (data s1) ''docs'' = Inr (Arr docs)" "heap_ok (heap s1)" "list_all (page_ok (tok_separator s1)) docs"
    using assms by (simp_all add: s1_def site_data_def)
  from build_index_ready [OF this, of env] obtain s2 where s2: "build_index env s1 = (Inr (), s2)"
      "ready sep docs (s2\<lparr>allowSearch := True\<rparr>)" "data s2 = data s" "out s2 = out s1 @ [Log ''Lunr index built, search ready'']"
    by (auto simp: s1_def)
  have sep: "set_separator env (s\<lparr>out := out s @ [Log ''All search scripts loaded, building Lunr index...'']\<rparr>) = (Inr (), s1)"
    using d assms(4) by (simp add: set_separator_def s1_def)
  have get: "get (data s1) ''index'' = Inr Undef" "get (data s) ''config'' = Inr config"
    using assms(1) by (simp_all add: s1_def site_data_def)
  show ?thesis
    using s2 get sep by (simp add: onScriptsLoaded_def bind_act_def emits_def modify_def ready_def) (simp add: s1_def)
qed

lemma onJSONLoaded_ready:
  assumes "site_data config sp docs d" "jsonable d" "has_import s" "e_import env [''lunr.js''] = Inr ()" "heap_ok (heap s)"
    and "e_regexp env sp = Inr sep" "list_all (page_ok sep) docs"
  shows "\<exists>s'. onJSONLoaded env (json_text d) s = (Inr (), s') \<and> ready sep docs s' \<and>
    out s' = out s @ [Import [''lunr.js''], Log ''All search scripts loaded, building Lunr index...'',
      Log ''Lunr index built, search ready'', Post (Obj [(''config'', config)]), Post (Obj [(''allowSearch'', Bool True)])]"
proof -
  define s1 where "s1 = s\<lparr>data := d, lang := Arr [Str ''en''], out := out s @ [Import [''lunr.js'']]\<rparr>"
  have "config_option d ''lang'' = Inr (Some (Arr [Str ''en'']))" using assms(1) by (simp add: config_option_def site_data_def)
  moreover have "scripts_for (Arr [Str ''en'']) = Inr [''lunr.js'']" by (simp add: scripts_for_def)
  moreover have "JSON_parse (json_text d) = Some d" using assms(2) by (rule JSON_roundtrip)
  ultimately have "onJSONLoaded env (json_text d) s = onScriptsLoaded env s1"
    using assms(3,4) by (simp add: onJSONLoaded_def loadScripts_def bind_act_def lift_act_def emits_def modify_def s1_def)
  moreover have "site_data config sp docs (data s1)" "lang s1 = Arr [Str ''en'']" "heap_ok (heap s1)"
    using assms(1,5) by (simp_all add: s1_def)
  ultimately show ?thesis using onScriptsLoaded_ready [OF _ _ _ assms(6,7), of config s1] by (auto simp: s1_def)
qed

section \<open>Answers\<close>

lemma result_docs_ok:
  assumes "set refs \<subseteq> location_of ` set docs" "stored docs ds"
  shows "\<exists>vs ds'. result_docs refs ds = (Inr vs, ds') \<and> stored docs ds' \<and>
    list_all2 (\<lambda>ref v. \<exists>d \<in> set docs. location_of d = ref \<and> shows_page v d \<and> has_summary v d) refs vs"
  using assms
proof (induction refs arbitrary: ds)
  case (Cons ref refs)
  obtain doc where "doc \<in> set docs" "ref = location_of doc" using Cons.prems(1) by auto
  then obtain v d where v: "map_of ds ref = Some v" "d \<in> set docs" "location_of d = ref" "shows_page v d"
    using Cons.prems(2) unfolding stored_def by blast
  then obtain kvs where kvs: "v = Obj kvs" "\<forall>k \<in> {''location'', ''title'', ''text''}. obj_get kvs k = Str (page_str k d)"
    by (auto simp: shows_page_def)
  define v' where "v' = set_summary (take 200 (page_str ''text'' d)) v"
  have page: "shows_page v' d" "has_summary v' d"
    using kvs by (auto simp: v'_def shows_page_def has_summary_def obj_get_assign_same obj_get_assign_other)
  have "stored docs (AList.update ref v' ds)"
    using Cons.prems(2) v(2,3) page(1) unfolding stored_def by (auto simp: update_conv')
  from Cons.IH [OF _ this] Cons.prems(1) obtain vs ds' where
    vs: "result_docs refs (AList.update ref v' ds) = (Inr vs, ds')" "stored docs ds'"
      "list_all2 (\<lambda>ref v. \<exists>d \<in> set docs. location_of d = ref \<and> shows_page v d \<and> has_summary v d) refs vs" by auto
  have "obj_get ds ref = v" "get v ''text'' = Inr (Str (page_str ''text'' d))" using v(1) kvs by (simp_all add: obj_get_def)
  then have "result_docs (ref # refs) ds = (Inr (v' # vs), ds')" using vs(1) by (simp add: v'_def Let_def)
  then show ?case using vs page v(2,3) by auto
qed simp

lemma list_all2_map_eq: "list_all2 P xs ys \<Longrightarrow> (\<And>x y. P x y \<Longrightarrow> g y = x) \<Longrightarrow> map g ys = xs"
  by (induction rule: list_all2_induct) auto

lemma list_all2_range: "list_all2 P xs ys \<Longrightarrow> (\<And>x y. P x y \<Longrightarrow> Q y) \<Longrightarrow> y \<in> set ys \<Longrightarrow> Q y"
  by (induction rule: list_all2_induct) auto

lemma shows_page_location: "shows_page v d \<Longrightarrow> location_of v = location_of d"
  by (auto simp: shows_page_def page_str_def)

lemma pages_config:
  assumes "index_of_pages sep docs idx h"
  shows "set (i_fields idx) = {''title'', ''text''}" "i_fields idx \<noteq> []" "i_pipeline idx = [Pf_stemmer]" "all_docs idx = location_of ` set docs"
proof -
  show fs: "set (i_fields idx) = {''title'', ''text''}" and "i_pipeline idx = [Pf_stemmer]" "all_docs idx = location_of ` set docs"
    using assms by (simp_all add: index_of_pages_def)
  show "i_fields idx \<noteq> []" using fs by (metis empty_iff insertI1 list.set(1))
qed

lemma pages_docs_in:
  assumes "index_of_pages sep docs idx h" "f \<in> set (i_fields idx)"
  shows "docs_in idx w f = location_of ` {doc \<in> set docs. w \<in> set (text_terms sep (page_str f doc))}"
proof -
  have "f \<in> {''title'', ''text''}" using assms by (simp add: index_of_pages_def)
  then show ?thesis using assms(1) unfolding index_of_pages_def by blast
qed

lemma answers_are_pages:
  assumes "index_of_pages sep docs idx h" "\<forall>c \<in> set (clauses q). clause_ok default_call idx c"
  shows "answers default_call idx q \<subseteq> location_of ` set docs"
proof -
  have "clause_docs default_call idx c \<subseteq> location_of ` set docs" if "c \<in> set (clauses q)" for c
    using assms(2) that pages_docs_in [OF assms(1)] by (fastforce simp: clause_docs_def clause_ok_def)
  moreover have "all_docs idx = location_of ` set docs" using assms(1) by (simp add: index_of_pages_def)
  ultimately show ?thesis by (auto simp: answers_def split: if_splits)
qed

text \<open>Every query that parses is answered with pages, and the worker stays ready.\<close>
lemma search_parsed:
  assumes ready: "ready sep docs s" and idx: "w_index s = Some idx"
    and parse: "QueryParser_parse separator q (new_Query (i_fields idx)) = Some (Inr qu)"
    and ok: "\<forall>c \<in> set (clauses qu). clause_ok default_call idx c"
  shows "\<exists>vs s'. search env q s = Some (Inr (Arr vs), s') \<and> ready sep docs s' \<and> w_index s' = Some idx \<and> out s' = out s \<and>
    location_of ` set vs = answers default_call idx qu \<and> distinct (map location_of vs) \<and>
    (\<forall>v \<in> set vs. \<exists>d \<in> set docs. shows_page v d \<and> has_summary v d)"
proof -
  have pages: "index_of_pages sep docs idx (heap s)" "allowSearch s" and docs: "stored docs (documents s)"
    using ready idx by (auto simp: ready_def)
  then obtain rs h' where rs: "Index_query (e_sqrt env) default_call idx qu (heap s) = Some (Inr rs, h')"
      "set (map r_ref rs) = answers default_call idx qu" "distinct (map r_ref rs)" "searchable idx h'"
    using query_ok [of idx "heap s" qu default_call "e_sqrt env"] ok unfolding index_of_pages_def by blast
  obtain vs ds' where vs: "result_docs (map r_ref rs) (documents s) = (Inr vs, ds')" "stored docs ds'"
      "list_all2 (\<lambda>ref v. \<exists>d \<in> set docs. location_of d = ref \<and> shows_page v d \<and> has_summary v d) (map r_ref rs) vs"
    using result_docs_ok [of "map r_ref rs" docs "documents s"] answers_are_pages [OF pages(1) ok] rs(2) docs by auto
  have "map location_of vs = map r_ref rs"
    by (rule list_all2_map_eq [OF vs(3)]) (use shows_page_location in blast)
  then have "location_of ` set vs = answers default_call idx qu" "distinct (map location_of vs)"
    using rs(2,3) by (metis set_map, simp)
  moreover have "\<forall>v \<in> set vs. \<exists>d \<in> set docs. shows_page v d \<and> has_summary v d"
    by (intro ballI, rule list_all2_range [OF vs(3)]) blast
  moreover have "search env q s = Some (Inr (Arr vs), s\<lparr>heap := h', documents := ds'\<rparr>)"
    using pages(2) idx parse rs(1) vs(1) by (simp add: search_def Index_search_def)
  moreover have "ready sep docs (s\<lparr>heap := h', documents := ds'\<rparr>)"
    using pages rs(4) vs(2) idx by (simp add: ready_def index_of_pages_def)
  ultimately show ?thesis using idx by (intro exI [of _ vs] exI [of _ "s\<lparr>heap := h', documents := ds'\<rparr>"]) simp
qed

text \<open>The clauses of a parsed query suit the index: its search pipeline drops no term.\<close>
lemma parsed_clause_ok:
  assumes "index_of_pages sep docs idx h" "Lunr_Query.clause_ok (i_fields idx) c"
  shows "clause_ok default_call idx c"
proof -
  note pages_config [OF assms(1)]
  moreover have "c_fields c = i_fields idx \<or> (\<exists>f \<in> set (i_fields idx). c_fields c = [f])"
    using assms(2) by (simp add: Lunr_Query.clause_ok_def)
  moreover have "clause_terms default_call idx c \<noteq> []" by (simp add: clause_terms_def calculation default_runString)
  ultimately show ?thesis unfolding clause_ok_def by (elim disjE bexE) simp_all
qed

lemma words_of_plain: "w \<in> set (words_of sep s) \<Longrightarrow> w \<noteq> [] \<and> set w \<subseteq> set s"
proof -
  have "w \<in> set (split_where sep s) \<Longrightarrow> set w \<subseteq> set s" for w
  proof (induction s arbitrary: w)
    case (Cons c s)
    obtain u us where u: "split_where sep s = u # us" by (cases "split_where sep s") simp_all
    have "set v \<subseteq> set s" if "v \<in> set (u # us)" for v using Cons.IH [of v] that u by simp
    then show ?case using Cons.prems u by (fastforce split: if_splits)
  qed simp
  then show "w \<in> set (words_of sep s) \<Longrightarrow> w \<noteq> [] \<and> set w \<subseteq> set s" by (simp add: words_of_def)
qed

lemma search_plain:
  assumes "ready sep docs s" "list_all plain_char q" "CHR ''*'' \<notin> set q"
  shows "\<exists>vs s'. search env q s = Some (Inr (Arr vs), s') \<and> ready sep docs s' \<and> out s' = out s \<and>
    location_of ` set vs = wanted sep docs q \<and> distinct (map location_of vs) \<and>
    (\<forall>v \<in> set vs. \<exists>d \<in> set docs. shows_page v d \<and> has_summary v d)"
proof -
  obtain idx where idx: "w_index s = Some idx" "index_of_pages sep docs idx (heap s)" using assms(1) by (auto simp: ready_def)
  let ?ws = "words_of separator q" and ?qu = "\<lparr>clauses = map (word_clause (i_fields idx)) (words_of separator q), allFields = i_fields idx\<rparr>"
  note fs = pages_config [OF idx(2)]
  have ws: "\<forall>w \<in> set ?ws. CHR ''*'' \<notin> set w \<and> w \<noteq> []" using words_of_plain [of _ separator q] assms(3) by blast
  have "answers default_call idx ?qu = wanted sep docs q"
  proof (cases "?ws = []")
    case True
    then show ?thesis using fs(4) by (simp add: answers_def isNegated_def wanted_def)
  next
    case False
    have t: "docs_in idx w ''title'' \<union> docs_in idx w ''text'' = location_of ` {doc \<in> set docs. w \<in> page_terms sep doc}" for w
      using pages_docs_in [OF idx(2), of "''title''" w] pages_docs_in [OF idx(2), of "''text''" w] fs(1)
      by (auto simp: page_terms_def)
    have "answers default_call idx ?qu = (\<Union>w \<in> set ?ws. location_of ` {doc \<in> set docs. porterStemmer (toLowerCase w) \<in> page_terms sep doc})"
      unfolding plain_answers [OF fs(3) ws False] fs(1) by (simp add: t)
    then show ?thesis using False by (auto simp: wanted_def)
  qed
  moreover have "\<forall>c \<in> set (clauses ?qu). clause_ok default_call idx c"
    using fs(2) by (simp add: clause_ok_def word_clause_def)
  then obtain vs s' where "search env q s = Some (Inr (Arr vs), s')" "ready sep docs s'" "out s' = out s"
      "location_of ` set vs = answers default_call idx ?qu" "distinct (map location_of vs)"
      "\<forall>v \<in> set vs. \<exists>d \<in> set docs. shows_page v d \<and> has_summary v d"
    using search_parsed [OF assms(1) idx(1) plain_query_terms [OF assms(2)]] by blast
  ultimately show ?thesis by metis
qed

section \<open>The worker from start to answer\<close>

lemma new_worker_ready:
  assumes "site_data config sp docs d" "jsonable d" "e_import env [''lunr.js''] = Inr ()" "e_regexp env sp = Inr sep"
    "list_all (page_ok sep) docs"
  shows "\<exists>s. onJSONLoaded env (json_text d) (new_worker True) = (Inr (), s) \<and> ready sep docs s \<and>
    filter (\<lambda>x. case x of Post _ \<Rightarrow> True | _ \<Rightarrow> False) (out s) = [Post (Obj [(''config'', config)]), Post (Obj [(''allowSearch'', Bool True)])]"
  using onJSONLoaded_ready [OF assms(1,2) _ assms(3) _ assms(4,5), of "new_worker True"] heap_ok_empty
  by (auto simp: new_worker_def)

text \<open>The documentation search from the data file to the answer: once a worker has read a file of English
  pages whose terms have no digits, a query without special characters and wildcards is answered with exactly
  the pages that contain, in title or text, a word with the same stem as a word of the query (all pages if
  the query has no word).  Each page comes once, as it is in the file, with the first 200 characters of its
  text as summary.\<close>
theorem search_pages:
  assumes "site_data config sp docs d" "jsonable d" "e_import env [''lunr.js''] = Inr ()" "e_regexp env sp = Inr sep"
    and "list_all (page_ok sep) docs" "list_all plain_char q" "CHR ''*'' \<notin> set q"
  shows "\<exists>s vs s'. onJSONLoaded env (json_text d) (new_worker True) = (Inr (), s) \<and> search env q s = Some (Inr (Arr vs), s') \<and>
    location_of ` set vs = wanted sep docs q \<and> distinct (map location_of vs) \<and>
    (\<forall>v \<in> set vs. \<exists>doc \<in> set docs. shows_page v doc \<and> has_summary v doc)"
proof -
  obtain s where s: "onJSONLoaded env (json_text d) (new_worker True) = (Inr (), s)" "ready sep docs s"
    using new_worker_ready [OF assms(1-5)] by blast
  from search_plain [OF s(2) assms(6,7), of env] s(1) show ?thesis by blast
qed

definition sample_env :: environment where
  "sample_env = \<lparr>e_log = id, e_sqrt = id, e_regexp = (\<lambda>_. Inr separator), e_plugin = (\<lambda>_. None),
     e_multi = (\<lambda>_. Inr), e_import = (\<lambda>_. Inr ())\<rparr>"

definition sample_settings :: jsval where
  "sample_settings = Obj [(''lang'', Arr [Str ''en'']), (''min_search_length'', Num 3), (''separator'', Str ''[ -]+'')]"

definition sample_site :: jsval where
  "sample_site = Obj [(''config'', sample_settings), (''docs'', Arr [sample_doc])]"

lemma sample_site_ok:
  "site_data sample_settings ''[ -]+'' [sample_doc] sample_site" "jsonable sample_site"
  by (simp_all add: site_data_def sample_site_def sample_settings_def sample_doc_def obj_get_def object_prototype_def)

lemma sample_page: "page_ok separator sample_doc" "location_of sample_doc = ''intro/''"
  "page_terms separator sample_doc = {''home'', ''restor'', ''file''}"
proof -
  have p: "is_page sample_doc" by (simp add: is_page_def sample_doc_def page_str_def obj_get_def)
  have t: "text_terms separator (page_str ''title'' sample_doc) = [''home'']" "text_terms separator (page_str ''text'' sample_doc) = [''restor'', ''file'']"
    using page_doc_terms [OF p, of _ separator] sample_terms by auto
  show "page_ok separator sample_doc" using p sample_no_digits by (simp add: page_ok_def t)
  show "location_of sample_doc = ''intro/''" by (simp add: page_str_def sample_doc_def obj_get_def)
  show "page_terms separator sample_doc = {''home'', ''restor'', ''file''}" by (auto simp: page_terms_def t)
qed

lemma sample_wanted: "wanted separator [sample_doc] ''Restoring a disk'' = {''intro/''}"
proof -
  have "words_of separator ''Restoring a disk'' = [''Restoring'', ''a'', ''disk'']" by code_simp
  moreover have "porterStemmer (toLowerCase ''Restoring'') = ''restor''" by code_simp
  ultimately show ?thesis by (auto simp: wanted_def sample_page)
qed

theorem search_pages_witness:
  "\<exists>s vs s'. onJSONLoaded sample_env (json_text sample_site) (new_worker True) = (Inr (), s) \<and>
    search sample_env ''Restoring a disk'' s = Some (Inr (Arr vs), s') \<and> location_of ` set vs = {''intro/''}"
proof -
  have q: "list_all plain_char ''Restoring a disk''" "CHR ''*'' \<notin> set ''Restoring a disk''" by code_simp+
  have "list_all (page_ok separator) [sample_doc]" by (simp add: sample_page)
  moreover have "e_import sample_env [''lunr.js''] = Inr ()" "e_regexp sample_env ''[ -]+'' = Inr separator"
    by (simp_all add: sample_env_def)
  ultimately show ?thesis using search_pages [OF sample_site_ok _ _ _ q, of sample_env separator] unfolding sample_wanted by metis
qed

section \<open>Every query is answered\<close>

lemma search_any:
  assumes "ready sep docs s"
  shows "\<exists>r s'. search env q s = Some (r, s') \<and> ready sep docs s' \<and> out s' = out s \<and>
    (case r of Inl e \<Rightarrow> exn_name e = ''QueryParseError''
     | Inr v \<Rightarrow> \<exists>vs. v = Arr vs \<and> (\<forall>v \<in> set vs. \<exists>d \<in> set docs. shows_page v d \<and> has_summary v d))"
proof -
  obtain idx where idx: "w_index s = Some idx" "index_of_pages sep docs idx (heap s)" using assms by (auto simp: ready_def)
  obtain r where r: "QueryParser_parse separator q (new_Query (i_fields idx)) = Some r" "answer_ok (i_fields idx) (length q) r"
    using parse_answers by blast
  show ?thesis
  proof (cases r)
    case (Inl e)
    then have "search env q s = Some (Inl (Exn ''QueryParseError'' (pe_message e)), s)"
      using assms idx(1) r(1) by (simp add: search_def Index_search_def ready_def)
    then show ?thesis using assms by auto
  next
    case (Inr qu)
    have "\<forall>c \<in> set (clauses qu). clause_ok default_call idx c"
      using r(2) Inr parsed_clause_ok [OF idx(2)] by (auto simp: answer_ok_def list_all_iff)
    from search_parsed [OF assms idx(1) r(1) [unfolded Inr] this, of env] obtain vs s' where
      "search env q s = Some (Inr (Arr vs), s')" "ready sep docs s'" "out s' = out s"
      "\<forall>v \<in> set vs. \<exists>d \<in> set docs. shows_page v d \<and> has_summary v d" by blast
    then show ?thesis by (intro exI [of _ "Inr (Arr vs)"] exI [of _ s']) simp
  qed
qed

text \<open>The answers to a sequence of queries, each sent as a message.\<close>
fun serve :: "environment \<Rightarrow> string list \<Rightarrow> worker \<Rightarrow> (unit jsr list \<times> worker) option" where
  "serve env [] s = Some ([], s)"
| "serve env (q # qs) s =
     (case onmessage env (Obj [(''query'', Str q)]) s of
        None \<Rightarrow> None
      | Some (r, s') \<Rightarrow> map_option (\<lambda>(rs, s''). (r # rs, s'')) (serve env qs s'))"

definition page_results :: "jsval list \<Rightarrow> outcome \<Rightarrow> bool" where
  "page_results docs x \<longleftrightarrow> (\<exists>vs. x = Post (Obj [(''results'', Arr vs)]) \<and>
     (\<forall>v \<in> set vs. \<exists>d \<in> set docs. shows_page v d \<and> has_summary v d))"

lemma onmessage_query:
  assumes "ready sep docs s" "q \<noteq> []"
  shows "\<exists>r s'. onmessage env (Obj [(''query'', Str q)]) s = Some (r, s') \<and> ready sep docs s' \<and>
    (case r of Inl e \<Rightarrow> exn_name e = ''QueryParseError'' \<and> out s' = out s
     | Inr _ \<Rightarrow> \<exists>x. page_results docs x \<and> out s' = out s @ [x])"
proof -
  obtain r s' where r: "search env q s = Some (r, s')" "ready sep docs s'" "out s' = out s"
      "case r of Inl e \<Rightarrow> exn_name e = ''QueryParseError''
       | Inr v \<Rightarrow> \<exists>vs. v = Arr vs \<and> (\<forall>v \<in> set vs. \<exists>d \<in> set docs. shows_page v d \<and> has_summary v d)"
    using search_any [OF assms(1), of env q] by blast
  have "onmessage env (Obj [(''query'', Str q)]) s =
      Some (bind_act (lift_act r) (\<lambda>v. emits (Post (Obj [(''results'', v)]))) s')"
    using r(1) assms(2) by (simp add: onmessage_def obj_get_def object_prototype_def)
  moreover have "ready sep docs (s'\<lparr>out := x\<rparr>)" for x using r(2) by (simp add: ready_def)
  ultimately show ?thesis
    using r by (cases r) (auto simp: bind_act_def lift_act_def emits_def modify_def page_results_def)
qed

text \<open>C22. Every query is answered: a worker that is ready handles any sequence of query messages, whatever their
  text.  Each search ends, and either posts pages of the site with their summaries, or throws a
  \<open>QueryParseError\<close>, which posts nothing; nothing else can go wrong, and the worker stays ready.\<close>
theorem queries_answered:
  assumes "ready sep docs s" "list_all (\<lambda>q. q \<noteq> []) qs"
  shows "\<exists>rs s' posts. serve env qs s = Some (rs, s') \<and> ready sep docs s' \<and> length rs = length qs \<and>
    list_all (\<lambda>r. case r of Inl e \<Rightarrow> exn_name e = ''QueryParseError'' | Inr _ \<Rightarrow> True) rs \<and>
    out s' = out s @ posts \<and> list_all (page_results docs) posts \<and> length posts = length (filter (\<lambda>r. r = Inr ()) rs)"
  using assms
proof (induction qs arbitrary: s)
  case (Cons q qs)
  obtain r s1 where 1: "onmessage env (Obj [(''query'', Str q)]) s = Some (r, s1)" "ready sep docs s1"
      "case r of Inl e \<Rightarrow> exn_name e = ''QueryParseError'' \<and> out s1 = out s | Inr _ \<Rightarrow> \<exists>x. page_results docs x \<and> out s1 = out s @ [x]"
    using onmessage_query [OF Cons.prems(1), of q env] Cons.prems(2) by auto
  obtain rs s' posts where 2: "serve env qs s1 = Some (rs, s')" "ready sep docs s'" "length rs = length qs"
      "list_all (\<lambda>r. case r of Inl e \<Rightarrow> exn_name e = ''QueryParseError'' | Inr _ \<Rightarrow> True) rs"
      "out s' = out s1 @ posts" "list_all (page_results docs) posts" "length posts = length (filter (\<lambda>r. r = Inr ()) rs)"
    using Cons.IH [OF 1(2)] Cons.prems(2) by auto
  have run: "serve env (q # qs) s = Some (r # rs, s')" using 1(1) 2(1) by simp
  show ?case
  proof (cases r)
    case (Inl e)
    then show ?thesis using 1(3) 2 run by (intro exI [of _ "r # rs"] exI [of _ s'] exI [of _ posts]) simp
  next
    case (Inr u)
    then obtain x where "page_results docs x" "out s1 = out s @ [x]" using 1(3) by auto
    then show ?thesis using Inr 2 run by (intro exI [of _ "r # rs"] exI [of _ s'] exI [of _ "x # posts"]) simp
  qed
qed simp

theorem queries_answered_witness:
  "\<exists>s rs s'. onJSONLoaded sample_env (json_text sample_site) (new_worker True) = (Inr (), s) \<and>
    serve sample_env [''file'', ''+'', ''back*^x''] s = Some (rs, s') \<and> ready separator [sample_doc] s'"
proof -
  have "list_all (page_ok separator) [sample_doc]" "e_import sample_env [''lunr.js''] = Inr ()" "e_regexp sample_env ''[ -]+'' = Inr separator"
    by (simp_all add: sample_env_def sample_page)
  then obtain s where s: "onJSONLoaded sample_env (json_text sample_site) (new_worker True) = (Inr (), s)" "ready separator [sample_doc] s"
    using new_worker_ready [OF sample_site_ok, of sample_env separator] by blast
  with queries_answered [OF s(2), of "[''file'', ''+'', ''back*^x'']" sample_env] show ?thesis by auto
qed

section \<open>Loading that fails\<close>

definition is_post :: "outcome \<Rightarrow> bool" where
  "is_post x \<longleftrightarrow> (case x of Post _ \<Rightarrow> True | _ \<Rightarrow> False)"

named_theorems quiet_intros \<open>steps that post nothing\<close>

text \<open>A step that posts nothing, and leaves \<open>allowSearch\<close> and the data alone.\<close>
definition quiet :: "'a act \<Rightarrow> bool" where
  "quiet m \<longleftrightarrow> (\<forall>s. allowSearch (snd (m s)) = allowSearch s \<and> filter is_post (out (snd (m s))) = filter is_post (out s) \<and>
     data (snd (m s)) = data s)"

lemma quiet_bind: "quiet m \<Longrightarrow> (\<And>a. quiet (f a)) \<Longrightarrow> quiet (bind_act m f)"
  unfolding quiet_def bind_act_def by (auto split: prod.splits sum.splits) (metis snd_conv)+

lemma quiet_steps [quiet_intros]:
  "quiet (lift_act r)" "quiet (\<lambda>s. (g s, s))" "\<not> is_post x \<Longrightarrow> quiet (emits x)" "quiet (set_separator env)" "quiet (build_index env)" "quiet (load_index ix)"
  by (auto simp: quiet_def lift_act_def emits_def modify_def set_separator_def build_index_def load_index_def Let_def is_post_def
      split: sum.splits option.splits prod.splits)

declare quiet_bind [quiet_intros]

lemma bind_act_Inl:
  "bind_act m f s = (Inl e, s') \<longleftrightarrow> m s = (Inl e, s') \<or> (\<exists>a s1. m s = (Inr a, s1) \<and> f a s1 = (Inl e, s'))"
  by (auto simp: bind_act_def split: prod.splits sum.splits)

lemma bind_act_Inr: "bind_act m f s = (Inr b, s') \<longleftrightarrow> (\<exists>a s1. m s = (Inr a, s1) \<and> f a s1 = (Inr b, s'))"
  by (auto simp: bind_act_def split: prod.splits sum.splits)

lemma quietD: "quiet m \<Longrightarrow> m s = (r, s') \<Longrightarrow> allowSearch s' = allowSearch s \<and> filter is_post (out s') = filter is_post (out s) \<and> data s' = data s"
  unfolding quiet_def by (metis snd_conv)

text \<open>If building the index throws, the worker does not pretend to be ready.\<close>
lemma onScriptsLoaded_fails:
  assumes "onScriptsLoaded env s = (Inl e, s')"
  shows "allowSearch s' = allowSearch s \<and> filter is_post (out s') = filter is_post (out s)"
proof -
  let ?prep = "bind_act (emits (Log ''All search scripts loaded, building Lunr index...'')) (\<lambda>_.
     bind_act (set_separator env) (\<lambda>_.
     bind_act (\<lambda>s. (get (data s) ''index'', s)) (\<lambda>ix.
     if truthy ix then load_index ix else build_index env)))"
  let ?rest = "bind_act (modify (\<lambda>s. s\<lparr>allowSearch := True\<rparr>)) (\<lambda>_.
     bind_act (\<lambda>s. (get (data s) ''config'', s)) (\<lambda>c.
     bind_act (emits (Post (Obj [(''config'', c)]))) (\<lambda>_.
     \<lambda>s. emits (Post (Obj [(''allowSearch'', Bool (allowSearch s))])) s)))"
  have split: "onScriptsLoaded env s = bind_act ?prep (\<lambda>_. ?rest) s"
    unfolding onScriptsLoaded_def bind_act_def by (auto split: prod.splits sum.splits)
  have q: "quiet ?prep" by (intro quiet_intros) (simp_all add: is_post_def quiet_steps)
  have data: "\<not> nullish (data s)" if prep: "?prep s = (Inr u, s1)" for u s1
  proof -
    obtain a b s2 s3 v where steps: "emits (Log ''All search scripts loaded, building Lunr index...'') s = (Inr a, s2)"
        "set_separator env s2 = (Inr b, s3)" "get (data s3) ''index'' = Inr v"
      using prep unfolding bind_act_Inr by blast
    have "data s2 = data s" "data s3 = data s2"
      using quietD [OF quiet_steps(3) steps(1)] quietD [OF quiet_steps(4) steps(2)] by (simp_all add: is_post_def)
    then show ?thesis using get_Inr_not_nullish [OF steps(3)] by simp
  qed
  have "?rest s1 \<noteq> (Inl e, s')" if prep: "?prep s = (Inr u, s1)" for u s1
  proof -
    have "data s1 = data s" using quietD [OF q prep] by simp
    then obtain c where "get (data s1) ''config'' = Inr c" using get_not_nullish [OF data [OF prep]] by metis
    then show ?thesis by (simp add: bind_act_def emits_def modify_def)
  qed
  then have "?prep s = (Inl e, s')" using assms unfolding split bind_act_Inl [of ?prep] by blast
  from quietD [OF q this] show ?thesis by simp
qed

lemma getScripts_fails:
  assumes "\<And>s s'. callback s = (Inl e, s') \<Longrightarrow> allowSearch s' = allowSearch s \<and> filter is_post (out s') = filter is_post (out s)"
    and "loadScripts env urls callback s = (Inl e, s')"
  shows "allowSearch s' = allowSearch s \<and> filter is_post (out s') = filter is_post (out s)"
proof (cases "has_import s")
  case True
  let ?s1 = "s\<lparr>out := out s @ [Import urls]\<rparr>"
  have "loadScripts env urls callback s = (case e_import env urls of Inl e \<Rightarrow> (Inl e, ?s1) | Inr _ \<Rightarrow> callback ?s1)"
    using True by (simp add: loadScripts_def bind_act_def emits_def modify_def lift_act_def split: sum.split)
  then show ?thesis using assms(2) assms(1) [of ?s1 s'] by (auto simp: is_post_def split: sum.splits)
next
  case False
  then show ?thesis
    using assms by (cases urls) (simp_all add: loadScripts_def getScriptsInOrder_def getScript_def bind_act_def emits_def modify_def)
qed

text \<open>C26. A load that fails stays silent: if reading the data file throws, at whatever step and whatever was done
  before (a text that is no JSON, scripts that cannot be loaded, a separator that is no regular expression, a
  page that cannot be indexed), the worker has posted nothing and still refuses every query with an error on
  the console and \<open>undefined\<close> as result.\<close>
theorem load_failure_silent:
  assumes "onJSONLoaded env responseText (new_worker w) = (Inl e, s')"
  shows "\<not> allowSearch s' \<and> filter is_post (out s') = [] \<and>
    search env q s' = Some (Inr Undef, s'\<lparr>out := out s' @ [LogError ''Assets for search still loading'']\<rparr>)"
proof -
  have new: "\<not> allowSearch (new_worker w)" "filter is_post (out (new_worker w)) = []" by (simp_all add: new_worker_def)
  define s2 where "s2 d l = (case l of None \<Rightarrow> (new_worker w)\<lparr>data := d\<rparr> | Some v \<Rightarrow> (new_worker w)\<lparr>data := d, lang := v\<rparr>)" for d l
  have s2: "allowSearch (s2 d l) = allowSearch (new_worker w) \<and> out (s2 d l) = out (new_worker w)" for d l
    by (simp add: s2_def split: option.split)
  have "onJSONLoaded env responseText (new_worker w) =
      (case JSON_parse responseText of None \<Rightarrow> (Inl syntax_error, new_worker w)
       | Some d \<Rightarrow> (case config_option d ''lang'' of Inl e \<Rightarrow> (Inl e, (new_worker w)\<lparr>data := d\<rparr>)
           | Inr l \<Rightarrow> (case scripts_for (lang (s2 d l)) of Inl e \<Rightarrow> (Inl e, s2 d l)
               | Inr urls \<Rightarrow> loadScripts env urls (onScriptsLoaded env) (s2 d l))))"
    by (simp add: onJSONLoaded_def bind_act_def lift_act_def modify_def s2_def split: option.split sum.split)
  then have "allowSearch s' = allowSearch (new_worker w) \<and> filter is_post (out s') = filter is_post (out (new_worker w))"
    using assms s2 getScripts_fails [where callback = "onScriptsLoaded env" and e = e and s' = s', OF onScriptsLoaded_fails]
    by (auto split: option.splits sum.splits)
  then show ?thesis using new by (simp add: search_def bind_act_def emits_def modify_def lift_act_def)
qed

theorem load_failure_silent_witness:
  "\<exists>e s'. onJSONLoaded sample_env ''no data'' (new_worker True) = (Inl e, s') \<and> \<not> allowSearch s' \<and>
    (\<exists>s''. search sample_env ''file'' s' = Some (Inr Undef, s''))"
proof -
  have "JSON_parse ''no data'' = None" by code_simp
  then have "onJSONLoaded sample_env ''no data'' (new_worker True) = (Inl syntax_error, new_worker True)"
    by (simp add: onJSONLoaded_def bind_act_def lift_act_def)
  from load_failure_silent [OF this, of "''file''"] this show ?thesis by blast
qed

end
