(* ===== verification/Docs_Page.thy ===== *)
theory Docs_Page
  imports Docs_Worker
begin

text \<open>
  The page of the documentation search (\<open>search/main.js\<close>): it reads the query, asks the worker, and shows the
  results as HTML; and the page and the worker together, exchanging messages over two channels.

  The page keeps what is in the document: the search field (\<open>None\<close> if the page has none), the list of results as the
  pieces of HTML put into it, whether the field is listened to, and the globals of the script.  An exception
  in a handler is its result, with what was done before it; a global that was never assigned
  is read as a \<open>ReferenceError\<close>.  \<open>decodeURIComponent\<close> covers the characters below 256; other code points are
  outside the model.
\<close>

section \<open>Text\<close>

definition joinUrl :: "string \<Rightarrow> string \<Rightarrow> string" where
  "joinUrl base path =
     (if take 1 path = ''/'' then path
      else if drop (length base - 1) base = ''/'' then base @ path
      else base @ ''/'' @ path)"

text \<open>\<open>value.replace(/c/g, r)\<close>\<close>
definition replace_all :: "char \<Rightarrow> string \<Rightarrow> string \<Rightarrow> string" where
  "replace_all c r s = concat (map (\<lambda>x. if x = c then r else [x]) s)"

definition escapeHtml :: "string \<Rightarrow> string" where
  "escapeHtml value =
     replace_all (CHR ''>'') ''&gt;'' (replace_all (CHR ''<'') ''&lt;''
       (replace_all (CHR 34) ''&quot;'' (replace_all (CHR ''&'') ''&amp;'' value)))"

definition quoted_attr :: "string \<Rightarrow> string" where
  "quoted_attr s = [CHR 34] @ s @ [CHR 34]"

definition formatResult :: "string \<Rightarrow> string \<Rightarrow> string \<Rightarrow> string \<Rightarrow> string" where
  "formatResult base_url location title summary =
     ''<article><h3><a href='' @ quoted_attr (joinUrl base_url location) @ ''>'' @ escapeHtml title @ ''</a></h3><p>'' @
     escapeHtml summary @ ''</p></article>''"

section \<open>The query in the address\<close>

definition uri_error :: js_error where
  "uri_error = Exn ''URIError'' ''URI malformed''"

definition hex2 :: "char \<Rightarrow> char \<Rightarrow> nat option" where
  "hex2 a b = (case (hex_val a, hex_val b) of (Some x, Some y) \<Rightarrow> Some (16 * x + y) | _ \<Rightarrow> None)"

text \<open>\<open>decodeURIComponent\<close>: an octet below 128 is its character; two octets from C2 or C3 on are one below 256.\<close>
fun decodeURIComponent :: "string \<Rightarrow> string jsr" where
  "decodeURIComponent [] = Inr []"
| "decodeURIComponent (c # s) =
     (if c \<noteq> CHR ''%'' then mapr (\<lambda>r. c # r) (decodeURIComponent s)
      else
        (case s of
           a # b # s1 \<Rightarrow>
             (case hex2 a b of
                None \<Rightarrow> Inl uri_error
              | Some n \<Rightarrow>
                  if n < 128 then mapr (\<lambda>r. char_of n # r) (decodeURIComponent s1)
                  else if n \<noteq> 194 \<and> n \<noteq> 195 then Inl uri_error
                  else
                    (case s1 of
                       p # a' # b' # s2 \<Rightarrow>
                         if p \<noteq> CHR ''%'' then Inl uri_error
                         else
                           (case hex2 a' b' of
                              None \<Rightarrow> Inl uri_error
                            | Some k \<Rightarrow>
                                if 128 \<le> k \<and> k < 192 then mapr (\<lambda>r. char_of (64 * (n - 192) + (k - 128)) # r) (decodeURIComponent s2)
                                else Inl uri_error)
                     | _ \<Rightarrow> Inl uri_error))
         | _ \<Rightarrow> Inl uri_error))"

text \<open>The loop over the variables of the address.\<close>
fun find_q :: "string list \<Rightarrow> string option jsr" where
  "find_q [] = Inr None"
| "find_q (v # vs) =
     (let sParameterName = split_on (CHR ''='') v in
      if hd sParameterName = ''q''
      then (case tl sParameterName of
              [] \<Rightarrow> Inl type_error
            | w # _ \<Rightarrow> mapr Some (decodeURIComponent (replace_all (CHR ''+'') ''%20'' w)))
      else find_q vs)"

definition getSearchTermFromLocation :: "string \<Rightarrow> string option jsr" where
  "getSearchTermFromLocation address = find_q (split_on (CHR ''&'') (drop 1 address))"

section \<open>The page\<close>

record page =
  base_url :: string
  query_value :: "string option"
  results_list :: "string list option"
  no_results_attr :: "string option"
  location_search :: string
  has_Worker :: bool
  min_search_length :: "jsval option"
  listening :: bool
  to_worker :: "jsval list"
  own :: worker

text \<open>A handler of the page: its result and the page after it, or \<open>None\<close> if it does not end.  \<open>own\<close> are the globals of
  the worker's script, for a browser without workers, where it runs in the page.\<close>
type_synonym pact = "page \<Rightarrow> (unit jsr \<times> page) option"

text \<open>The loop that shows the results, one after the other.\<close>
fun show_results :: "string \<Rightarrow> jsval list \<Rightarrow> string list \<Rightarrow> unit jsr \<times> string list" where
  "show_results base [] htmls = (Inr (), htmls)"
| "show_results base (r # rs) htmls =
     (case bindr (get r ''location'') (\<lambda>l. bindr (get r ''title'') (\<lambda>t. mapr (\<lambda>s. (l, t, s)) (get r ''summary''))) of
        Inl e \<Rightarrow> (Inl e, htmls)
      | Inr (Str l, Str t, Str s) \<Rightarrow> show_results base rs (htmls @ [formatResult base l t s])
      | Inr _ \<Rightarrow> (Inl type_error, htmls))"

definition no_results_html :: "page \<Rightarrow> string" where
  "no_results_html p =
     ''<p>'' @ (case no_results_attr p of Some (c # cs) \<Rightarrow> c # cs | _ \<Rightarrow> ''No results found'') @ ''</p>''"

text \<open>The list is emptied before \<open>results.length\<close> is read.\<close>
definition displayResults :: "jsval \<Rightarrow> page \<Rightarrow> unit jsr \<times> page" where
  "displayResults results p =
     (case results_list p of
        None \<Rightarrow> (Inl type_error, p)
      | Some _ \<Rightarrow>
          (case indexed results of
             Inl e \<Rightarrow> (Inl e, p\<lparr>results_list := Some []\<rparr>)
           | Inr [] \<Rightarrow> (Inr (), p\<lparr>results_list := Some [no_results_html p]\<rparr>)
           | Inr rs \<Rightarrow> (case show_results (base_url p) rs [] of (r, htmls) \<Rightarrow> (r, p\<lparr>results_list := Some htmls\<rparr>))))"

text \<open>\<open>n > v\<close> for a length and the value of \<open>min_search_length\<close>, a number or \<open>NaN\<close>\<close>
fun greater_than :: "nat \<Rightarrow> jsval \<Rightarrow> bool" where
  "greater_than n (Num x) = (x < of_nat n)"
| "greater_than n _ = False"

definition reference_error :: js_error where
  "reference_error = Exn ''ReferenceError'' ''min_search_length is not defined''"

definition doSearch :: "environment \<Rightarrow> pact" where
  "doSearch env p =
     (case query_value p of
        None \<Rightarrow> Some (Inl type_error, p)
      | Some query \<Rightarrow>
          (case min_search_length p of
             None \<Rightarrow> Some (Inl reference_error, p)
           | Some least \<Rightarrow>
               if greater_than (length query) least
               then (if \<not> has_Worker p
                     then map_option (\<lambda>(r, w). let p1 = p\<lparr>own := w\<rparr> in
                              case r of Inl e \<Rightarrow> (Inl e, p1) | Inr v \<Rightarrow> displayResults v p1) (search env query (own p))
                     else Some (Inr (), p\<lparr>to_worker := to_worker p @ [Obj [(''query'', Str query)]]\<rparr>))
               else Some (displayResults (Arr []) p)))"

definition initSearch :: "environment \<Rightarrow> pact" where
  "initSearch env p =
     (let p1 = p\<lparr>listening := listening p \<or> query_value p \<noteq> None\<rparr> in
      case getSearchTermFromLocation (location_search p) of
        Inl e \<Rightarrow> Some (Inl e, p1)
      | Inr None \<Rightarrow> Some (Inr (), p1)
      | Inr (Some t) \<Rightarrow>
          if t = [] then Some (Inr (), p1)
          else if query_value p = None then Some (Inl type_error, p1)
          else doSearch env (p1\<lparr>query_value := Some t\<rparr>))"

text \<open>\<open>v - 1\<close>; a string counts as the number it writes in JSON.\<close>
fun to_number :: "jsval \<Rightarrow> jsval" where
  "to_number (Num x) = Num x"
| "to_number Null = Num 0"
| "to_number (Bool b) = Num (if b then 1 else 0)"
| "to_number (Str s) = (case JSON_parse s of Some (Num x) \<Rightarrow> Num x | _ \<Rightarrow> if trim s = [] then Num 0 else NaN)"
| "to_number _ = NaN"

definition minus_1 :: "jsval \<Rightarrow> jsval" where
  "minus_1 v = (case to_number v of Num x \<Rightarrow> Num (x - 1) | _ \<Rightarrow> NaN)"

definition onWorkerMessage :: "environment \<Rightarrow> jsval \<Rightarrow> pact" where
  "onWorkerMessage env msg p =
     (case bindr (get msg ''allowSearch'') (\<lambda>a. bindr (get msg ''results'') (\<lambda>r. mapr (\<lambda>c. (a, r, c)) (get msg ''config''))) of
        Inl e \<Rightarrow> Some (Inl e, p)
      | Inr (a, r, c) \<Rightarrow>
          if truthy a then initSearch env p
          else if truthy r then Some (displayResults r p)
          else if truthy c
          then (case get c ''min_search_length'' of
                  Inl e \<Rightarrow> Some (Inl e, p)
                | Inr v \<Rightarrow> Some (Inr (), p\<lparr>min_search_length := Some (minus_1 v)\<rparr>))
          else Some (Inr (), p))"

section \<open>The script\<close>

definition posts_of :: "outcome list \<Rightarrow> jsval list" where
  "posts_of xs = List.map_filter (\<lambda>x. case x of Post m \<Rightarrow> Some m | _ \<Rightarrow> None) xs"

text \<open>With workers: one is made and told to start.\<close>
definition start_worker :: "page \<Rightarrow> page" where
  "start_worker p = p\<lparr>to_worker := to_worker p @ [Obj [(''init'', Bool True)]]\<rparr>"

text \<open>Without: the worker's script is loaded into the page and started.  From then on what its steps post goes
  straight to \<open>onWorkerMessage\<close>; an exception there ends the step.\<close>
fun deliver_all :: "environment \<Rightarrow> jsval list \<Rightarrow> pact" where
  "deliver_all env [] p = Some (Inr (), p)"
| "deliver_all env (msg # msgs) p =
     (case onWorkerMessage env msg p of
        None \<Rightarrow> None
      | Some (Inl e, p') \<Rightarrow> Some (Inl e, p')
      | Some (Inr _, p') \<Rightarrow> deliver_all env msgs p')"

definition own_step :: "environment \<Rightarrow> unit act \<Rightarrow> pact" where
  "own_step env step p =
     (case step (own p) of
        (r, w) \<Rightarrow>
          (case deliver_all env (posts_of (drop (length (out (own p))) (out w))) (p\<lparr>own := w\<rparr>) of
             None \<Rightarrow> None
           | Some (Inl e, p') \<Rightarrow> Some (Inl e, p')
           | Some (Inr _, p') \<Rightarrow> Some (r, p')))"

definition start_own :: "environment \<Rightarrow> pact" where
  "start_own env p = own_step env init (p\<lparr>own := new_worker False\<rparr>)"

section \<open>Escaping\<close>

definition escape_html_char :: "char \<Rightarrow> string" where
  "escape_html_char c =
     (if c = CHR ''&'' then ''&amp;'' else if c = CHR 34 then ''&quot;'' else if c = CHR ''<'' then ''&lt;''
      else if c = CHR ''>'' then ''&gt;'' else [c])"

lemma replace_all_append [simp]: "replace_all c r (s @ t) = replace_all c r s @ replace_all c r t"
  by (simp add: replace_all_def)

lemma replace_all_id: "c \<notin> set s \<Longrightarrow> replace_all c r s = s"
  by (induction s) (auto simp: replace_all_def)

text \<open>The four replacements, one after the other, treat each character alone.\<close>
lemma escapeHtml_map: "escapeHtml s = concat (map escape_html_char s)"
proof (induction s)
  case (Cons c s)
  have "escapeHtml (c # s) = escapeHtml [c] @ escapeHtml s"
    using replace_all_append [of _ _ "[c]" s] by (simp add: escapeHtml_def)
  moreover have "escapeHtml [c] = escape_html_char c" by (auto simp: escapeHtml_def replace_all_def escape_html_char_def)
  ultimately show ?case using Cons by simp
qed (simp add: escapeHtml_def replace_all_def)

text \<open>How a browser reads the text of an element: the four entities stand for their characters.\<close>
fun read_html :: "string \<Rightarrow> string" where
  "read_html [] = []"
| "read_html (c # s) =
     (if c = CHR ''&''
      then (if prefix ''amp;'' s then CHR ''&'' # read_html (drop 4 s)
            else if prefix ''quot;'' s then CHR 34 # read_html (drop 5 s)
            else if prefix ''lt;'' s then CHR ''<'' # read_html (drop 3 s)
            else if prefix ''gt;'' s then CHR ''>'' # read_html (drop 3 s)
            else c # read_html s)
      else c # read_html s)"

lemma read_html_escaped: "read_html (escape_html_char c @ s) = c # read_html s"
  by (auto simp: escape_html_char_def)

text \<open>C40. Titles and summaries are shown as text: escaped, they contain no angle bracket and no quotation mark, so they
  cannot open or close an element or an attribute, and a browser reads the escaped text back as the
  original.\<close>
theorem escapeHtml_safe:
  "set (escapeHtml s) \<inter> {CHR ''<'', CHR ''>'', CHR 34} = {} \<and> read_html (escapeHtml s) = s"
proof
  have "set (escape_html_char c) \<inter> {CHR ''<'', CHR ''>'', CHR 34} = {}" for c by (auto simp: escape_html_char_def)
  then show "set (escapeHtml s) \<inter> {CHR ''<'', CHR ''>'', CHR 34} = {}" unfolding escapeHtml_map by auto
  show "read_html (escapeHtml s) = s" unfolding escapeHtml_map by (induction s) (simp_all add: read_html_escaped)
qed

section \<open>Reading the query from the address\<close>

text \<open>How a browser writes a form field into the address: letters, digits and four other characters stay, a space
  becomes a plus sign, the rest are the octets of UTF-8.\<close>
definition hex_char :: "nat \<Rightarrow> char" where
  "hex_char n = ''0123456789ABCDEF'' ! n"

definition percent :: "nat \<Rightarrow> string" where
  "percent n = [CHR ''%'', hex_char (n div 16), hex_char (n mod 16)]"

definition uri_plain :: "char \<Rightarrow> bool" where
  "uri_plain c \<longleftrightarrow> is_word_char c \<or> c \<in> set ''*-.''"

definition form_char :: "char \<Rightarrow> string" where
  "form_char c =
     (let n = (of_char c :: nat) in
      if c = CHR '' '' then ''+'' else if uri_plain c then [c]
      else if n < 128 then percent n else percent (192 + n div 64) @ percent (128 + n mod 64))"

definition form_encode :: "string \<Rightarrow> string" where
  "form_encode w = concat (map form_char w)"

lemma hex_char_facts:
  assumes "n < 16"
  shows "hex_val (hex_char n) = Some n" "hex_char n \<notin> set ''%+&=''"
proof -
  have "n \<in> {0, 1, 2, 3, 4, 5, 6, 7, 8, 9, 10, 11, 12, 13, 14, 15}" using assms unfolding insert_iff empty_iff by presburger
  then show "hex_val (hex_char n) = Some n" "hex_char n \<notin> set ''%+&=''"
    by (auto simp: hex_char_def hex_val_def Let_def)
qed

lemma hex2_percent: "n < 256 \<Longrightarrow> hex2 (hex_char (n div 16)) (hex_char (n mod 16)) = Some n"
  by (simp add: hex2_def hex_char_facts)

lemma decode_plain: "c \<noteq> CHR ''%'' \<Longrightarrow> decodeURIComponent (c # s) = mapr (\<lambda>r. c # r) (decodeURIComponent s)"
  by simp

lemma decode_percent: "n < 128 \<Longrightarrow> decodeURIComponent (percent n @ s) = mapr (\<lambda>r. char_of n # r) (decodeURIComponent s)"
  by (simp add: percent_def hex2_percent)

lemma decode_two:
  assumes "n < 256" "128 \<le> n"
  shows "decodeURIComponent (percent (192 + n div 64) @ percent (128 + n mod 64) @ s) = mapr (\<lambda>r. char_of n # r) (decodeURIComponent s)"
proof -
  have n: "192 + n div 64 = 194 \<or> 192 + n div 64 = 195" using assms by auto
  have "64 * (n div 64) + n mod 64 = n" by simp
  then show ?thesis
    using n hex2_percent [of "192 + n div 64"] hex2_percent [of "128 + n mod 64"] assms by (auto simp: percent_def)
qed

lemma uri_plain_not_special: "uri_plain c \<Longrightarrow> c \<notin> set ''%+&=''"
proof -
  have "list_all (\<lambda>c. \<not> uri_plain c) ''%+&=''" by code_simp
  then show "uri_plain c \<Longrightarrow> c \<notin> set ''%+&=''" by (auto simp: list_all_iff)
qed

lemma percent_set: "n < 256 \<Longrightarrow> set (percent n) \<inter> set ''+&='' = {}"
  using hex_char_facts(2) [of "n div 16"] hex_char_facts(2) [of "n mod 16"] by (auto simp: percent_def)

lemma octets: "192 + of_char c div 64 < (256 :: nat)" "128 + of_char c mod 64 < (256 :: nat)"
  using less_mult_imp_div_less [of "of_char c" 4 64] nat_of_char_less_256 [of c] mod_less_divisor [of 64 "of_char c"]
  by linarith+

text \<open>One character, after plus signs have been turned into \<open>%20\<close>.\<close>
lemma decode_form_char:
  "decodeURIComponent (replace_all (CHR ''+'') ''%20'' (form_char c) @ s) = mapr (\<lambda>r. c # r) (decodeURIComponent s)"
proof -
  let ?n = "of_char c :: nat"
  consider (space) "c = CHR '' ''" | (plain) "uri_plain c" "c \<noteq> CHR '' ''" | (one) "?n < 128" "\<not> uri_plain c" "c \<noteq> CHR '' ''"
    | (two) "128 \<le> ?n" "\<not> uri_plain c" "c \<noteq> CHR '' ''" by fastforce
  then show ?thesis
  proof cases
    case space
    have "percent 32 = ''%20''" "(char_of (32 :: nat) :: char) = CHR '' ''" by code_simp+
    then show ?thesis using decode_percent [of 32 s] space by (simp add: form_char_def replace_all_def del: decodeURIComponent.simps)
  next
    case plain
    then show ?thesis using uri_plain_not_special [OF plain(1)] decode_plain [of c s] by (simp add: form_char_def Let_def replace_all_def)
  next
    case one
    then have "replace_all (CHR ''+'') ''%20'' (percent ?n) = percent ?n" using percent_set [of ?n] by (intro replace_all_id) auto
    then show ?thesis using one decode_percent [of ?n s] by (simp add: form_char_def Let_def)
  next
    case two
    have n: "?n < 256" by (rule nat_of_char_less_256)
    have "replace_all (CHR ''+'') ''%20'' (percent k) = percent k" if "k \<in> {192 + ?n div 64, 128 + ?n mod 64}" for k
      using percent_set [OF octets(1) [of c]] percent_set [OF octets(2) [of c]] that by (intro replace_all_id) auto
    then show ?thesis using two decode_two [OF n two(1), of s] by (simp add: form_char_def Let_def)
  qed
qed

lemma form_encode_decodes: "decodeURIComponent (replace_all (CHR ''+'') ''%20'' (form_encode w)) = Inr w"
proof (induction w)
  case (Cons c w)
  then show ?case using decode_form_char [of c "replace_all (CHR ''+'') ''%20'' (form_encode w)"] by (simp add: form_encode_def)
qed (simp add: form_encode_def replace_all_def)

lemma form_char_set: "set (form_char c) \<inter> {CHR ''&'', CHR ''=''} = {}"
proof -
  show ?thesis
    using uri_plain_not_special [of c] percent_set [OF nat_of_char_less_256 [of c]] percent_set [OF octets(1) [of c]]
      percent_set [OF octets(2) [of c]] by (auto simp: form_char_def Let_def)
qed

lemma form_encode_set: "CHR ''&'' \<notin> set (form_encode w)" "CHR ''='' \<notin> set (form_encode w)"
  using form_char_set by (auto simp: form_encode_def)

lemma split_join:
  assumes "ws \<noteq> []" "\<forall>w \<in> set ws. c \<notin> set w"
  shows "split_on c (join_with [c] ws) = ws"
  using assms
proof (induction ws rule: list_nonempty_induct)
  case (single w)
  then show ?case by (simp add: split_on_no_sep)
next
  case (cons w ws)
  then show ?case by (cases ws) (simp_all add: split_on_append_sep)
qed

lemma find_q_skip: "(\<forall>v \<in> set vs. hd (split_on (CHR ''='') v) \<noteq> ''q'') \<Longrightarrow> find_q (vs @ us) = find_q us"
  by (induction vs) simp_all

text \<open>C39. The query survives the address: whatever text is entered into the search form of a page, the search page
  that is opened with the form's address reads exactly this text from it, wherever the variable stands among
  others.\<close>
theorem search_term_roundtrip:
  assumes "\<forall>v \<in> set (before @ after). CHR ''&'' \<notin> set v" "\<forall>v \<in> set before. hd (split_on (CHR ''='') v) \<noteq> ''q''"
  shows "getSearchTermFromLocation (''?'' @ join_with ''&'' (before @ [''q='' @ form_encode w] @ after)) = Inr (Some w)"
proof -
  let ?v = "''q='' @ form_encode w"
  have "CHR ''&'' \<notin> set ?v" using form_encode_set(1) by simp
  then have "split_on (CHR ''&'') (join_with ''&'' (before @ [?v] @ after)) = before @ [?v] @ after"
    using assms(1) by (intro split_join) auto
  moreover have "split_on (CHR ''='') ?v = [''q'', form_encode w]"
    using split_on_append_sep [of "CHR ''=''" "''q''" "form_encode w"] split_on_no_sep [OF form_encode_set(2)] by simp
  ultimately show ?thesis
    using find_q_skip [OF assms(2), of "?v # after"] by (simp add: getSearchTermFromLocation_def form_encode_decodes)
qed

theorem search_term_roundtrip_witness:
  "getSearchTermFromLocation (''?'' @ join_with ''&'' ([''lang=en''] @ [''q='' @ form_encode ''C++ & more''] @ [''x=1''])) = Inr (Some ''C++ & more'')"
proof (rule search_term_roundtrip)
  show "\<forall>v \<in> set ([''lang=en''] @ [''x=1'']). CHR ''&'' \<notin> set v" by simp
  show "\<forall>v \<in> set [''lang=en'']. hd (split_on (CHR ''='') v) \<noteq> ''q''" by simp
qed

end
