(* ===== verification/Docs_Site.thy ===== *)
theory Docs_Site
  imports Docs_Page
begin

text \<open>
  The documentation search as a whole: the page and its worker run side by side and exchange messages over two
  channels.  A step is a key pressed in the search field, the arrival of a message on either side, or the
  arrival of the data file; steps interleave in any order, and an exception ends a step with what was done
  before it.
\<close>

record site =
  pg :: page
  wk :: worker
  to_page :: "jsval list"

definition start_site :: "page \<Rightarrow> site" where
  "start_site p = \<lparr>pg = start_worker p, wk = new_worker True, to_page = []\<rparr>"

text \<open>What a step of the worker posts.\<close>
definition new_posts :: "worker \<Rightarrow> worker \<Rightarrow> jsval list" where
  "new_posts w w' = posts_of (drop (length (out w)) (out w'))"

inductive site_step :: "environment \<Rightarrow> string \<Rightarrow> site \<Rightarrow> site \<Rightarrow> bool" for env response where
  key_up: "listening (pg s) \<Longrightarrow> doSearch env ((pg s)\<lparr>query_value := Some q\<rparr>) = Some (r, p') \<Longrightarrow>
    site_step env response s (s\<lparr>pg := p'\<rparr>)"
| worker_message: "to_worker (pg s) = m # ms \<Longrightarrow> onmessage env m (wk s) = Some (r, w') \<Longrightarrow>
    site_step env response s (s\<lparr>pg := (pg s)\<lparr>to_worker := ms\<rparr>, wk := w', to_page := to_page s @ new_posts (wk s) w'\<rparr>)"
| data_loaded: "Get x \<in> set (out (wk s)) \<Longrightarrow> \<not> allowSearch (wk s) \<Longrightarrow> onJSONLoaded env response (wk s) = (r, w') \<Longrightarrow>
    site_step env response s (s\<lparr>wk := w', to_page := to_page s @ new_posts (wk s) w'\<rparr>)"
| page_message: "to_page s = m # ms \<Longrightarrow> onWorkerMessage env m (pg s) = Some (r, p') \<Longrightarrow>
    site_step env response s (s\<lparr>pg := p', to_page := ms\<rparr>)"

section \<open>What the page may show\<close>

definition result_html :: "string \<Rightarrow> jsval \<Rightarrow> string" where
  "result_html base doc = formatResult base (location_of doc) (page_str ''title'' doc) (take 200 (page_str ''text'' doc))"

definition pages_ok :: "jsval list \<Rightarrow> jsval list \<Rightarrow> bool" where
  "pages_ok docs vs \<longleftrightarrow> (\<forall>v \<in> set vs. \<exists>d \<in> set docs. shows_page v d \<and> has_summary v d)"

definition page_msg_ok :: "jsval \<Rightarrow> jsval list \<Rightarrow> jsval \<Rightarrow> bool" where
  "page_msg_ok config docs m \<longleftrightarrow> m = Obj [(''config'', config)] \<or> m = Obj [(''allowSearch'', Bool True)] \<or>
     m = Obj [(''results'', Undef)] \<or> (\<exists>vs. m = Obj [(''results'', Arr vs)] \<and> pages_ok docs vs)"

definition worker_msg_ok :: "jsval \<Rightarrow> bool" where
  "worker_msg_ok m \<longleftrightarrow> m = Obj [(''init'', Bool True)] \<or> (\<exists>q. m = Obj [(''query'', Str q)])"

definition html_ok :: "page \<Rightarrow> jsval list \<Rightarrow> string \<Rightarrow> bool" where
  "html_ok p docs h \<longleftrightarrow> h = no_results_html p \<or> (\<exists>d \<in> set docs. h = result_html (base_url p) d)"

definition page_inv :: "jsval list \<Rightarrow> page \<Rightarrow> page \<Rightarrow> bool" where
  "page_inv docs p0 p \<longleftrightarrow> has_Worker p \<and> base_url p = base_url p0 \<and> no_results_attr p = no_results_attr p0 \<and>
     location_search p = location_search p0 \<and> list_all worker_msg_ok (to_worker p) \<and>
     (\<exists>hs. results_list p = Some hs \<and> list_all (html_ok p0 docs) hs)"

definition worker_inv :: "(char \<Rightarrow> bool) \<Rightarrow> jsval list \<Rightarrow> worker \<Rightarrow> bool" where
  "worker_inv sep docs w \<longleftrightarrow> (if allowSearch w then ready sep docs w else heap_ok (heap w) \<and> has_import w)"

definition site_inv :: "(char \<Rightarrow> bool) \<Rightarrow> jsval \<Rightarrow> jsval list \<Rightarrow> page \<Rightarrow> site \<Rightarrow> bool" where
  "site_inv sep config docs p0 s \<longleftrightarrow> page_inv docs p0 (pg s) \<and> worker_inv sep docs (wk s) \<and> list_all (page_msg_ok config docs) (to_page s)"

lemma show_pages:
  assumes "list_all2 (\<lambda>v d. shows_page v d \<and> has_summary v d) vs ds"
  shows "show_results base vs hs = (Inr (), hs @ map (result_html base) ds)"
  using assms
proof (induction vs ds arbitrary: hs rule: list_all2_induct)
  case (Cons v vs d ds)
  have "get v ''location'' = Inr (Str (location_of d))" "get v ''title'' = Inr (Str (page_str ''title'' d))"
      "get v ''summary'' = Inr (Str (take 200 (page_str ''text'' d)))"
    using Cons.hyps(1) by (auto simp: shows_page_def has_summary_def)
  then show ?case using Cons.IH [of "hs @ [result_html base d]"] by (simp add: result_html_def)
qed simp

lemma pages_ok_docs:
  assumes "pages_ok docs vs"
  obtains ds where "list_all2 (\<lambda>v d. shows_page v d \<and> has_summary v d) vs ds" "set ds \<subseteq> set docs"
proof -
  obtain f where f: "\<forall>v \<in> set vs. f v \<in> set docs \<and> shows_page v (f v) \<and> has_summary v (f v)"
    using assms unfolding pages_ok_def by metis
  then have "list_all2 (\<lambda>v d. shows_page v d \<and> has_summary v d) vs (map f vs)" "set (map f vs) \<subseteq> set docs"
    by (auto simp: list_all2_map2 list_all2_same)
  then show thesis by (rule that)
qed

text \<open>Showing an answer of the worker.\<close>
lemma display_pages:
  assumes "list_all2 (\<lambda>v d. shows_page v d \<and> has_summary v d) vs ds" "results_list p = Some hs"
  shows "displayResults (Arr vs) p =
    (Inr (), p\<lparr>results_list := Some (if ds = [] then [no_results_html p] else map (result_html (base_url p)) ds)\<rparr>)"
  using assms show_pages [OF assms(1), of "base_url p" "[]"]
  by (cases vs; cases ds) (auto simp: displayResults_def)

lemma display_ok:
  assumes "page_inv docs p0 p" "pages_ok docs vs"
  shows "\<exists>p'. displayResults (Arr vs) p = (Inr (), p') \<and> page_inv docs p0 p'"
proof -
  obtain ds where ds: "list_all2 (\<lambda>v d. shows_page v d \<and> has_summary v d) vs ds" "set ds \<subseteq> set docs" using pages_ok_docs [OF assms(2)] .
  obtain hs where "results_list p = Some hs" using assms(1) by (auto simp: page_inv_def)
  from display_pages [OF ds(1) this] show ?thesis
    using assms(1) ds(2) by (auto simp: page_inv_def html_ok_def list_all_iff no_results_html_def)
qed

section \<open>The invariant\<close>

lemma doSearch_inv:
  assumes "page_inv docs p0 p"
  shows "\<exists>r p'. doSearch env p = Some (r, p') \<and> page_inv docs p0 p'"
proof -
  have "\<exists>p'. displayResults (Arr []) p = (Inr (), p') \<and> page_inv docs p0 p'"
    by (rule display_ok [OF assms]) (simp add: pages_ok_def)
  moreover have "page_inv docs p0 (p\<lparr>to_worker := to_worker p @ [Obj [(''query'', Str q)]]\<rparr>)" for q
    using assms by (simp add: page_inv_def worker_msg_ok_def)
  moreover have "has_Worker p" using assms by (simp add: page_inv_def)
  ultimately show ?thesis using assms by (auto simp: doSearch_def split: option.split)
qed

lemma initSearch_inv:
  assumes "page_inv docs p0 p"
  shows "\<exists>r p'. initSearch env p = Some (r, p') \<and> page_inv docs p0 p'"
proof -
  have p1: "page_inv docs p0 (p\<lparr>listening := b\<rparr>)" "page_inv docs p0 (p\<lparr>listening := b, query_value := v\<rparr>)" for b v
    using assms by (simp_all add: page_inv_def)
  show ?thesis using assms p1 doSearch_inv [OF p1(2), of env] by (auto simp: initSearch_def Let_def split: sum.split option.split)
qed

lemma onWorkerMessage_inv:
  assumes "page_inv docs p0 p" "page_msg_ok config docs m"
  shows "\<exists>r p'. onWorkerMessage env m p = Some (r, p') \<and> page_inv docs p0 p'"
proof -
  have least: "page_inv docs p0 (p\<lparr>min_search_length := v\<rparr>)" for v using assms(1) by (simp add: page_inv_def)
  have keys: "obj_get [(k, v)] k' = (if k' = k then v else Undef)" if "k' \<in> {''allowSearch'', ''results'', ''config''}" for k k' v
    using that by (auto simp: obj_get_def object_prototype_def)
  consider (config) "m = Obj [(''config'', config)]" | (allow) "m = Obj [(''allowSearch'', Bool True)]"
    | (none) "m = Obj [(''results'', Undef)]" | (pages) vs where "m = Obj [(''results'', Arr vs)]" "pages_ok docs vs"
    using assms(2) by (auto simp: page_msg_ok_def)
  then show ?thesis
  proof cases
    case config
    then show ?thesis using assms(1) least by (auto simp: onWorkerMessage_def keys split: sum.split)
  next
    case allow
    then show ?thesis using initSearch_inv [OF assms(1)] by (simp add: onWorkerMessage_def keys)
  next
    case none
    then show ?thesis using assms(1) by (simp add: onWorkerMessage_def keys)
  next
    case pages
    then show ?thesis using display_ok [OF assms(1) pages(2)] by (auto simp: onWorkerMessage_def keys)
  qed
qed

lemma posts_of_simps [simp]:
  "posts_of [] = []" "posts_of (Post m # xs) = m # posts_of xs" "posts_of (Log t # xs) = posts_of xs"
  "posts_of (LogError t # xs) = posts_of xs" "posts_of (Get t # xs) = posts_of xs" "posts_of (Import us # xs) = posts_of xs"
  by (simp_all add: posts_of_def List.map_filter_simps)

lemma new_posts_append: "out w' = out w @ xs \<Longrightarrow> new_posts w w' = posts_of xs"
  by (simp add: new_posts_def)

lemma onmessage_inv:
  assumes "worker_inv sep docs w" "worker_msg_ok m"
  shows "\<exists>r w'. onmessage env m w = Some (r, w') \<and> worker_inv sep docs w' \<and> list_all (page_msg_ok config docs) (new_posts w w')"
proof -
  have out: "worker_inv sep docs (w\<lparr>out := x\<rparr>)" for x using assms(1) by (auto simp: worker_inv_def ready_def split: if_splits)
  consider (init) "m = Obj [(''init'', Bool True)]" | (empty) "m = Obj [(''query'', Str [])]"
    | (query) q where "m = Obj [(''query'', Str q)]" "q \<noteq> []" using assms(2) by (auto simp: worker_msg_ok_def)
  then show ?thesis
  proof cases
    case init
    then show ?thesis
      using out by (auto simp: onmessage_def obj_get_def init_def emits_def modify_def new_posts_def)
  next
    case empty
    then show ?thesis
      using out by (auto simp: onmessage_def obj_get_def object_prototype_def emits_def modify_def new_posts_def)
  next
    case query
    show ?thesis
    proof (cases "allowSearch w")
      case True
      then have "ready sep docs w" using assms(1) by (simp add: worker_inv_def)
      from onmessage_query [OF this query(2), of env] obtain r w' where r: "onmessage env m w = Some (r, w')" "ready sep docs w'"
          "case r of Inl e \<Rightarrow> exn_name e = ''QueryParseError'' \<and> out w' = out w | Inr _ \<Rightarrow> \<exists>x. page_results docs x \<and> out w' = out w @ [x]"
        unfolding query(1) by blast
      have "list_all (page_msg_ok config docs) (new_posts w w')"
      proof (cases r)
        case (Inl e)
        then show ?thesis using r(3) by (simp add: new_posts_def)
      next
        case (Inr u)
        then obtain x where x: "page_results docs x" "out w' = out w @ [x]" using r(3) by auto
        then show ?thesis
          using new_posts_append [OF x(2)] by (auto simp: page_results_def page_msg_ok_def pages_ok_def)
      qed
      moreover have "worker_inv sep docs w'" using r(2) by (simp add: worker_inv_def ready_def)
      ultimately show ?thesis using r(1) by blast
    next
      case False
      define w' where "w' = w\<lparr>out := out w @ [LogError ''Assets for search still loading'', Post (Obj [(''results'', Undef)])]\<rparr>"
      have "onmessage env m w = Some (Inr (), w')"
        using False query by (simp add: onmessage_def obj_get_def object_prototype_def search_def bind_act_def lift_act_def emits_def modify_def w'_def)
      moreover have "new_posts w w' = [Obj [(''results'', Undef)]]" by (simp add: w'_def new_posts_def)
      moreover have "worker_inv sep docs w'" unfolding w'_def by (rule out)
      ultimately show ?thesis by (simp add: page_msg_ok_def)
    qed
  qed
qed

text \<open>What the site and its surroundings have to be like: a data file as \<open>site_data\<close> describes it, of pages whose
  terms have no digits, a separator that is a regular expression, and a library that can be loaded.\<close>
definition good_site :: "environment \<Rightarrow> (char \<Rightarrow> bool) \<Rightarrow> jsval \<Rightarrow> jsval list \<Rightarrow> jsval \<Rightarrow> bool" where
  "good_site env sep config docs d \<longleftrightarrow> jsonable d \<and> e_import env [''lunr.js''] = Inr () \<and> list_all (page_ok sep) docs \<and>
     (\<exists>sp. site_data config sp docs d \<and> e_regexp env sp = Inr sep)"

lemma data_inv:
  assumes "good_site env sep config docs d" "worker_inv sep docs w" "\<not> allowSearch w"
  shows "\<exists>w'. onJSONLoaded env (json_text d) w = (Inr (), w') \<and> ready sep docs w' \<and>
    new_posts w w' = [Obj [(''config'', config)], Obj [(''allowSearch'', Bool True)]]"
proof -
  obtain sp where sp: "site_data config sp docs d" "e_regexp env sp = Inr sep" using assms(1) by (auto simp: good_site_def)
  obtain w' where w': "onJSONLoaded env (json_text d) w = (Inr (), w')" "ready sep docs w'"
      "out w' = out w @ [Import [''lunr.js''], Log ''All search scripts loaded, building Lunr index...'',
        Log ''Lunr index built, search ready'', Post (Obj [(''config'', config)]), Post (Obj [(''allowSearch'', Bool True)])]"
    using onJSONLoaded_ready [OF sp(1) _ _ _ _ sp(2), of w] assms by (auto simp: good_site_def worker_inv_def)
  then show ?thesis using new_posts_append [OF w'(3)] by simp
qed

lemma site_step_inv:
  assumes "site_step env (json_text d) s s'" "good_site env sep config docs d" "site_inv sep config docs p0 s"
  shows "site_inv sep config docs p0 s'"
  using assms
proof (induction rule: site_step.induct)
  case (key_up s q r p')
  have "page_inv docs p0 ((pg s)\<lparr>query_value := Some q\<rparr>)" using key_up.prems by (simp add: site_inv_def page_inv_def)
  from doSearch_inv [OF this, of env] show ?case using key_up by (simp add: site_inv_def)
next
  case (worker_message s m ms r w')
  have "worker_msg_ok m" "page_inv docs p0 ((pg s)\<lparr>to_worker := ms\<rparr>)"
    using worker_message.prems worker_message.hyps(1) by (auto simp: site_inv_def page_inv_def)
  then show ?case
    using worker_message onmessage_inv [of sep docs "wk s" m env config] by (auto simp: site_inv_def)
next
  case (data_loaded x s r w')
  then have "ready sep docs w'" "new_posts (wk s) w' = [Obj [(''config'', config)], Obj [(''allowSearch'', Bool True)]]"
    using data_inv [OF data_loaded.prems(1), of "wk s"] by (auto simp: site_inv_def)
  then show ?case using data_loaded.prems(2) by (simp add: site_inv_def worker_inv_def ready_def page_msg_ok_def)
next
  case (page_message s m ms r p')
  then show ?case using onWorkerMessage_inv [of docs p0 "pg s" config m env] by (auto simp: site_inv_def)
qed

lemma start_inv:
  assumes "has_Worker p" "to_worker p = []" "results_list p = Some []"
  shows "site_inv sep config docs p (start_site p)"
  using assms heap_ok_empty
  by (simp add: site_inv_def page_inv_def worker_inv_def start_site_def start_worker_def new_worker_def worker_msg_ok_def)

lemma run_inv:
  assumes "(site_step env (json_text d))\<^sup>*\<^sup>* (start_site p) s" "good_site env sep config docs d"
    "has_Worker p" "to_worker p = []" "results_list p = Some []"
  shows "site_inv sep config docs p s"
  using assms(1)
proof (induction rule: rtranclp_induct)
  case base
  show ?case using assms(3-5) by (rule start_inv)
next
  case (step s s')
  then show ?case using site_step_inv assms(2) by blast
qed

text \<open>C3. Only pages are shown: whatever is typed and however messages, keys and the data file interleave, the list
  of results on the page is always made of the site's own pages (title, link and the first 200 characters of
  the text, escaped) and the note that nothing was found.\<close>
theorem only_pages_shown:
  assumes "good_site env sep config docs d" "has_Worker p" "to_worker p = []" "results_list p = Some []"
    and "(site_step env (json_text d))\<^sup>*\<^sup>* (start_site p) s"
  shows "\<exists>hs. results_list (pg s) = Some hs \<and> set hs \<subseteq> insert (no_results_html p) (result_html (base_url p) ` set docs)"
proof -
  have "page_inv docs p (pg s)" using run_inv [OF assms(5,1-4)] by (simp add: site_inv_def)
  then obtain hs where hs: "results_list (pg s) = Some hs" "list_all (html_ok p docs) hs" by (auto simp: page_inv_def)
  have "h \<in> insert (no_results_html p) (result_html (base_url p) ` set docs)" if "h \<in> set hs" for h
    using hs(2) that by (fastforce simp: html_ok_def list_all_iff)
  then show ?thesis using hs(1) by blast
qed

section \<open>A session\<close>

text \<open>The page listens and nothing is under way.\<close>
definition waiting :: "(char \<Rightarrow> bool) \<Rightarrow> jsval list \<Rightarrow> page \<Rightarrow> rat \<Rightarrow> site \<Rightarrow> bool" where
  "waiting sep docs p0 least s \<longleftrightarrow> page_inv docs p0 (pg s) \<and> ready sep docs (wk s) \<and> listening (pg s) \<and> to_worker (pg s) = [] \<and>
     to_page s = [] \<and> min_search_length (pg s) = Some (Num least)"

text \<open>The message keys do not hide each other.\<close>
lemma message_keys:
  "get (Obj [(''config'', v)]) ''allowSearch'' = Inr Undef" "get (Obj [(''config'', v)]) ''results'' = Inr Undef"
  "get (Obj [(''config'', v)]) ''config'' = Inr v" "get (Obj [(''allowSearch'', v)]) ''allowSearch'' = Inr v"
  "get (Obj [(''allowSearch'', v)]) ''results'' = Inr Undef" "get (Obj [(''allowSearch'', v)]) ''config'' = Inr Undef"
  "get (Obj [(''results'', v)]) ''allowSearch'' = Inr Undef" "get (Obj [(''results'', v)]) ''results'' = Inr v"
  "get (Obj [(''results'', v)]) ''config'' = Inr Undef" "get (Obj [(''query'', v)]) ''init'' = Inr Undef"
  "get (Obj [(''query'', v)]) ''query'' = Inr v" "get (Obj [(''init'', v)]) ''init'' = Inr v"
  by (simp_all add: obj_get_def object_prototype_def)

text \<open>From pressing a key to the results: three steps.\<close>
lemma query_shown:
  assumes w: "waiting sep docs p0 least s" and q: "least < of_nat (length q)" "q \<noteq> []" "list_all plain_char q" "CHR ''*'' \<notin> set q"
  shows "\<exists>s' ds. (site_step env response)\<^sup>*\<^sup>* s s' \<and> waiting sep docs p0 least s' \<and> query_value (pg s') = Some q \<and>
    set ds \<subseteq> set docs \<and> distinct (map location_of ds) \<and> location_of ` set ds = wanted sep docs q \<and>
    results_list (pg s') = Some (if ds = [] then [no_results_html p0] else map (result_html (base_url p0)) ds)"
proof -
  let ?m = "Obj [(''query'', Str q)]"
  define s1 where "s1 = s\<lparr>pg := (pg s)\<lparr>query_value := Some q, to_worker := [?m]\<rparr>\<rparr>"
  have inv: "page_inv docs p0 (pg s)" "ready sep docs (wk s)" and lw: "listening (pg s)" "to_worker (pg s) = []" "to_page s = []"
      "min_search_length (pg s) = Some (Num least)" using w by (simp_all add: waiting_def)
  have hw: "has_Worker (pg s)" using inv(1) by (simp add: page_inv_def)
  have "doSearch env ((pg s)\<lparr>query_value := Some q\<rparr>) = Some (Inr (), (pg s)\<lparr>query_value := Some q, to_worker := [?m]\<rparr>)"
    using lw q(1) hw by (simp add: doSearch_def)
  from site_step.key_up [OF lw(1) this] have st1: "site_step env response s s1" unfolding s1_def .
  obtain vs w' where vs: "search env q (wk s) = Some (Inr (Arr vs), w')" "ready sep docs w'" "out w' = out (wk s)"
      "location_of ` set vs = wanted sep docs q" "distinct (map location_of vs)" "pages_ok docs vs"
    using search_plain [OF inv(2) q(3,4), of env] unfolding pages_ok_def by blast
  define w2 where "w2 = w'\<lparr>out := out w' @ [Post (Obj [(''results'', Arr vs)])]\<rparr>"
  define s2 where "s2 = s1\<lparr>pg := (pg s1)\<lparr>to_worker := []\<rparr>, wk := w2, to_page := [Obj [(''results'', Arr vs)]]\<rparr>"
  have "onmessage env ?m (wk s1) = Some (Inr (), w2)"
    using vs(1) q(2) by (simp add: onmessage_def message_keys s1_def w2_def bind_act_def lift_act_def emits_def modify_def del: get.simps)
  moreover have "new_posts (wk s1) w2 = [Obj [(''results'', Arr vs)]]" using vs(3) by (simp add: new_posts_def w2_def s1_def)
  ultimately have st2: "site_step env response s1 s2"
    using site_step.worker_message [of s1 ?m "[]" env "Inr ()" w2 response] lw(3) by (simp add: s1_def s2_def)
  obtain ds where ds: "list_all2 (\<lambda>v d. shows_page v d \<and> has_summary v d) vs ds" "set ds \<subseteq> set docs" using pages_ok_docs [OF vs(6)] .
  have "map location_of ds = map location_of vs"
    using ds(1) by (induction rule: list_all2_induct) (auto simp: shows_page_location)
  then have ds': "distinct (map location_of ds)" "location_of ` set ds = wanted sep docs q" using vs(4,5) by (simp, metis set_map)
  obtain hs where hs: "results_list (pg s2) = Some hs" using inv(1) by (auto simp: page_inv_def s2_def s1_def)
  define p3 where "p3 = (pg s2)\<lparr>results_list := Some (if ds = [] then [no_results_html (pg s2)] else map (result_html (base_url (pg s2))) ds)\<rparr>"
  have "onWorkerMessage env (Obj [(''results'', Arr vs)]) (pg s2) = Some (Inr (), p3)"
    using display_pages [OF ds(1) hs] by (simp add: onWorkerMessage_def message_keys p3_def del: get.simps)
  then have st3: "site_step env response s2 (s2\<lparr>pg := p3, to_page := []\<rparr>)"
    by (intro site_step.page_message) (auto simp: s2_def)
  have same: "base_url (pg s2) = base_url p0" "no_results_html (pg s2) = no_results_html p0"
    using inv(1) by (simp_all add: page_inv_def s2_def s1_def no_results_html_def)
  have "waiting sep docs p0 least (s2\<lparr>pg := p3, to_page := []\<rparr>)"
    using inv vs(2) lw ds(2) same
    by (auto simp: waiting_def page_inv_def ready_def p3_def s2_def s1_def w2_def html_ok_def list_all_iff)
  moreover have "query_value p3 = Some q" by (simp add: p3_def s2_def s1_def)
  moreover have "(site_step env response)\<^sup>*\<^sup>* s (s2\<lparr>pg := p3, to_page := []\<rparr>)" using st1 st2 st3 by (meson converse_rtranclp_into_rtranclp rtranclp.rtrancl_refl)
  ultimately show ?thesis using ds' ds(2) same by (intro exI [of _ "s2\<lparr>pg := p3, to_page := []\<rparr>"] exI [of _ ds]) (simp add: p3_def)
qed

text \<open>From opening the page to waiting: four steps.\<close>
lemma start_waits:
  assumes site: "good_site env sep config docs d" "get config ''min_search_length'' = Inr (Num n)"
    and p: "has_Worker p" "to_worker p = []" "results_list p = Some []" "query_value p \<noteq> None" "location_search p = []"
  shows "\<exists>s. (site_step env (json_text d))\<^sup>*\<^sup>* (start_site p) s \<and> waiting sep docs p (n - 1) s"
proof -
  let ?step = "site_step env (json_text d)" and ?c = "Obj [(''config'', config)]" and ?a = "Obj [(''allowSearch'', Bool True)]"
  define s0 where "s0 = start_site p"
  define w1 where "w1 = (new_worker True)\<lparr>out := [Get ''search_index.json'']\<rparr>"
  define s1 where "s1 = s0\<lparr>pg := p, wk := w1, to_page := []\<rparr>"
  have "onmessage env (Obj [(''init'', Bool True)]) (wk s0) = Some (Inr (), w1)"
    by (simp add: onmessage_def message_keys s0_def start_site_def init_def emits_def modify_def w1_def new_worker_def del: get.simps)
  moreover have "new_posts (wk s0) w1 = []" by (simp add: new_posts_def w1_def s0_def start_site_def new_worker_def)
  ultimately have "?step s0 (s0\<lparr>pg := p\<lparr>to_worker := []\<rparr>, wk := w1, to_page := []\<rparr>)"
    using site_step.worker_message [of s0 "Obj [(''init'', Bool True)]" "[]" env "Inr ()" w1 "json_text d"] p(2)
    by (simp add: s0_def start_site_def start_worker_def)
  moreover have "p\<lparr>to_worker := []\<rparr> = p" using p(2) by (cases p) simp
  ultimately have st1: "?step s0 s1" unfolding s1_def by (simp only:)
  have w1: "worker_inv sep docs w1" "\<not> allowSearch w1" using heap_ok_empty by (simp_all add: worker_inv_def w1_def new_worker_def)
  obtain w2 where w2: "onJSONLoaded env (json_text d) w1 = (Inr (), w2)" "ready sep docs w2" "new_posts w1 w2 = [?c, ?a]"
    using data_inv [OF site(1) w1] by blast
  define s2 where "s2 = s1\<lparr>wk := w2, to_page := [?c, ?a]\<rparr>"
  have st2: "?step s1 s2"
    using site_step.data_loaded [of "''search_index.json''" s1 env "json_text d" "Inr ()" w2] w1(2) w2(1,3)
    by (simp add: s1_def s2_def w1_def)
  define p3 where "p3 = p\<lparr>min_search_length := Some (Num (n - 1))\<rparr>"
  define s3 where "s3 = s2\<lparr>pg := p3, to_page := [?a]\<rparr>"
  have "truthy config" using site(1) by (auto simp: good_site_def site_data_def)
  then have "onWorkerMessage env ?c p = Some (Inr (), p3)"
    using site(2) by (simp add: onWorkerMessage_def message_keys minus_1_def p3_def del: get.simps)
  then have st3: "?step s2 s3" unfolding s3_def by (intro site_step.page_message) (auto simp: s2_def s1_def)
  define p4 where "p4 = p3\<lparr>listening := True\<rparr>"
  define s4 where "s4 = s3\<lparr>pg := p4, to_page := []\<rparr>"
  have "getSearchTermFromLocation [] = Inr None" by (simp add: getSearchTermFromLocation_def)
  then have "onWorkerMessage env ?a p3 = Some (Inr (), p4)"
    using p(4,5) by (simp add: onWorkerMessage_def message_keys initSearch_def Let_def p4_def p3_def del: get.simps)
  then have st4: "?step s3 s4" unfolding s4_def by (intro site_step.page_message) (auto simp: s3_def)
  have "waiting sep docs p (n - 1) s4"
    using p(1-3) w2(2) by (simp add: waiting_def page_inv_def s4_def s3_def s2_def p4_def p3_def)
  moreover have "?step\<^sup>*\<^sup>* s0 s4" using st1 st2 st3 st4 by (meson converse_rtranclp_into_rtranclp rtranclp.rtrancl_refl)
  ultimately show ?thesis unfolding s0_def by blast
qed

text \<open>C2. A session of the documentation search, page and worker together: the page opens, the worker reads the data
  file, and a plain query longer than the configured minimum, once typed, comes back as the list of exactly
  the pages that have a word with the stem of one of its words, each once, or as the note that nothing was
  found.\<close>
theorem search_session:
  assumes "good_site env sep config docs d" "get config ''min_search_length'' = Inr (Num n)"
    and "has_Worker p" "to_worker p = []" "results_list p = Some []" "query_value p \<noteq> None" "location_search p = []"
    and "n \<le> of_nat (length q)" "q \<noteq> []" "list_all plain_char q" "CHR ''*'' \<notin> set q"
  shows "\<exists>s ds. (site_step env (json_text d))\<^sup>*\<^sup>* (start_site p) s \<and> query_value (pg s) = Some q \<and>
    set ds \<subseteq> set docs \<and> distinct (map location_of ds) \<and> location_of ` set ds = wanted sep docs q \<and>
    results_list (pg s) = Some (if ds = [] then [no_results_html p] else map (result_html (base_url p)) ds)"
proof -
  obtain s where s: "(site_step env (json_text d))\<^sup>*\<^sup>* (start_site p) s" "waiting sep docs p (n - 1) s"
    using start_waits [OF assms(1-7)] by blast
  have "n - 1 < of_nat (length q)" using assms(8) by linarith
  from query_shown [OF s(2) this assms(9-11), of env "json_text d"] s(1) show ?thesis
    by (meson rtranclp_trans)
qed

definition sample_search_page :: page where
  "sample_search_page = \<lparr>base_url = ''.'', query_value = Some [], results_list = Some [], no_results_attr = Some ''No results found'',
     location_search = [], has_Worker = True, min_search_length = None, listening = False, to_worker = [], own = new_worker False\<rparr>"

lemma sample_good_site: "good_site sample_env separator sample_settings [sample_doc] sample_site"
  using sample_site_ok sample_page by (auto simp: good_site_def sample_env_def)

theorem search_session_witness:
  "\<exists>s. (site_step sample_env (json_text sample_site))\<^sup>*\<^sup>* (start_site sample_search_page) s \<and>
    results_list (pg s) = Some [result_html ''.'' sample_doc]"
proof -
  let ?q = "''Restoring a disk''"
  have q: "(3 :: rat) \<le> of_nat (length ?q)" "?q \<noteq> []" "list_all plain_char ?q" "CHR ''*'' \<notin> set ?q" by simp_all code_simp
  have p: "has_Worker sample_search_page" "to_worker sample_search_page = []" "results_list sample_search_page = Some []"
      "query_value sample_search_page \<noteq> None" "location_search sample_search_page = []" by (simp_all add: sample_search_page_def)
  have m: "get sample_settings ''min_search_length'' = Inr (Num 3)" by (simp add: sample_settings_def obj_get_def)
  obtain s ds where s: "(site_step sample_env (json_text sample_site))\<^sup>*\<^sup>* (start_site sample_search_page) s" "set ds \<subseteq> {sample_doc}"
      "distinct (map location_of ds)" "location_of ` set ds = {''intro/''}"
      "results_list (pg s) = Some (if ds = [] then [no_results_html sample_search_page] else map (result_html (base_url sample_search_page)) ds)"
    using search_session [OF sample_good_site m p q] unfolding sample_wanted by auto
  have "ds = [sample_doc]" using s(2-4) by (cases ds; cases "tl ds") auto
  then show ?thesis using s(1,5) by (auto simp: sample_search_page_def)
qed

theorem only_pages_shown_witness:
  "\<exists>s hs. (site_step sample_env (json_text sample_site))\<^sup>*\<^sup>* (start_site sample_search_page) s \<and> hs \<noteq> [] \<and>
    results_list (pg s) = Some hs \<and> set hs \<subseteq> {no_results_html sample_search_page, result_html ''.'' sample_doc}"
proof -
  have p: "has_Worker sample_search_page" "to_worker sample_search_page = []" "results_list sample_search_page = Some []"
      "query_value sample_search_page \<noteq> None" "location_search sample_search_page = []" by (simp_all add: sample_search_page_def)
  have m: "get sample_settings ''min_search_length'' = Inr (Num 3)" by (simp add: sample_settings_def obj_get_def)
  obtain s1 where s1: "(site_step sample_env (json_text sample_site))\<^sup>*\<^sup>* (start_site sample_search_page) s1"
      "waiting separator [sample_doc] sample_search_page (3 - 1) s1"
    using start_waits [OF sample_good_site m p] by blast
  have "(3 - 1 :: rat) < of_nat (length ''disk'')" "''disk'' \<noteq> []" "list_all plain_char ''disk''" "CHR ''*'' \<notin> set ''disk''"
    by simp_all code_simp
  from query_shown [OF s1(2) this, of sample_env "json_text sample_site"] obtain s ds where
    s: "(site_step sample_env (json_text sample_site))\<^sup>*\<^sup>* s1 s"
      "results_list (pg s) = Some (if ds = [] then [no_results_html sample_search_page] else map (result_html (base_url sample_search_page)) ds)"
    by blast
  have run: "(site_step sample_env (json_text sample_site))\<^sup>*\<^sup>* (start_site sample_search_page) s" using s1(1) s(1) by (rule rtranclp_trans)
  from only_pages_shown [OF sample_good_site p(1-3) run] show ?thesis
    using run s(2) by (auto simp: sample_search_page_def split: if_splits)
qed

end
