(* ===== verification/Spec2Isabelle.thy ===== *)
theory Spec2Isabelle
  imports App Docs_Site
begin

text \<open>
  Verification of the browser side of CloudBackup: the web UI (\<open>src/webstatic/ui\<close>) and the
  documentation search (\<open>src/developer_documentation/site/search\<close>, of which
  \<open>src/webstatic/docs/search\<close> is a byte-identical copy).

  \<^bold>\<open>The program.\<close>  The page polls the backup server and shows a card per job; dialogs watch a running job,
  page through reports, resume a restore, browse the files of a backup run and start a restore.  Requests go
  through a small client (\<open>js/api.js\<close>); a running job is followed on an event stream.  The documentation
  pages search their own text in the browser: a worker loads or builds a full-text index with the lunr
  library and answers queries, and the page shows the results.

  \<^bold>\<open>Theories, and what they model.\<close>
  \<^item> \<open>Prelude\<close>, \<open>Js_Value\<close>: strings, numbers, values, property reads that throw, truthiness, exceptions as the
    left summand.  \<open>Json\<close>, \<open>Codec\<close>: \<open>JSON.parse\<close> and \<open>JSON.stringify\<close>, \<open>btoa\<close> and \<open>atob\<close>.
  \<^item> \<open>Api\<close>: \<open>api.js\<close>, every endpoint: the request sent, the reply read, every way to fail; the connection in
    \<open>localStorage\<close>.  \<open>Sse_Stream\<close>: \<open>streamSseEvents\<close>, lines cut from chunks.
  \<^item> \<open>Format\<close>: \<open>fmtBytes\<close>, \<open>fmtTime\<close>, \<open>fmtDuration\<close>, \<open>isRunning\<close>, \<open>isResumable\<close> of \<open>app.js\<close>.
  \<^item> \<open>Component\<close>: a component of \<open>app.js\<close> is a state, handlers that answer a new state and the requests
    started, and a view; a run interleaves what the view offers with replies in any order.  \<open>Pager\<close> is the
    contract of a paged list.
  \<^item> \<open>Watch_Modal\<close>, \<open>Reports\<close>, \<open>Restore_Reports\<close>, \<open>Restore_Start\<close>, \<open>App\<close>: the components of \<open>app.js\<close> with
    their views, one definition per handler under its name in the source.
  \<^item> \<open>Lunr_Core\<close>, \<open>Lunr_Vector\<close>, \<open>Lunr_Stemmer\<close>, \<open>Lunr_Query\<close>, \<open>Lunr_TokenSet\<close>, \<open>Lunr_Index\<close>: the classes of
    \<open>lunr.js\<close>: utilities, field references, sets, tokens, tokenizer, pipeline and stop words; sparse vectors;
    Porter's stemmer; the query language; token sets as a heap of shared, mutated nodes; match data, builder and
    index.  \<open>Lunr_Match\<close>, \<open>Lunr_Results\<close> and \<open>Lunr_Build\<close> hold what is proved of them: looking terms up in a
    token set, answering queries, building an index.
  \<^item> \<open>Docs_Worker\<close>, \<open>Docs_Page\<close>, \<open>Docs_Site\<close>: \<open>search/worker.js\<close>, \<open>search/main.js\<close>, and the two side by side as a step
    relation over their message channels.

  \<^bold>\<open>What is shown.\<close>  Invariants of every run of the components (one operation per job, valid requests, lists
  that are a start of the server's listing, at most 500 events on screen) and of every interleaving of the
  search page with its worker (only pages of the site are shown); refinements (the stream reader against
  handling whole lines, the query lexer against a letter-by-letter specification, the stream to the screen,
  a search session against the set of pages that have the stem of a word of the query); round trips
  (connection, request bodies, query texts, a serialised index, the query in the address); functional behaviour and errors of
  the single operations; equivalences with reference definitions (Porter's measure, the states the server
  resumes, looking a term with wildcards or an edit distance up in a token set against matching every word).
  The index is followed through all its stages: adding documents keeps exact postings and distinct term
  numbers, so building never fails; every query on a built index ends, and its documents are those the
  clauses ask for, required, prohibited and optional; a worker that is ready answers every query.  Several
  theorems state how the code goes wrong: late replies that are shown under another identity, a selection that
  survives a change of source, counters that are never shown.

  Theorems about token sets assume words without digits: the keys by which the builder merges nodes are
  ambiguous for digits, and words with digits can get lost.

  \<^bold>\<open>Interfaces.\<close>  Locales state what one part needs of another: \<open>component_invariant\<close>, \<open>local_invariant\<close> and
  \<open>pager\<close> for the components, \<open>set_algebra\<close> for sets of document references, \<open>token_functions\<close> for pipeline
  functions, \<open>accumulating_map\<close> for vectors, \<open>stack_loop\<close> for the loops over a stack of frames; each is interpreted on
  the model's own definitions.

  \<^bold>\<open>Bounds and fuel.\<close>  Loops that always end are functions with a termination proof.  The drivers of the
  query lexer and parser and the loops of token sets over stacks of frames are partial functions into \<open>option\<close>,
  and so is everything that calls them; that they always return is proved, for the loops on every heap the
  library can build.  The JSON parser has fuel, and its result is shown not to depend on it once the fuel
  reaches the length of the text.

  \<^bold>\<open>Parameters.\<close>  \<open>fetch\<close>, \<open>Date\<close>, \<open>localeCompare\<close>, \<open>Math.log\<close>, \<open>Math.sqrt\<close>, \<open>new RegExp\<close> on a single character,
  \<open>importScripts\<close> and the language scripts of the search, which are not in the repository, are arguments of the
  definitions that use them.  Strings are sequences of code units below 256, numbers are rationals with
  \<open>NaN\<close>: rounding to 53 bits and infinities are left out.

  \<^bold>\<open>Not modelled.\<close>  The Go server, except the two lists the UI has to agree with; the TypeScript sources, which
  are the same code as the compiled files with types; the minified third-party libraries; the start-up file
  that mounts the page.
\<close>

section \<open>Composition\<close>

text \<open>C1. From the wire to the screen: if the server's watch stream carries the events \<open>es\<close> of a job as
  \<open>data:\<close> lines, cut into any chunks, and then a terminator line, the dialog ends up showing the
  last 500 of them with the progress steps of one item collapsed, and the terminator as its status.\<close>
theorem watch_end_to_end:
  assumes "kind target = WatchesBackup"
    and "fetch (stream_request c ''/backup/watch'' (Obj [(''name'', target_name target), (''job_id'', target_jobId target)])) =
      StreamReply 200 True body_text (map Chunk cs @ [Done])"
    and "concat cs = concat (map (\<lambda>v. sse_line (json_text v)) es) @ sse_line msg"
    and "list_all jsonable es" "list_all is_obj es"
    and "is_terminator msg" "char_nl \<notin> set msg" "last msg \<noteq> char_cr"
  defines "s \<equiv> foldl (\<lambda>s cb. on_callback cb s) (fst (wm_init target)) (wm_handler fetch c target)"
  shows "events s = take_last MAX_EVENTS (collapse es) \<and> status s = msg"
proof -
  have handler: "wm_handler fetch c target = map OnEvent es @ [OnClose msg]"
    using assms(1) stream_of_lines [of fetch c "''/backup/watch''"
        "Obj [(''name'', target_name target), (''job_id'', target_jobId target)]" 200 body_text cs es msg "[]"]
      assms(2-4,6-8)
    by (simp add: wm_handler_def watchBackup_def)
  have ev: "events_of (map OnEvent es) = es" for es by (induction es) simp_all
  have "events (fst (wm_init target)) = []"
    by (simp add: wm_init_def subscribe_def run_effects_def wm_mounted_def Let_def)
  then have "events s = take_last MAX_EVENTS (collapse es)"
    unfolding s_def handler using events_after_callbacks [of "fst (wm_init target)" "map OnEvent es @ [OnClose msg]"]
      assms(5) by (simp add: ev)
  moreover have "status s = msg" unfolding s_def handler by simp
  ultimately show ?thesis ..
qed

theorem watch_end_to_end_witness:
  "status (foldl (\<lambda>s cb. on_callback cb s) (fst (wm_init sample_target))
     (wm_handler (\<lambda>_. StreamReply 200 True (Inr [])
        (map Chunk [sse_line (json_text (Obj [(''sequence'', Num 1)])), sse_line ''Completed run''] @ [Done]))
        sample_conn sample_target)) = ''Completed run''"
  using watch_end_to_end [of sample_target
      "\<lambda>_. StreamReply 200 True (Inr [])
        (map Chunk [sse_line (json_text (Obj [(''sequence'', Num 1)])), sse_line ''Completed run''] @ [Done])"
      sample_conn "Inr []" "[sse_line (json_text (Obj [(''sequence'', Num 1)])), sse_line ''Completed run'']"
      "[Obj [(''sequence'', Num 1)]]" "''Completed run''"]
  by (simp add: sample_target_def is_obj_def is_terminator_def)

text \<open>C12. What the connection dialog saves is what the page uses from then on, now and after a reload: the
  page switches to the trimmed address and the entered credentials, asks the new server at once,
  and a page opened later on the same browser storage starts with that connection.\<close>
theorem saved_connection_used:
  assumes "jsonable (cm_username d)" "jsonable (cm_password d)" "store s = Some m"
  defines "c \<equiv> cm_onSave d"
  defines "s' \<equiv> fst (app_act s (SaveConnection c))"
  shows "conn s' = c \<and> \<not> connOpen s' \<and> Refreshing c None \<in> set (snd (app_act s (SaveConnection c))) \<and>
    conn (fst (app_init (store s') protocol host)) = c"
proof -
  have "loadConnection (saveConnection c (Some m)) protocol host = c"
    using assms(1,2) by (intro load_saved) (simp_all add: c_def cm_onSave_def)
  then show ?thesis
    using assms(3)
    by (simp add: s'_def onSaveConn_def conn_effects_def refresh_def app_init_def app_mounted_def Let_def)
qed

theorem saved_connection_used_witness:
  "conn (fst (app_act (app_mounted (Some Map.empty) ''http:'' ''h'')
     (SaveConnection (cm_onSave (cm_init sample_conn))))) = cm_onSave (cm_init sample_conn)"
  using saved_connection_used [of "cm_init sample_conn" "app_mounted (Some Map.empty) ''http:'' ''h''" Map.empty]
  by (simp add: cm_init_def sample_conn_def app_mounted_def)

end
